(* ===== verification/Prelude.thy ===== *)
theory Prelude
  imports Main "HOL-Library.Word" "HOL-Library.List_Lexorder" "HOL-Library.Char_ord"
begin

unbundle bit_operations_syntax

text \<open>
  Shared vocabulary of the development: machine types, the error numbers and error conditions
  of the C++ library on Linux, the faults a run of the code can end in, the lemma collections the
  component theories extend, and the generic lemmas on lists, sums and words they share.
\<close>

subsection \<open>Machine types\<close>

type_synonym size_t = "64 word"
type_synonym uint32 = "32 word"
type_synonym uint16 = "16 word"
type_synonym byte = "8 word"

text \<open>A thread is named by its position in the list of threads of a system.\<close>

type_synonym tid = nat

subsection \<open>Errors\<close>

text \<open>
  A \<open>std::error_code\<close> is modelled by its value. The two categories the code builds
  (generic, from an \<open>errno\<close>, and the system category of a default-constructed code) compare with
  \<open>std::errc\<close> by value on Linux, so the category carries no information here. The value 0 is
  the code that tests false.
\<close>

type_synonym error_code = int

abbreviation (input) no_error :: error_code where "no_error \<equiv> 0"

text \<open>The enumerators of \<open>std::errc\<close> the code uses, with their Linux values.\<close>

datatype errc =
    interrupted
  | operation_would_block
  | resource_unavailable_try_again
  | not_enough_memory
  | bad_address
  | bad_file_descriptor
  | invalid_argument
  | invalid_seek
  | not_supported
  | operation_not_permitted

fun make_error_code :: "errc \<Rightarrow> error_code" where
  "make_error_code operation_not_permitted = 1"
| "make_error_code interrupted = 4"
| "make_error_code bad_file_descriptor = 9"
| "make_error_code operation_would_block = 11"
| "make_error_code resource_unavailable_try_again = 11"
| "make_error_code not_enough_memory = 12"
| "make_error_code bad_address = 14"
| "make_error_code invalid_argument = 22"
| "make_error_code invalid_seek = 29"
| "make_error_code not_supported = 95"

text \<open>
  How an execution can leave the code's intended control flow: a failed \<open>assert\<close>, an
  exception (of type \<open>std::error_code\<close>, \<open>std::system_error\<close>), a call of \<open>std::terminate\<close>, or
  behaviour the language leaves undefined. Operations that can do so return \<open>fault + 'a\<close>.
\<close>

datatype fault =
    Assertion_Failed
  | Throw_Error_Code error_code
  | Throw_System_Error
  | Terminated
  | Undefined_Behaviour

subsection \<open>Lemma collections\<close>

named_theorems op_defs \<open>definitions of the operations of a component\<close>
named_theorems inv_defs \<open>definitions of invariants and of the measures they speak of\<close>
named_theorems frame_simps \<open>what an operation leaves unchanged\<close>

subsection \<open>Sums as results\<close>

definition returns :: "fault + 'a \<Rightarrow> bool" where
  "returns r \<longleftrightarrow> (\<exists>v. r = Inr v)"

lemma returns_Inr [simp]: "returns (Inr v)"
  by (simp add: returns_def)

lemma not_returns_Inl [simp]: "\<not> returns (Inl f)"
  by (simp add: returns_def)

subsection \<open>Lists updated in place\<close>

lemma sum_list_map_update:
  fixes f :: "'a \<Rightarrow> 'b::ab_group_add"
  assumes "i < length xs"
  shows "sum_list (map f (xs[i := y])) = sum_list (map f xs) - f (xs ! i) + f y"
  using assms
proof (induction xs arbitrary: i)
  case Nil
  then show ?case by simp
next
  case (Cons x xs)
  then show ?case by (cases i) (simp_all add: algebra_simps)
qed

lemma sum_list_map_update_nat:
  fixes f :: "'a \<Rightarrow> 'b::comm_monoid_add"
  assumes "i < length xs"
  shows "sum_list (map f (xs[i := y])) + f (xs ! i) = sum_list (map f xs) + f y"
  using assms
proof (induction xs arbitrary: i)
  case Nil
  then show ?case by simp
next
  case (Cons x xs)
  then show ?case by (cases i) (simp_all add: add.commute add.left_commute)
qed

lemma sum_list_split_at:
  fixes f :: "'a \<Rightarrow> 'b::comm_monoid_add"
  assumes "i < length xs"
  shows "\<exists>rest. sum_list (map f xs) = f (xs ! i) + rest \<and>
    (\<forall>y. sum_list (map f (xs[i := y])) = f y + rest)"
proof -
  let ?rest = "sum_list (map f (take i xs)) + sum_list (map f (drop (Suc i) xs))"
  have "sum_list (map f xs) = f (xs ! i) + ?rest"
    using id_take_nth_drop [OF assms] by (metis (no_types, lifting) add.left_commute list.simps(9) map_append sum_list.Cons sum_list_append)
  moreover have "sum_list (map f (xs[i := y])) = f y + ?rest" for y
    using assms by (simp add: upd_conv_take_nth_drop add.left_commute)
  ultimately show ?thesis by blast
qed

lemma sum_list_member_le:
  fixes f :: "'a \<Rightarrow> nat"
  assumes "i < length xs"
  shows "f (xs ! i) \<le> sum_list (map f xs)"
  using assms
proof (induction xs arbitrary: i)
  case Nil
  then show ?case by simp
next
  case (Cons x xs)
  then show ?case by (cases i) (simp_all add: trans_le_add2)
qed

lemma sum_list_two_le:
  fixes f :: "'a \<Rightarrow> nat"
  assumes "i < length xs" "j < length xs" "i \<noteq> j"
  shows "f (xs ! i) + f (xs ! j) \<le> sum_list (map f xs)"
  using assms
proof (induction xs arbitrary: i j)
  case Nil
  then show ?case by simp
next
  case (Cons x xs)
  show ?case
  proof (cases i)
    case 0
    with Cons.prems obtain j' where "j = Suc j'" "j' < length xs" by (cases j) auto
    with 0 show ?thesis by (simp add: sum_list_member_le)
  next
    case (Suc i')
    show ?thesis
    proof (cases j)
      case 0
      with Suc Cons.prems show ?thesis by (simp add: sum_list_member_le add.commute)
    next
      case (Suc j')
      with \<open>i = Suc i'\<close> Cons.prems Cons.IH [of i' j'] show ?thesis by simp
    qed
  qed
qed

subsection \<open>Words\<close>

lemma double_or_one: "(2 * x) OR 1 = 2 * x + (1 :: size_t)"
  by (simp add: or_one_eq)

lemma double_plus_one_or_one: "(2 * x + 1) OR 1 = 2 * x + (1 :: size_t)"
  by (simp add: or_one_eq)

lemma and_minus_two: "w AND - 2 = w - w mod (2 :: size_t)"
proof -
  have "w AND - 2 = unset_bit 0 w" by (simp add: unset_bit_eq_and_not)
  also have "\<dots> = w - w mod 2" by (simp add: unset_bit_0 minus_mod_eq_mult_div)
  finally show ?thesis .
qed

lemma double_and_minus_two: "(2 * x) AND - 2 = 2 * (x :: size_t)"
  by (simp add: and_minus_two flip: even_iff_mod_2_eq_zero)

lemma double_plus_one_and_minus_two: "(2 * x + 1) AND - 2 = 2 * (x :: size_t)"
proof -
  have "odd (2 * x + 1)" by simp
  then have "(2 * x + 1) mod 2 = 1" by (simp only: odd_iff_mod_2_eq_one)
  then show ?thesis by (simp add: and_minus_two)
qed

lemma double_and_one: "(2 * x) AND 1 = (0 :: size_t)"
  by (simp add: and_one_eq flip: even_iff_mod_2_eq_zero)

lemma double_plus_one_and_one: "(2 * x + 1) AND 1 = (1 :: size_t)"
proof -
  have "odd (2 * x + 1)" by simp
  then have "(2 * x + 1) mod 2 = 1" by (simp only: odd_iff_mod_2_eq_one)
  then show ?thesis by (simp add: and_one_eq)
qed

lemmas flag_bit_simps =
  double_or_one double_plus_one_or_one double_and_minus_two double_plus_one_and_minus_two
  double_and_one double_plus_one_and_one

lemma unat_of_nat_small: "n < 2 ^ 64 \<Longrightarrow> unat (of_nat n :: size_t) = n"
  by (simp add: unat_of_nat)

lemma of_nat_small_eq:
  "of_nat m = (of_nat n :: size_t) \<Longrightarrow> m < 2 ^ 64 \<Longrightarrow> n < 2 ^ 64 \<Longrightarrow> m = n"
  by (metis unat_of_nat_small)

end
