(* ===== verification/Call_Stack.thy ===== *)
theory Call_Stack
  imports Prelude
begin

text \<open>
  \<^verbatim>\<open>call_stack.hpp\<close>: the thread-local chain of \<open>context\<close> objects that tells which execution
  contexts the current thread is running, and the per-run data each carries. The chain starting
  at \<open>top_\<close> is modelled by the list of its (key, value) pairs, innermost first. The value of a
  context is an object of the frame that created it, so writing through the pointer \<open>contains\<close>
  returns changes the entry the search stopped at: \<open>cs_modify\<close>.
\<close>

subsection \<open>The operations\<close>

type_synonym ('k, 'v) call_stack = "('k \<times> 'v) list"

definition cs_enter :: "'k \<Rightarrow> 'v \<Rightarrow> ('k, 'v) call_stack \<Rightarrow> ('k, 'v) call_stack" where
  "cs_enter k v stk = (k, v) # stk"

text \<open>The destructor of the innermost context: \<open>top_ = next_\<close>.\<close>

definition cs_leave :: "('k, 'v) call_stack \<Rightarrow> ('k, 'v) call_stack" where
  "cs_leave stk = tl stk"

fun cs_contains :: "'k \<Rightarrow> ('k, 'v) call_stack \<Rightarrow> 'v option" where
  "cs_contains k [] = None"
| "cs_contains k ((key, value) # next) = (if key = k then Some value else cs_contains k next)"

definition cs_top :: "('k, 'v) call_stack \<Rightarrow> 'v option" where
  "cs_top stk = (case stk of [] \<Rightarrow> None | (key, value) # next \<Rightarrow> Some value)"

text \<open>\<open>next_by_key\<close> of the context that heads the given chain.\<close>

definition cs_next_by_key :: "('k, 'v) call_stack \<Rightarrow> 'v option" where
  "cs_next_by_key elem = (case elem of [] \<Rightarrow> None | (key, value) # next \<Rightarrow> cs_contains key next)"

fun cs_modify :: "'k \<Rightarrow> ('v \<Rightarrow> 'v) \<Rightarrow> ('k, 'v) call_stack \<Rightarrow> ('k, 'v) call_stack" where
  "cs_modify k f [] = []"
| "cs_modify k f ((key, value) # next) =
     (if key = k then (key, f value) # next else (key, value) # cs_modify k f next)"

lemmas cs_defs [op_defs] = cs_enter_def cs_leave_def cs_top_def cs_next_by_key_def

subsection \<open>The interface\<close>

text \<open>
  What the scheduler and the allocator ask of the chain: the innermost value under a key, which
  entering shadows, leaving restores, and \<open>modify\<close> updates.
\<close>

locale context_stack =
  fixes enter :: "'k \<Rightarrow> 'v \<Rightarrow> 's \<Rightarrow> 's"
    and leave :: "'s \<Rightarrow> 's"
    and lookup :: "'k \<Rightarrow> 's \<Rightarrow> 'v option"
    and modify :: "'k \<Rightarrow> ('v \<Rightarrow> 'v) \<Rightarrow> 's \<Rightarrow> 's"
  assumes lookup_enter_same: "lookup k (enter k v s) = Some v"
    and lookup_enter_other: "k' \<noteq> k \<Longrightarrow> lookup k' (enter k v s) = lookup k' s"
    and leave_enter: "leave (enter k v s) = s"
    and modify_enter_same: "modify k f (enter k v s) = enter k (f v) s"
    and modify_enter_other: "k' \<noteq> k \<Longrightarrow> modify k' f (enter k v s) = enter k v (modify k' f s)"
    and lookup_modify: "lookup k (modify k' f s) =
       (if k = k' then map_option f (lookup k s) else lookup k s)"
begin

text \<open>Work done in an inner run of the same context does not reach the outer one.\<close>

lemma nested_run: "leave (modify k f (enter k v s)) = s"
  by (simp add: modify_enter_same leave_enter)

text \<open>Work done for another context from inside a run reaches that context's own entry.\<close>

lemma cross_run:
  "k' \<noteq> k \<Longrightarrow> lookup k' (leave (modify k' f (enter k v s))) = map_option f (lookup k' s)"
  by (simp add: modify_enter_other leave_enter lookup_modify)

end

lemma cs_contains_modify:
  "cs_contains k (cs_modify k' f s) =
     (if k = k' then map_option f (cs_contains k s) else cs_contains k s)"
  by (induction k' f s rule: cs_modify.induct) auto

interpretation cs: context_stack cs_enter cs_leave cs_contains cs_modify
  by unfold_locales (simp_all add: cs_defs cs_contains_modify)

subsection \<open>Facts the components use\<close>

lemma cs_modify_absent: "cs_contains k s = None \<Longrightarrow> cs_modify k f s = s"
  by (induction k f s rule: cs_modify.induct) (auto split: if_splits)

lemma length_cs_modify [simp]: "length (cs_modify k f s) = length s"
  by (induction k f s rule: cs_modify.induct) auto

lemma map_fst_cs_modify [simp]: "map fst (cs_modify k f s) = map fst s"
  by (induction k f s rule: cs_modify.induct) auto

lemma cs_contains_in_set: "cs_contains k s = Some v \<Longrightarrow> (k, v) \<in> set s"
  by (induction k s rule: cs_contains.induct) (auto split: if_splits)

lemma cs_contains_None_iff: "cs_contains k s = None \<longleftrightarrow> k \<notin> fst ` set s"
  by (induction k s rule: cs_contains.induct) auto

text \<open>A sum over the frames changes by the change of the one frame that is written.\<close>

lemma sum_cs_modify:
  fixes w :: "'v \<Rightarrow> 'b::ab_group_add"
  assumes "cs_contains k s = Some v"
  shows "sum_list (map (w \<circ> snd) (cs_modify k f s)) =
         sum_list (map (w \<circ> snd) s) - w v + w (f v)"
  using assms
  by (induction k f s rule: cs_modify.induct) (auto simp: algebra_simps split: if_splits)

lemma sum_cs_modify_nat:
  fixes w :: "'v \<Rightarrow> nat"
  assumes "cs_contains k s = Some v"
  shows "sum_list (map (w \<circ> snd) (cs_modify k f s)) + w v =
         sum_list (map (w \<circ> snd) s) + w (f v)"
  using assms
  by (induction k f s rule: cs_modify.induct) (auto split: if_splits)

end
