(* ===== verification/Thread_Memory.thy ===== *)
theory Thread_Memory
  imports Prelude Call_Stack
begin

text \<open>
  \<^verbatim>\<open>thread_info_base.hpp\<close>, \<^verbatim>\<open>recycling_allocator.hpp\<close> and the \<open>ptr\<close> of \<^verbatim>\<open>executor_op.hpp\<close>: the
  one-slot recycling of operation memory. Each \<open>thread_info_base\<close> owns a 1024-byte \<open>storage_\<close> and
  a flag \<open>in_use_\<close>; a request that fits is served from the slot of the innermost
  \<open>thread_info_base\<close> of the calling thread, every other one from the heap.

  Memory is the flag of every \<open>thread_info_base\<close> (named by a number), the heap blocks that are
  live, and the number of the next fresh block. \<open>operator delete\<close> of anything but a live heap
  block is undefined behaviour.
\<close>

subsection \<open>The operations\<close>

datatype pointer = Storage nat | Heap nat

record memory =
  in_use :: "nat \<Rightarrow> bool"
  live :: "nat list"
  fresh :: nat

definition storage_size :: nat where
  "storage_size = 1024"

definition operator_new :: "memory \<Rightarrow> pointer \<times> memory" where
  "operator_new m = (Heap (fresh m), m\<lparr>live := fresh m # live m, fresh := Suc (fresh m)\<rparr>)"

fun operator_delete :: "pointer \<Rightarrow> memory \<Rightarrow> fault + memory" where
  "operator_delete (Heap n) m =
     (if n \<in> set (live m) then Inr (m\<lparr>live := remove1 n (live m)\<rparr>) else Inl Undefined_Behaviour)"
| "operator_delete (Storage t) m = Inl Undefined_Behaviour"

definition tib_allocate :: "nat option \<Rightarrow> nat \<Rightarrow> memory \<Rightarrow> pointer \<times> memory" where
  "tib_allocate this_thread sz m =
     (case this_thread of
        Some t \<Rightarrow>
          if \<not> in_use m t \<and> sz < storage_size
          then (Storage t, m\<lparr>in_use := (in_use m)(t := True)\<rparr>)
          else operator_new m
      | None \<Rightarrow> operator_new m)"

definition tib_deallocate :: "nat option \<Rightarrow> pointer \<Rightarrow> nat \<Rightarrow> memory \<Rightarrow> fault + memory" where
  "tib_deallocate this_thread p sz m =
     (case this_thread of
        Some t \<Rightarrow>
          if p = Storage t \<and> sz < storage_size
          then Inr (m\<lparr>in_use := (in_use m)(t := False)\<rparr>)
          else operator_delete p m
      | None \<Rightarrow> operator_delete p m)"

text \<open>
  \<open>recycling_allocator<T>::allocate(n)\<close> and \<open>deallocate(p, n)\<close> ask for the top of the thread's
  call stack (whatever context it belongs to) and for \<open>sizeof(T) * n\<close> bytes.
\<close>

definition ra_allocate ::
    "('k, nat) call_stack \<Rightarrow> nat \<Rightarrow> nat \<Rightarrow> memory \<Rightarrow> pointer \<times> memory" where
  "ra_allocate stack sizeof_T n m = tib_allocate (cs_top stack) (sizeof_T * n) m"

definition ra_deallocate ::
    "('k, nat) call_stack \<Rightarrow> nat \<Rightarrow> pointer \<Rightarrow> nat \<Rightarrow> memory \<Rightarrow> fault + memory" where
  "ra_deallocate stack sizeof_T p n m = tib_deallocate (cs_top stack) p (sizeof_T * n) m"

text \<open>
  The owner \<open>ptr\<close> of an operation under construction: \<open>v\<close> the raw memory, \<open>p\<close> the constructed
  operation. \<open>reset\<close> destroys the operation, if there is one, and returns the memory, if there is
  some, to the allocator it came from. The second component counts destructor calls.
\<close>

record op_ptr =
  ptr_v :: "pointer option"
  ptr_p :: "pointer option"

definition ptr_reset ::
    "(pointer \<Rightarrow> 'm \<Rightarrow> fault + 'm) \<Rightarrow> op_ptr \<Rightarrow> 'm \<Rightarrow> fault + op_ptr \<times> nat \<times> 'm" where
  "ptr_reset dealloc x m =
     (let destroyed = (case ptr_p x of Some p \<Rightarrow> 1 | None \<Rightarrow> 0);
          x' = x\<lparr>ptr_p := None\<rparr>
      in case ptr_v x of
           None \<Rightarrow> Inr (x', destroyed, m)
         | Some v \<Rightarrow>
             (case dealloc v m of
                Inl e \<Rightarrow> Inl e
              | Inr m' \<Rightarrow> Inr (x'\<lparr>ptr_v := None\<rparr>, destroyed, m')))"

lemmas mem_defs [op_defs] =
  storage_size_def operator_new_def tib_allocate_def tib_deallocate_def
  ra_allocate_def ra_deallocate_def ptr_reset_def Let_def

subsection \<open>The invariant\<close>

text \<open>The heap is well formed, and a pointer is handed out when its slot or block is taken.\<close>

definition mem_inv :: "memory \<Rightarrow> bool" where
  "mem_inv m \<longleftrightarrow> distinct (live m) \<and> (\<forall>n \<in> set (live m). n < fresh m)"

fun handed_out :: "memory \<Rightarrow> pointer \<Rightarrow> bool" where
  "handed_out m (Storage t) = in_use m t"
| "handed_out m (Heap n) = (n \<in> set (live m))"

subsection \<open>The interface of an allocator\<close>

text \<open>
  What the code that builds operations relies on: allocation hands out a pointer that was not
  handed out, and nothing else changes hands; giving back a pointer taken with the same
  arguments succeeds and takes back only that pointer.
\<close>

locale operation_allocator =
  fixes inv :: "'m \<Rightarrow> bool"
    and out :: "'m \<Rightarrow> 'p \<Rightarrow> bool"
    and own :: "'p \<Rightarrow> bool"
    and alloc :: "'m \<Rightarrow> 'p \<times> 'm"
    and dealloc :: "'p \<Rightarrow> 'm \<Rightarrow> fault + 'm"
  assumes alloc_inv: "inv m \<Longrightarrow> alloc m = (p, m') \<Longrightarrow> inv m'"
    and alloc_fresh: "inv m \<Longrightarrow> alloc m = (p, m') \<Longrightarrow> \<not> out m p"
    and alloc_out: "inv m \<Longrightarrow> alloc m = (p, m') \<Longrightarrow> out m' q \<longleftrightarrow> q = p \<or> out m q"
    and alloc_own: "alloc m = (p, m') \<Longrightarrow> own p"
    and dealloc_ok: "inv m \<Longrightarrow> out m p \<Longrightarrow> own p \<Longrightarrow>
       \<exists>m'. dealloc p m = Inr m' \<and> inv m' \<and> (\<forall>q. out m' q \<longleftrightarrow> out m q \<and> q \<noteq> p)"
begin

text \<open>Two allocations never return the same memory.\<close>

lemma alloc_twice_distinct:
  assumes "inv m" "alloc m = (p, m1)" "alloc m1 = (q, m2)"
  shows "p \<noteq> q"
  using assms alloc_inv alloc_fresh alloc_out by metis

text \<open>Taking memory and giving it back leaves the same memory handed out.\<close>

lemma alloc_dealloc:
  assumes "inv m" "alloc m = (p, m1)"
  shows "\<exists>m2. dealloc p m1 = Inr m2 \<and> inv m2 \<and> (\<forall>q. out m2 q \<longleftrightarrow> out m q)"
proof -
  have "inv m1" "out m1 p" "own p"
    using assms by (auto intro: alloc_inv alloc_own simp: alloc_out)
  then obtain m2 where "dealloc p m1 = Inr m2" "inv m2" "\<forall>q. out m2 q \<longleftrightarrow> out m1 q \<and> q \<noteq> p"
    using dealloc_ok by blast
  with assms show ?thesis using alloc_out alloc_fresh by metis
qed

end

lemma operator_new_live:
  assumes "mem_inv m" "operator_new m = (p, m')"
  shows "mem_inv m' \<and> \<not> handed_out m p \<and> (\<forall>q. handed_out m' q \<longleftrightarrow> q = p \<or> handed_out m q)"
proof -
  have "p = Heap (fresh m)" "m' = m\<lparr>live := fresh m # live m, fresh := Suc (fresh m)\<rparr>"
    using assms by (simp_all add: operator_new_def)
  moreover have "handed_out (m\<lparr>live := fresh m # live m, fresh := Suc (fresh m)\<rparr>) q \<longleftrightarrow>
      q = Heap (fresh m) \<or> handed_out m q" for q
    by (cases q) auto
  ultimately show ?thesis using assms(1) by (auto simp: mem_inv_def less_Suc_eq)
qed

lemma operator_delete_live:
  assumes "mem_inv m" "n \<in> set (live m)"
  shows "\<exists>m'. operator_delete (Heap n) m = Inr m' \<and> mem_inv m' \<and>
    (\<forall>q. handed_out m' q \<longleftrightarrow> handed_out m q \<and> q \<noteq> Heap n)"
proof -
  have "handed_out (m\<lparr>live := remove1 n (live m)\<rparr>) q \<longleftrightarrow> handed_out m q \<and> q \<noteq> Heap n" for q
    using assms by (cases q) (auto simp: mem_inv_def)
  then show ?thesis using assms by (auto simp: mem_inv_def)
qed

text \<open>
  The pointers the allocator of one thread hands out and may take back: its own slot, when the
  request fits it, and every heap block.
\<close>

definition belongs_to :: "nat option \<Rightarrow> nat \<Rightarrow> pointer \<Rightarrow> bool" where
  "belongs_to this_thread sz p \<longleftrightarrow>
     (case p of Heap n \<Rightarrow> True | Storage t \<Rightarrow> this_thread = Some t \<and> sz < storage_size)"

lemma tib_allocate_cases:
  obtains (slot) t where "this_thread = Some t" "\<not> in_use m t" "sz < storage_size"
      "tib_allocate this_thread sz m = (Storage t, m\<lparr>in_use := (in_use m)(t := True)\<rparr>)"
    | (heap) "tib_allocate this_thread sz m = operator_new m"
proof (cases "\<exists>t. this_thread = Some t \<and> \<not> in_use m t \<and> sz < storage_size")
  case True
  then show ?thesis using slot by (auto simp: tib_allocate_def)
next
  case False
  then have "tib_allocate this_thread sz m = operator_new m"
    by (auto simp: tib_allocate_def split: option.splits)
  then show ?thesis by (rule heap)
qed

lemma handed_out_set_in_use:
  "handed_out (m\<lparr>in_use := (in_use m)(t := b)\<rparr>) q \<longleftrightarrow>
     (if q = Storage t then b else handed_out m q)"
  by (cases q) auto

interpretation tib: operation_allocator mem_inv handed_out "belongs_to this_thread sz"
    "tib_allocate this_thread sz" "\<lambda>p. tib_deallocate this_thread p sz"
  for this_thread sz
proof unfold_locales
  fix m p m'
  assume inv: "mem_inv m" and al: "tib_allocate this_thread sz m = (p, m')"
  have "mem_inv m' \<and> \<not> handed_out m p \<and> (\<forall>q. handed_out m' q \<longleftrightarrow> q = p \<or> handed_out m q)"
  proof (cases rule: tib_allocate_cases [of this_thread m sz])
    case (slot t)
    with al have "p = Storage t" "m' = m\<lparr>in_use := (in_use m)(t := True)\<rparr>" by simp_all
    with slot inv show ?thesis by (simp add: handed_out_set_in_use) (simp add: mem_inv_def)
  next
    case heap
    with al inv show ?thesis by (simp add: operator_new_live)
  qed
  then show "mem_inv m'" "\<not> handed_out m p" "\<And>q. handed_out m' q \<longleftrightarrow> q = p \<or> handed_out m q"
    by blast+
next
  fix m p m'
  assume "tib_allocate this_thread sz m = (p, m')"
  then show "belongs_to this_thread sz p"
    by (cases rule: tib_allocate_cases [of this_thread m sz])
      (auto simp: belongs_to_def operator_new_def)
next
  fix m p
  assume inv: "mem_inv m" and out: "handed_out m p" and own: "belongs_to this_thread sz p"
  show "\<exists>m'. tib_deallocate this_thread p sz m = Inr m' \<and> mem_inv m' \<and>
      (\<forall>q. handed_out m' q \<longleftrightarrow> handed_out m q \<and> q \<noteq> p)"
  proof (cases p)
    case (Storage t)
    with own have "tib_deallocate this_thread p sz m = Inr (m\<lparr>in_use := (in_use m)(t := False)\<rparr>)"
      by (simp add: belongs_to_def tib_deallocate_def)
    with inv Storage show ?thesis by (simp add: handed_out_set_in_use) (simp add: mem_inv_def)
  next
    case (Heap n)
    then have "tib_deallocate this_thread p sz m = operator_delete (Heap n) m"
      by (simp add: tib_deallocate_def split: option.split)
    with inv out Heap operator_delete_live show ?thesis by simp
  qed
qed

end
