(* ===== verification/Op_Queue.thy ===== *)
theory Op_Queue
  imports Prelude
begin

text \<open>
  \<^verbatim>\<open>op_queue.hpp\<close>: the queue of operation pointers every other component is built on. An
  \<open>op_queue<T>\<close> is a \<open>std::queue<T*, std::list<T*>>\<close>; it is modelled by the list of the
  (non-null) pointers it holds, first element first. A null pointer returned by \<open>front\<close> or
  \<open>back\<close> is None. The locale \<open>fifo\<close> is the interface the scheduler and the reactor rely on;
  its client is the draining loop \<open>while (o = q.front()) { q.pop(); ... }\<close>, which both contain.
\<close>

subsection \<open>The operations\<close>

type_synonym 'a op_queue = "'a list"

definition oq_empty :: "'a op_queue \<Rightarrow> bool" where
  "oq_empty q \<longleftrightarrow> q = []"

definition oq_front :: "'a op_queue \<Rightarrow> 'a option" where
  "oq_front q = (if oq_empty q then None else Some (hd q))"

definition oq_back :: "'a op_queue \<Rightarrow> 'a option" where
  "oq_back q = (if oq_empty q then None else Some (last q))"

text \<open>The inherited \<open>push\<close> of one pointer, and \<open>pop\<close>, which is undefined on an empty list.\<close>

definition oq_push :: "'a op_queue \<Rightarrow> 'a \<Rightarrow> 'a op_queue" where
  "oq_push q v = q @ [v]"

definition oq_pop :: "'a op_queue \<Rightarrow> fault + 'a op_queue" where
  "oq_pop q = (if oq_empty q then Inl Undefined_Behaviour else Inr (tl q))"

text \<open>\<open>push(op_queue& q)\<close> splices the argument to the end and leaves it empty.\<close>

definition oq_splice :: "'a op_queue \<Rightarrow> 'a op_queue \<Rightarrow> 'a op_queue \<times> 'a op_queue" where
  "oq_splice c q = (c @ q, [])"

text \<open>
  \<open>push(op_queue<U>& q)\<close>, chosen when the argument's element type differs: it pushes the front
  of \<open>q\<close> while there is one, and never pops it.
\<close>

partial_function (option) oq_push_from ::
    "('u \<Rightarrow> 'a) \<Rightarrow> 'a op_queue \<Rightarrow> 'u op_queue \<Rightarrow> ('a op_queue \<times> 'u op_queue) option" where
  "oq_push_from conv c q =
     (case oq_front q of
        None \<Rightarrow> Some (c, q)
      | Some v \<Rightarrow> oq_push_from conv (oq_push c (conv v)) q)"

fun oq_is_enqueued :: "'a op_queue \<Rightarrow> 'a \<Rightarrow> bool" where
  "oq_is_enqueued [] v \<longleftrightarrow> False"
| "oq_is_enqueued (x # xs) v \<longleftrightarrow> x = v \<or> oq_is_enqueued xs v"

lemmas oq_defs [op_defs] =
  oq_empty_def oq_front_def oq_back_def oq_push_def oq_pop_def oq_splice_def

subsection \<open>The draining loop\<close>

text \<open>
  \<open>while (o = q.front()) { q.pop(); body(o); }\<close> over any queue. None is "does not return".
\<close>

partial_function (option) drain ::
    "('q \<Rightarrow> 'a option) \<Rightarrow> ('q \<Rightarrow> fault + 'q) \<Rightarrow> ('a \<Rightarrow> 's \<Rightarrow> 's) \<Rightarrow> 'q \<Rightarrow> 's \<Rightarrow> (fault + 'q \<times> 's) option"
where
  "drain front pop body q s =
     (case front q of
        None \<Rightarrow> Some (Inr (q, s))
      | Some v \<Rightarrow>
          (case pop q of
             Inl e \<Rightarrow> Some (Inl e)
           | Inr q' \<Rightarrow> drain front pop body q' (body v s)))"

subsection \<open>The interface\<close>

locale fifo =
  fixes contents :: "'q \<Rightarrow> 'a list"
    and front :: "'q \<Rightarrow> 'a option"
    and pop :: "'q \<Rightarrow> fault + 'q"
    and push :: "'q \<Rightarrow> 'a \<Rightarrow> 'q"
  assumes front_empty: "contents q = [] \<Longrightarrow> front q = None"
    and front_first: "contents q = x # xs \<Longrightarrow> front q = Some x"
    and pop_empty: "contents q = [] \<Longrightarrow> pop q = Inl Undefined_Behaviour"
    and pop_rest: "contents q = x # xs \<Longrightarrow> \<exists>q'. pop q = Inr q' \<and> contents q' = xs"
    and push_last: "contents (push q x) = contents q @ [x]"
begin

lemma front_None_iff: "front q = None \<longleftrightarrow> contents q = []"
  by (cases "contents q") (auto simp: front_empty front_first)

lemma pop_returns_iff: "returns (pop q) \<longleftrightarrow> front q \<noteq> None"
proof (cases "contents q")
  case Nil
  then show ?thesis by (simp add: front_empty pop_empty)
next
  case (Cons x xs)
  then obtain q' where "pop q = Inr q'" using pop_rest by blast
  with Cons show ?thesis by (simp add: front_first)
qed

text \<open>The loop ends, with the queue empty and the body run on every element in order.\<close>

lemma drain_all:
  "\<exists>q'. drain front pop body q s = Some (Inr (q', fold body (contents q) s)) \<and> contents q' = []"
proof (induction "contents q" arbitrary: q s)
  case Nil
  then have "front q = None" by (simp add: front_empty)
  with Nil show ?case by (simp add: drain.simps)
next
  case (Cons x xs)
  from Cons.hyps(2) [symmetric] have fr: "front q = Some x" by (rule front_first)
  obtain q' where q': "pop q = Inr q'" "contents q' = xs"
    using pop_rest [OF Cons.hyps(2) [symmetric]] by blast
  obtain q'' where
    "drain front pop body q' (body x s) = Some (Inr (q'', fold body xs (body x s)))" "contents q'' = []"
    using Cons.hyps(1) [of q'] q'(2) by blast
  with fr q'(1) Cons.hyps(2) [symmetric] show ?case by (simp add: drain.simps)
qed

text \<open>Elements come out in the order they went in.\<close>

lemma fifo_order: "contents (foldl push q xs) = contents q @ xs"
proof (induction xs arbitrary: q)
  case Nil
  show ?case by simp
next
  case (Cons x xs)
  then show ?case by (simp add: push_last)
qed

end

interpretation oq: fifo "\<lambda>q. q" oq_front oq_pop oq_push
  by unfold_locales (auto simp: op_defs)

subsection \<open>Facts the components use\<close>

lemma oq_front_simps [simp]:
  "oq_front [] = None" "oq_front (x # xs) = Some x"
  by (simp_all add: op_defs)

lemma oq_pop_simps [simp]:
  "oq_pop [] = Inl Undefined_Behaviour" "oq_pop (x # xs) = Inr xs"
  by (simp_all add: op_defs)

lemma oq_drain: "drain oq_front oq_pop body q s = Some (Inr ([], fold body q s))"
  using oq.drain_all [of body q s] by auto

lemma oq_is_enqueued_iff [simp]: "oq_is_enqueued q v \<longleftrightarrow> v \<in> set q"
  by (induction q) auto

text \<open>Draining into a second queue is the same as splicing.\<close>

lemma fold_push: "fold (\<lambda>v r. oq_push r v) q r = r @ q"
  by (induction q arbitrary: r) (auto simp: oq_push_def)

lemma oq_push_from_not_returning:
  fixes conv :: "'u \<Rightarrow> 'a"
  shows "oq_push_from conv c (v # q) = None"
proof (rule ccontr)
  assume "oq_push_from conv c (v # q) \<noteq> None"
  then obtain r where ret: "oq_push_from conv c (v # q) = Some r" by blast
  have "v # q = []"
  proof (rule oq_push_from.raw_induct [where P = "\<lambda>_ _ q _. q = []", OF _ ret])
    fix f :: "('u \<Rightarrow> 'a) \<Rightarrow> 'a op_queue \<Rightarrow> 'u op_queue \<Rightarrow> ('a op_queue \<times> 'u op_queue) option"
      and conv :: "'u \<Rightarrow> 'a" and c :: "'a op_queue" and q :: "'u op_queue" and r
    assume IH: "\<And>conv c q r. f conv c q = Some r \<Longrightarrow> q = []"
      and eq: "(case oq_front q of None \<Rightarrow> Some (c, q)
        | Some v \<Rightarrow> f conv (oq_push c (conv v)) q) = Some r"
    show "q = []"
    proof (cases q)
      case (Cons x xs)
      with eq have "f conv (oq_push c (conv x)) q = Some r" by simp
      then show ?thesis by (rule IH)
    qed simp
  qed
  then show False by simp
qed

lemma oq_push_from_Nil [simp]: "oq_push_from conv c [] = Some (c, [])"
  by (simp add: oq_push_from.simps)

end
