(* ===== verification/Event.thy ===== *)
theory Event
  imports Prelude
begin

text \<open>
  \<^verbatim>\<open>event.hpp\<close>: the wake-up event of the scheduler. Its \<open>state_\<close> packs a flag in bit 0 and twice
  the number of threads inside \<open>wait\<close> above it. The condition variable is modelled by what the
  operations ask of it (\<open>notification\<close>) and, in \<open>wait\<close>, by what other threads did to the event
  while the lock was released. The operations take whether the caller's \<open>unique_lock\<close> owns the
  mutex, since each asserts it, and return whether it still does.
\<close>

subsection \<open>The state and the operations\<close>

record event =
  ev_state :: size_t

datatype notification = Notify_Nobody | Notify_One | Notify_All

definition ev_init :: event where
  "ev_init = \<lparr>ev_state = 0\<rparr>"

definition set_flag :: "event \<Rightarrow> event" where
  "set_flag ev = ev\<lparr>ev_state := ev_state ev OR 1\<rparr>"

definition flag_is_set :: "event \<Rightarrow> bool" where
  "flag_is_set ev \<longleftrightarrow> ev_state ev AND 1 \<noteq> 0"

definition have_waiters :: "event \<Rightarrow> bool" where
  "have_waiters ev \<longleftrightarrow> ev_state ev > 1"

definition ev_signal_all :: "bool \<Rightarrow> event \<Rightarrow> fault + event \<times> bool \<times> notification" where
  "ev_signal_all owns ev =
     (if \<not> owns then Inl Assertion_Failed
      else Inr (set_flag ev, owns, Notify_All))"

definition ev_signal :: "bool \<Rightarrow> event \<Rightarrow> fault + event \<times> bool \<times> notification" where
  "ev_signal owns ev = ev_signal_all owns ev"

definition ev_unlock_and_signal_one :: "bool \<Rightarrow> event \<Rightarrow> fault + event \<times> bool \<times> notification" where
  "ev_unlock_and_signal_one owns ev =
     (if \<not> owns then Inl Assertion_Failed
      else
        let ev' = set_flag ev
        in Inr (ev', False, if have_waiters ev' then Notify_One else Notify_Nobody))"

text \<open>The last component is the returned boolean.\<close>

definition ev_maybe_unlock_and_signal_one ::
    "bool \<Rightarrow> event \<Rightarrow> fault + event \<times> bool \<times> notification \<times> bool" where
  "ev_maybe_unlock_and_signal_one owns ev =
     (if \<not> owns then Inl Assertion_Failed
      else
        let ev' = set_flag ev
        in if have_waiters ev' then Inr (ev', False, Notify_One, True)
           else Inr (ev', owns, Notify_Nobody, False))"

definition clear_flag :: "event \<Rightarrow> event" where
  "clear_flag ev = ev\<lparr>ev_state := ev_state ev AND NOT 1\<rparr>"

definition ev_clear :: "bool \<Rightarrow> event \<Rightarrow> fault + event \<times> bool" where
  "ev_clear owns ev = (if \<not> owns then Inl Assertion_Failed else Inr (clear_flag ev, owns))"

text \<open>The constructor and the destructor of \<open>waiter\<close>.\<close>

definition waiter_enter :: "event \<Rightarrow> event" where
  "waiter_enter ev = ev\<lparr>ev_state := ev_state ev + 2\<rparr>"

definition waiter_leave :: "event \<Rightarrow> event" where
  "waiter_leave ev = ev\<lparr>ev_state := ev_state ev - 2\<rparr>"

text \<open>
  The loop of \<open>wait\<close>. Each element of the list is one return of \<open>cond_.wait\<close>, notified or
  spurious: what the other threads did to the event while this one was blocked. None: the thread
  is still blocked when the list is used up.
\<close>

fun wait_loop :: "(event \<Rightarrow> event) list \<Rightarrow> event \<Rightarrow> event option" where
  "wait_loop [] ev = (if flag_is_set ev then Some ev else None)"
| "wait_loop (other # others) ev =
     (if flag_is_set ev then Some ev
      else wait_loop others (waiter_leave (other (waiter_enter ev))))"

definition ev_wait :: "bool \<Rightarrow> (event \<Rightarrow> event) list \<Rightarrow> event \<Rightarrow> fault + event option" where
  "ev_wait owns others ev = (if \<not> owns then Inl Assertion_Failed else Inr (wait_loop others ev))"

text \<open>
  \<open>wait_for_usec\<close> has the same loop around \<open>cond_.wait_for\<close>: a list element is now a return
  with or without a timeout, and the timeout is not looked at.
\<close>

definition ev_wait_for_usec ::
    "bool \<Rightarrow> int \<Rightarrow> (event \<Rightarrow> event) list \<Rightarrow> event \<Rightarrow> fault + (event \<times> bool) option" where
  "ev_wait_for_usec owns usec others ev =
     (if \<not> owns then Inl Assertion_Failed
      else Inr (map_option (\<lambda>ev'. (ev', flag_is_set ev')) (wait_loop others ev)))"

lemmas ev_defs [op_defs] =
  ev_init_def set_flag_def flag_is_set_def have_waiters_def ev_signal_all_def ev_signal_def
  ev_unlock_and_signal_one_def ev_maybe_unlock_and_signal_one_def clear_flag_def ev_clear_def
  waiter_enter_def waiter_leave_def ev_wait_def ev_wait_for_usec_def Let_def

subsection \<open>The abstract event: a flag and a number of waiters\<close>

definition ev_rel :: "event \<Rightarrow> bool \<Rightarrow> nat \<Rightarrow> bool" where
  "ev_rel ev flag n \<longleftrightarrow> ev_state ev = 2 * of_nat n + of_bool flag"

text \<open>
  The interface the scheduler uses: a representation of a flag and a number of waiting threads,
  with what each operation does to the two.
\<close>

locale wakeup =
  fixes rel :: "'e \<Rightarrow> bool \<Rightarrow> nat \<Rightarrow> bool"
    and initial :: 'e
    and set :: "'e \<Rightarrow> 'e"
    and clear :: "'e \<Rightarrow> 'e"
    and is_set :: "'e \<Rightarrow> bool"
    and waiters :: "'e \<Rightarrow> bool"
    and enter :: "'e \<Rightarrow> 'e"
    and leave :: "'e \<Rightarrow> 'e"
    and capacity :: nat
  assumes rel_initial: "rel initial False 0"
    and rel_set: "rel e f n \<Longrightarrow> rel (set e) True n"
    and rel_clear: "rel e f n \<Longrightarrow> rel (clear e) False n"
    and rel_is_set: "rel e f n \<Longrightarrow> is_set e \<longleftrightarrow> f"
    and rel_waiters: "rel e True n \<Longrightarrow> n < capacity \<Longrightarrow> waiters e \<longleftrightarrow> 0 < n"
    and rel_enter: "rel e f n \<Longrightarrow> rel (enter e) f (Suc n)"
    and rel_leave: "rel e f (Suc n) \<Longrightarrow> rel (leave e) f n"
begin

text \<open>Entering and leaving without interference changes nothing the interface shows.\<close>

lemma enter_leave: "rel e f n \<Longrightarrow> rel (leave (enter e)) f n"
  by (blast intro: rel_enter rel_leave)

text \<open>A thread that finds the flag cleared and blocks counts as one waiter and no signal.\<close>

lemma block: "rel e f n \<Longrightarrow> rel (enter (clear e)) False (Suc n)"
  by (blast intro: rel_clear rel_enter)

text \<open>A signal is sent to a waiter exactly when there is one.\<close>

lemma signal_reaches_waiter:
  "rel e f n \<Longrightarrow> n < capacity \<Longrightarrow> waiters (set e) \<longleftrightarrow> 0 < n"
  by (rule rel_waiters [OF rel_set])

end

lemma ev_rel_set: "ev_rel ev f n \<Longrightarrow> ev_rel (set_flag ev) True n"
  by (cases f) (simp_all add: ev_rel_def set_flag_def flag_bit_simps)

lemma ev_rel_clear: "ev_rel ev f n \<Longrightarrow> ev_rel (clear_flag ev) False n"
  by (cases f) (simp_all add: ev_rel_def clear_flag_def flag_bit_simps)

lemma ev_rel_is_set: "ev_rel ev f n \<Longrightarrow> flag_is_set ev \<longleftrightarrow> f"
  by (cases f) (simp_all add: ev_rel_def flag_is_set_def flag_bit_simps)

lemma ev_rel_waiters:
  assumes "ev_rel ev True n" "n < 2 ^ 63"
  shows "have_waiters ev \<longleftrightarrow> 0 < n"
proof -
  have "unat (ev_state ev) = 2 * n + 1"
    using assms by (simp add: ev_rel_def unat_word_ariths unat_of_nat)
  then show ?thesis by (simp add: have_waiters_def word_less_nat_alt)
qed

interpretation ev: wakeup ev_rel ev_init set_flag clear_flag flag_is_set have_waiters
    waiter_enter waiter_leave "2 ^ 63"
proof unfold_locales
  show "ev_rel ev_init False 0" by (simp add: ev_rel_def ev_init_def)
qed (simp_all add: ev_rel_set ev_rel_clear ev_rel_is_set ev_rel_waiters,
     simp_all add: ev_rel_def waiter_enter_def waiter_leave_def)

lemma wait_loop_flag: "wait_loop others ev = Some ev' \<Longrightarrow> flag_is_set ev'"
  by (induction others ev rule: wait_loop.induct) (auto split: if_splits)

end
