(* ===== verification/Scheduler.thy ===== *)
theory Scheduler
  imports Prelude Op_Queue Event Call_Stack
begin

text \<open>
  \<^verbatim>\<open>scheduler.hpp\<close> and \<^verbatim>\<open>scheduler.cc\<close>: the run queue and its operations, each as a function of the
  scheduler and, where the code looks at the calling thread, of that thread's call stack. A
  critical section of \<open>mutex_\<close> is one function; the code between two critical sections of
  \<open>do_run_one\<close> (a user handler, the reactor) is a parameter. Theory Threads interleaves the same
  functions for any number of threads.
\<close>

subsection \<open>State\<close>

text \<open>
  The operations a queue can hold, by class: the scheduler's own \<open>task_operation_\<close>, a
  \<open>descriptor_state\<close> of the reactor, and the two kinds that carry a user handler.

  \<open>private_outstanding_work\<close> is an integer without bound where the source has \<open>long\<close>. It counts
  operations the thread itself made since it last looked, so it would take \<open>2 ^ 63\<close> of them for the
  two to differ.
\<close>

datatype op_ref =
    Task_Operation
  | Descriptor_State nat
  | Reactor_Op nat
  | Executor_Op nat

record thread_info =
  private_op_queue :: "op_ref op_queue"
  private_outstanding_work :: int

text \<open>What the scheduler asks of the outside: notifications of waiting threads, and \<open>task_->interrupt()\<close>.\<close>

datatype effect = Notified notification | Task_Interrupt

text \<open>
  \<open>sch_task\<close> is the pointer \<open>task_\<close> to the reactor, None for null. \<open>sch_effects\<close> records, in
  order, what the scheduler asked of the outside.
\<close>

record scheduler =
  sch_one_thread :: bool
  sch_wakeup_event :: event
  sch_task :: "nat option"
  sch_task_interrupted :: bool
  sch_outstanding_work :: size_t
  sch_op_queue :: "op_ref op_queue"
  sch_stopped :: bool
  sch_shutdown :: bool
  sch_concurrency_hint :: int
  sch_effects :: "effect list"

type_synonym thread_stack = "(nat, thread_info) call_stack"

definition emit :: "effect \<Rightarrow> scheduler \<Rightarrow> scheduler" where
  "emit e s = s\<lparr>sch_effects := sch_effects s @ [e]\<rparr>"

text \<open>
  The constructor. It sets \<open>one_thread_\<close>, \<open>concurrency_hint_\<close> and, by their own constructors, the
  event and the queue; every other member keeps what was in the memory the object is built in.
\<close>

definition scheduler_ctor :: "scheduler \<Rightarrow> int \<Rightarrow> scheduler" where
  "scheduler_ctor raw hint =
     raw\<lparr>sch_one_thread := (hint = 1), sch_concurrency_hint := hint,
         sch_wakeup_event := ev_init, sch_op_queue := [], sch_effects := []\<rparr>"

subsection \<open>Waking threads\<close>

definition wake_one_thread_and_unlock :: "scheduler \<Rightarrow> scheduler" where
  "wake_one_thread_and_unlock s =
     (let (ev, owns, n, signalled) = projr (ev_maybe_unlock_and_signal_one True (sch_wakeup_event s));
          s1 = s\<lparr>sch_wakeup_event := ev\<rparr>
      in if signalled then emit (Notified n) s1
         else if sch_task s1 \<noteq> None
              then emit Task_Interrupt (s1\<lparr>sch_task_interrupted := True\<rparr>)
              else s1)"

definition stop_all_threads :: "scheduler \<Rightarrow> scheduler" where
  "stop_all_threads s =
     (let s1 = s\<lparr>sch_stopped := True\<rparr>;
          (ev, owns, n) = projr (ev_signal_all True (sch_wakeup_event s1));
          s2 = emit (Notified n) (s1\<lparr>sch_wakeup_event := ev\<rparr>)
      in if \<not> sch_task_interrupted s2 \<and> sch_task s2 \<noteq> None
         then emit Task_Interrupt (s2\<lparr>sch_task_interrupted := True\<rparr>)
         else s2)"

definition sch_stop :: "scheduler \<Rightarrow> scheduler" where
  "sch_stop s = stop_all_threads s"

definition sch_is_stopped :: "scheduler \<Rightarrow> bool" where
  "sch_is_stopped s = sch_stopped s"

definition sch_restart :: "scheduler \<Rightarrow> scheduler" where
  "sch_restart s = s\<lparr>sch_stopped := False\<rparr>"

subsection \<open>Counting work\<close>

definition work_started :: "scheduler \<Rightarrow> scheduler" where
  "work_started s = s\<lparr>sch_outstanding_work := sch_outstanding_work s + 1\<rparr>"

text \<open>\<open>decrement_work\<close> is the atomic \<open>--outstanding_work_ == 0\<close> of \<open>work_finished\<close>.\<close>

definition decrement_work :: "scheduler \<Rightarrow> scheduler \<times> bool" where
  "decrement_work s =
     (let n = sch_outstanding_work s - 1 in (s\<lparr>sch_outstanding_work := n\<rparr>, n = 0))"

definition work_finished :: "scheduler \<Rightarrow> scheduler" where
  "work_finished s = (let (s1, zero) = decrement_work s in if zero then sch_stop s1 else s1)"

definition compensating_work_started :: "nat \<Rightarrow> thread_stack \<Rightarrow> fault + thread_stack" where
  "compensating_work_started self stk =
     (case cs_contains self stk of
        None \<Rightarrow> Inl Undefined_Behaviour
      | Some this_thread \<Rightarrow>
          Inr (cs_modify self
            (\<lambda>ti. ti\<lparr>private_outstanding_work := private_outstanding_work ti + 1\<rparr>) stk))"

definition can_dispatch :: "nat \<Rightarrow> thread_stack \<Rightarrow> bool" where
  "can_dispatch self stk \<longleftrightarrow> cs_contains self stk \<noteq> None"

subsection \<open>Handing over operations\<close>

definition push_op :: "op_ref \<Rightarrow> scheduler \<Rightarrow> scheduler" where
  "push_op op s = s\<lparr>sch_op_queue := oq_push (sch_op_queue s) op\<rparr>"

definition do_dispatch :: "op_ref \<Rightarrow> scheduler \<Rightarrow> scheduler" where
  "do_dispatch op s = wake_one_thread_and_unlock (push_op op (work_started s))"

definition post_immediate_completion ::
    "nat \<Rightarrow> op_ref \<Rightarrow> bool \<Rightarrow> scheduler \<Rightarrow> thread_stack \<Rightarrow> scheduler \<times> thread_stack" where
  "post_immediate_completion self op is_continuation s stk =
     (let shared = (wake_one_thread_and_unlock (push_op op (work_started s)), stk)
      in if sch_one_thread s \<or> is_continuation
         then (case cs_contains self stk of
                 Some this_thread \<Rightarrow>
                   (s, cs_modify self
                      (\<lambda>ti. ti\<lparr>private_outstanding_work := private_outstanding_work ti + 1,
                              private_op_queue := oq_push (private_op_queue ti) op\<rparr>) stk)
               | None \<Rightarrow> shared)
         else shared)"

definition post_deferred_completion ::
    "nat \<Rightarrow> op_ref \<Rightarrow> scheduler \<Rightarrow> thread_stack \<Rightarrow> scheduler \<times> thread_stack" where
  "post_deferred_completion self op s stk =
     (let shared = (wake_one_thread_and_unlock (push_op op s), stk)
      in if sch_one_thread s
         then (case cs_contains self stk of
                 Some this_thread \<Rightarrow>
                   (s, cs_modify self
                      (\<lambda>ti. ti\<lparr>private_op_queue := oq_push (private_op_queue ti) op\<rparr>) stk)
               | None \<Rightarrow> shared)
         else shared)"

text \<open>
  The last component is what the argument \<open>ops\<close>, a reference, holds on return. In the branch for
  a thread of a one-thread scheduler the code splices the thread's queue into \<open>ops\<close>, not the
  other way round.
\<close>

definition post_deferred_completions ::
    "nat \<Rightarrow> op_ref op_queue \<Rightarrow> scheduler \<Rightarrow> thread_stack \<Rightarrow>
     scheduler \<times> thread_stack \<times> op_ref op_queue" where
  "post_deferred_completions self ops s stk =
     (let (q, ops1) = oq_splice (sch_op_queue s) ops;
          shared = (wake_one_thread_and_unlock (s\<lparr>sch_op_queue := q\<rparr>), stk, ops1)
      in if sch_one_thread s
         then (case cs_contains self stk of
                 Some this_thread \<Rightarrow>
                   (let (ops2, pq) = oq_splice ops (private_op_queue this_thread)
                    in (s, cs_modify self (\<lambda>ti. ti\<lparr>private_op_queue := pq\<rparr>) stk, ops2))
               | None \<Rightarrow> shared)
         else shared)"

text \<open>What \<open>ops\<close> and the local \<open>ops2\<close> hold when \<open>abandon_operations\<close> returns.\<close>

definition abandon_operations :: "op_ref op_queue \<Rightarrow> op_ref op_queue \<times> op_ref op_queue" where
  "abandon_operations ops = (let (ops2, ops') = oq_splice [] ops in (ops', ops2))"

subsection \<open>Start-up and shutdown\<close>

text \<open>\<open>reactor\<close> is what \<open>use_service<epoll_reactor>\<close> returns.\<close>

definition init_task :: "nat \<Rightarrow> scheduler \<Rightarrow> scheduler" where
  "init_task reactor s =
     (if \<not> sch_shutdown s \<and> sch_task s = None
      then wake_one_thread_and_unlock (push_op Task_Operation (s\<lparr>sch_task := Some reactor\<rparr>))
      else s)"

text \<open>The second component lists the operations \<open>destroy()\<close> is called on.\<close>

definition sched_shutdown :: "scheduler \<Rightarrow> (fault + scheduler \<times> op_ref list) option" where
  "sched_shutdown s =
     (let s1 = s\<lparr>sch_shutdown := True\<rparr>
      in case drain oq_front oq_pop
                (\<lambda>op destroyed. if op \<noteq> Task_Operation then destroyed @ [op] else destroyed)
                (sch_op_queue s1) [] of
           None \<Rightarrow> None
         | Some (Inl e) \<Rightarrow> Some (Inl e)
         | Some (Inr (q, destroyed)) \<Rightarrow>
             Some (Inr (s1\<lparr>sch_op_queue := q, sch_task := None\<rparr>, destroyed)))"

subsection \<open>The critical sections of do_run_one\<close>

text \<open>
  \<open>loop_head\<close> is one turn of \<open>while (!stopped_)\<close> from the point where the lock is held to the
  point where it is given up: by returning, by running the task or an operation, or by blocking
  in \<open>wakeup_event_.wait\<close> (where the flag has just been cleared).
\<close>

datatype run_next =
    Return_Zero
  | Run_Task int
  | Complete op_ref
  | Block

definition unlock_for_more :: "bool \<Rightarrow> scheduler \<Rightarrow> scheduler" where
  "unlock_for_more more_handlers s =
     (if more_handlers \<and> \<not> sch_one_thread s
      then let (ev, owns, n) = projr (ev_unlock_and_signal_one True (sch_wakeup_event s))
           in emit (Notified n) (s\<lparr>sch_wakeup_event := ev\<rparr>)
      else s)"

definition loop_head :: "scheduler \<Rightarrow> scheduler \<times> run_next" where
  "loop_head s =
     (if sch_stopped s then (s, Return_Zero)
      else if \<not> oq_empty (sch_op_queue s) then
        let o_ptr = the (oq_front (sch_op_queue s));
            q = projr (oq_pop (sch_op_queue s));
            s1 = s\<lparr>sch_op_queue := q\<rparr>;
            more_handlers = (\<not> oq_empty q)
        in if o_ptr = Task_Operation
           then (unlock_for_more more_handlers (s1\<lparr>sch_task_interrupted := more_handlers\<rparr>),
                 Run_Task (if more_handlers then 0 else -1))
           else (unlock_for_more more_handlers s1, Complete o_ptr)
      else (s\<lparr>sch_wakeup_event := waiter_enter (fst (projr (ev_clear True (sch_wakeup_event s))))\<rparr>,
            Block))"

text \<open>
  A return of \<open>cond_.wait\<close> inside \<open>wakeup_event_.wait\<close>: the waiter leaves, and either blocks
  again or, the flag being set, goes round the loop of \<open>do_run_one\<close>.
\<close>

definition wait_return :: "scheduler \<Rightarrow> scheduler \<times> run_next" where
  "wait_return s =
     (let s1 = s\<lparr>sch_wakeup_event := waiter_leave (sch_wakeup_event s)\<rparr>
      in if flag_is_set (sch_wakeup_event s1) then loop_head s1
         else (s1\<lparr>sch_wakeup_event := waiter_enter (sch_wakeup_event s1)\<rparr>, Block))"

text \<open>
  The two clean-ups. Both start by moving the thread's private work to the shared counter,
  outside the lock; the rest of \<open>task_cleanup\<close> and the push of \<open>work_cleanup\<close> hold it.
\<close>

definition flush_private_work :: "scheduler \<Rightarrow> thread_info \<Rightarrow> scheduler \<times> thread_info" where
  "flush_private_work s ti =
     (let s1 = (if private_outstanding_work ti > 0
                then s\<lparr>sch_outstanding_work :=
                         sch_outstanding_work s + word_of_int (private_outstanding_work ti)\<rparr>
                else s)
      in (s1, ti\<lparr>private_outstanding_work := 0\<rparr>))"

definition push_private_queue :: "scheduler \<Rightarrow> thread_info \<Rightarrow> scheduler \<times> thread_info" where
  "push_private_queue s ti =
     (let (q, pq) = oq_splice (sch_op_queue s) (private_op_queue ti)
      in (s\<lparr>sch_op_queue := q\<rparr>, ti\<lparr>private_op_queue := pq\<rparr>))"

definition task_cleanup_locked :: "scheduler \<Rightarrow> thread_info \<Rightarrow> scheduler \<times> thread_info" where
  "task_cleanup_locked s ti =
     (let (s1, ti1) = push_private_queue s ti
      in (push_op Task_Operation (s1\<lparr>sch_task_interrupted := True\<rparr>), ti1))"

definition task_cleanup :: "scheduler \<Rightarrow> thread_info \<Rightarrow> scheduler \<times> thread_info" where
  "task_cleanup s ti = (let (s1, ti1) = flush_private_work s ti in task_cleanup_locked s1 ti1)"

text \<open>The last component tells whether the destructor leaves the lock owned.\<close>

definition work_cleanup :: "scheduler \<Rightarrow> thread_info \<Rightarrow> scheduler \<times> thread_info \<times> bool" where
  "work_cleanup s ti =
     (let (s1, ti1) = flush_private_work s ti;
          s2 = work_finished s1
      in if \<not> oq_empty (private_op_queue ti1)
         then (let (s3, ti2) = push_private_queue s2 ti1 in (s3, ti2, True))
         else (s2, ti1, False))"

subsection \<open>One thread running alone\<close>

text \<open>
  \<open>complete\<close> is what \<open>o->complete(this, ec, task_result)\<close> does, and \<open>task_run\<close> what
  \<open>task_->run(usec, private_op_queue)\<close> does, to the scheduler, the thread and the rest of the
  world \<open>'w\<close>. \<open>this_thread\<close> is the entry of this scheduler's context on the thread's call stack.
  None: the call does not return, because it blocks with no other thread to wake it or because
  the loop goes on for ever.
\<close>

type_synonym 'w run_state = "scheduler \<times> thread_stack \<times> 'w"

definition on_this_thread ::
    "nat \<Rightarrow> (scheduler \<Rightarrow> thread_info \<Rightarrow> scheduler \<times> thread_info \<times> 'r) \<Rightarrow>
     scheduler \<Rightarrow> thread_stack \<Rightarrow> scheduler \<times> thread_stack \<times> 'r" where
  "on_this_thread self f s stk =
     (let (s', ti', r) = f s (the (cs_contains self stk)) in (s', cs_modify self (\<lambda>_. ti') stk, r))"

text \<open>The result is the returned count, whether the lock is owned on return, and the state.\<close>

partial_function (option) do_run_one ::
    "nat \<Rightarrow> (op_ref \<Rightarrow> 'w run_state \<Rightarrow> 'w run_state) \<Rightarrow> (int \<Rightarrow> 'w run_state \<Rightarrow> 'w run_state) \<Rightarrow>
     'w run_state \<Rightarrow> (nat \<times> bool \<times> 'w run_state) option" where
  "do_run_one self complete task_run st =
     (case loop_head (fst st) of (s1, next_step) \<Rightarrow>
        (case next_step of
           Return_Zero \<Rightarrow> Some (0, True, s1, snd st)
         | Block \<Rightarrow> None
         | Run_Task usec \<Rightarrow>
             (case task_run usec (s1, snd st) of (s2, stk2, w2) \<Rightarrow>
              case on_this_thread self (\<lambda>s ti. case task_cleanup s ti of (s, ti) \<Rightarrow> (s, ti, ())) s2 stk2 of
                (s3, stk3, _) \<Rightarrow> do_run_one self complete task_run (s3, stk3, w2))
         | Complete o_ptr \<Rightarrow>
             (case complete o_ptr (s1, snd st) of (s2, stk2, w2) \<Rightarrow>
              case on_this_thread self work_cleanup s2 stk2 of
                (s3, stk3, owns) \<Rightarrow> Some (1, owns, s3, stk3, w2))))"

text \<open>
  The loop of \<open>run\<close>. Its increment is \<open>lock.lock()\<close>, which throws if the lock is owned.
\<close>

partial_function (option) run_loop ::
    "nat \<Rightarrow> (op_ref \<Rightarrow> 'w run_state \<Rightarrow> 'w run_state) \<Rightarrow> (int \<Rightarrow> 'w run_state \<Rightarrow> 'w run_state) \<Rightarrow>
     size_t \<Rightarrow> 'w run_state \<Rightarrow> (fault + size_t \<times> 'w run_state) option" where
  "run_loop self complete task_run n st =
     (case do_run_one self complete task_run st of
        None \<Rightarrow> None
      | Some (r, owns, st') \<Rightarrow>
          if r = 0 then Some (Inr (n, st'))
          else if owns then Some (Inl Throw_System_Error)
          else run_loop self complete task_run (if n \<noteq> - 1 then n + 1 else n) st')"

definition sched_run ::
    "nat \<Rightarrow> (op_ref \<Rightarrow> 'w run_state \<Rightarrow> 'w run_state) \<Rightarrow> (int \<Rightarrow> 'w run_state \<Rightarrow> 'w run_state) \<Rightarrow>
     'w run_state \<Rightarrow> (fault + size_t \<times> 'w run_state) option" where
  "sched_run self complete task_run st =
     (case st of (s, stk, w) \<Rightarrow>
        if sch_outstanding_work s = 0 then Some (Inr (0, sch_stop s, stk, w))
        else
          (case run_loop self complete task_run 0
                  (s, cs_enter self \<lparr>private_op_queue = [], private_outstanding_work = 0\<rparr> stk, w) of
             None \<Rightarrow> None
           | Some (Inl e) \<Rightarrow> Some (Inl e)
           | Some (Inr (n, s', stk', w')) \<Rightarrow> Some (Inr (n, s', cs_leave stk', w'))))"

subsection \<open>What the critical sections leave unchanged\<close>

lemma emit_frame [frame_simps]:
  "sch_one_thread (emit e s) = sch_one_thread s"
  "sch_wakeup_event (emit e s) = sch_wakeup_event s"
  "sch_task (emit e s) = sch_task s"
  "sch_task_interrupted (emit e s) = sch_task_interrupted s"
  "sch_outstanding_work (emit e s) = sch_outstanding_work s"
  "sch_op_queue (emit e s) = sch_op_queue s"
  "sch_stopped (emit e s) = sch_stopped s"
  "sch_shutdown (emit e s) = sch_shutdown s"
  by (simp_all add: emit_def)

lemma wake_frame [frame_simps]:
  "sch_one_thread (wake_one_thread_and_unlock s) = sch_one_thread s"
  "sch_wakeup_event (wake_one_thread_and_unlock s) = set_flag (sch_wakeup_event s)"
  "sch_task (wake_one_thread_and_unlock s) = sch_task s"
  "sch_outstanding_work (wake_one_thread_and_unlock s) = sch_outstanding_work s"
  "sch_op_queue (wake_one_thread_and_unlock s) = sch_op_queue s"
  "sch_stopped (wake_one_thread_and_unlock s) = sch_stopped s"
  "sch_shutdown (wake_one_thread_and_unlock s) = sch_shutdown s"
  by (simp_all add: wake_one_thread_and_unlock_def ev_maybe_unlock_and_signal_one_def Let_def frame_simps)

lemma stop_frame [frame_simps]:
  "sch_one_thread (sch_stop s) = sch_one_thread s"
  "sch_wakeup_event (sch_stop s) = set_flag (sch_wakeup_event s)"
  "sch_task (sch_stop s) = sch_task s"
  "sch_outstanding_work (sch_stop s) = sch_outstanding_work s"
  "sch_op_queue (sch_stop s) = sch_op_queue s"
  "sch_stopped (sch_stop s) = True"
  "sch_shutdown (sch_stop s) = sch_shutdown s"
  by (simp_all add: sch_stop_def stop_all_threads_def ev_signal_all_def Let_def frame_simps)

lemma unlock_for_more_frame [frame_simps]:
  "sch_one_thread (unlock_for_more m s) = sch_one_thread s"
  "sch_wakeup_event (unlock_for_more m s) =
     (if m \<and> \<not> sch_one_thread s then set_flag (sch_wakeup_event s) else sch_wakeup_event s)"
  "sch_task (unlock_for_more m s) = sch_task s"
  "sch_outstanding_work (unlock_for_more m s) = sch_outstanding_work s"
  "sch_op_queue (unlock_for_more m s) = sch_op_queue s"
  "sch_stopped (unlock_for_more m s) = sch_stopped s"
  "sch_shutdown (unlock_for_more m s) = sch_shutdown s"
  by (simp_all add: unlock_for_more_def ev_unlock_and_signal_one_def Let_def frame_simps)

lemma decrement_work_eq:
  "decrement_work s =
     (s\<lparr>sch_outstanding_work := sch_outstanding_work s - 1\<rparr>, sch_outstanding_work s = 1)"
  by (simp add: decrement_work_def Let_def)

lemma push_private_queue_eq:
  "push_private_queue s ti =
     (s\<lparr>sch_op_queue := sch_op_queue s @ private_op_queue ti\<rparr>, ti\<lparr>private_op_queue := []\<rparr>)"
  by (simp add: push_private_queue_def oq_splice_def)

text \<open>The four outcomes of a turn of the loop.\<close>

lemma loop_head_stopped [simp]: "sch_stopped s \<Longrightarrow> loop_head s = (s, Return_Zero)"
  by (simp add: loop_head_def)

lemma loop_head_task:
  "\<not> sch_stopped s \<Longrightarrow> sch_op_queue s = Task_Operation # q \<Longrightarrow>
   loop_head s =
     (unlock_for_more (q \<noteq> []) (s\<lparr>sch_op_queue := q, sch_task_interrupted := (q \<noteq> [])\<rparr>),
      Run_Task (if q = [] then -1 else 0))"
  by (simp add: loop_head_def oq_empty_def)

lemma loop_head_op:
  "\<not> sch_stopped s \<Longrightarrow> sch_op_queue s = op # q \<Longrightarrow> op \<noteq> Task_Operation \<Longrightarrow>
   loop_head s = (unlock_for_more (q \<noteq> []) (s\<lparr>sch_op_queue := q\<rparr>), Complete op)"
  by (simp add: loop_head_def oq_empty_def)

lemma loop_head_block:
  "\<not> sch_stopped s \<Longrightarrow> sch_op_queue s = [] \<Longrightarrow>
   loop_head s =
     (s\<lparr>sch_wakeup_event := waiter_enter (clear_flag (sch_wakeup_event s))\<rparr>, Block)"
  by (simp add: loop_head_def oq_empty_def ev_clear_def)

lemma loop_head_cases:
  obtains (stopped) "sch_stopped s"
    | (task) q where "\<not> sch_stopped s" "sch_op_queue s = Task_Operation # q"
    | (op) op q where "\<not> sch_stopped s" "sch_op_queue s = op # q" "op \<noteq> Task_Operation"
    | (block) "\<not> sch_stopped s" "sch_op_queue s = []"
  by (cases "sch_stopped s"; cases "sch_op_queue s") auto

lemmas loop_head_simps = loop_head_task loop_head_op loop_head_block

subsection \<open>The work balance\<close>

text \<open>
  An operation that carries a user handler stands for one unit of outstanding work; the
  scheduler's own marker and the reactor's descriptors do not. The balance of a scheduler or of
  a thread's frame is the work it has counted less the operations it holds, modulo \<open>2 ^ 64\<close>.
\<close>

fun is_work :: "op_ref \<Rightarrow> bool" where
  "is_work Task_Operation = False"
| "is_work (Descriptor_State d) = False"
| "is_work (Reactor_Op n) = True"
| "is_work (Executor_Op n) = True"

definition work_in :: "op_ref list \<Rightarrow> nat" where
  "work_in q = length (filter is_work q)"

definition sch_balance :: "scheduler \<Rightarrow> size_t" where
  "sch_balance s = sch_outstanding_work s - of_nat (work_in (sch_op_queue s))"

definition ti_balance :: "thread_info \<Rightarrow> size_t" where
  "ti_balance ti = word_of_int (private_outstanding_work ti) - of_nat (work_in (private_op_queue ti))"

definition stk_balance :: "thread_stack \<Rightarrow> size_t" where
  "stk_balance stk = sum_list (map (ti_balance \<circ> snd) stk)"

lemma work_in_simps [simp]:
  "work_in [] = 0"
  "work_in (op # q) = of_bool (is_work op) + work_in q"
  "work_in (q @ r) = work_in q + work_in r"
  by (simp_all add: work_in_def)

lemma stk_balance_modify:
  "cs_contains self stk = Some ti \<Longrightarrow>
   stk_balance (cs_modify self f stk) = stk_balance stk - ti_balance ti + ti_balance (f ti)"
  unfolding stk_balance_def by (rule sum_cs_modify)

lemmas balance_defs [inv_defs] = sch_balance_def ti_balance_def

lemma post_immediate_balance:
  assumes "is_work op" "post_immediate_completion self op c s stk = (s', stk')"
  shows "sch_balance s' + stk_balance stk' = sch_balance s + stk_balance stk"
proof (cases "\<exists>ti. (sch_one_thread s \<or> c) \<and> cs_contains self stk = Some ti")
  case True
  then obtain ti where ti: "sch_one_thread s \<or> c" "cs_contains self stk = Some ti" by blast
  let ?f = "\<lambda>ti. ti\<lparr>private_outstanding_work := private_outstanding_work ti + 1,
                    private_op_queue := oq_push (private_op_queue ti) op\<rparr>"
  have "s' = s" "stk' = cs_modify self ?f stk"
    using assms(2) ti by (auto simp: post_immediate_completion_def)
  moreover have "ti_balance (?f ti) = ti_balance ti"
    using assms(1) by (simp add: ti_balance_def oq_push_def)
  ultimately show ?thesis by (simp add: stk_balance_modify [OF ti(2)])
next
  case False
  then have "s' = wake_one_thread_and_unlock (push_op op (work_started s))" "stk' = stk"
    using assms(2)
    by (auto simp: post_immediate_completion_def Let_def split: option.splits if_splits)
  then show ?thesis using assms(1)
    by (simp add: sch_balance_def frame_simps push_op_def work_started_def oq_push_def)
qed

lemma do_dispatch_balance: "is_work op \<Longrightarrow> sch_balance (do_dispatch op s) = sch_balance s"
  by (simp add: sch_balance_def do_dispatch_def frame_simps push_op_def work_started_def oq_push_def)

text \<open>A deferred completion was counted when it was started, so its arrival lowers the balance.\<close>

lemma post_deferred_completions_balance:
  assumes "post_deferred_completions self ops s stk = (s', stk', ops')"
  shows "sch_balance s' + stk_balance stk' - of_nat (work_in ops') =
         sch_balance s + stk_balance stk - of_nat (work_in ops)"
proof (cases "\<exists>ti. sch_one_thread s \<and> cs_contains self stk = Some ti")
  case True
  then obtain ti where ti: "sch_one_thread s" "cs_contains self stk = Some ti" by blast
  then have "s' = s" "stk' = cs_modify self (\<lambda>ti. ti\<lparr>private_op_queue := []\<rparr>) stk"
      "ops' = ops @ private_op_queue ti"
    using assms by (auto simp: post_deferred_completions_def oq_splice_def)
  then show ?thesis by (simp add: stk_balance_modify [OF ti(2)] ti_balance_def)
next
  case False
  then have "s' = wake_one_thread_and_unlock (s\<lparr>sch_op_queue := sch_op_queue s @ ops\<rparr>)"
      "stk' = stk" "ops' = []"
    using assms
    by (auto simp: post_deferred_completions_def oq_splice_def Let_def split: option.splits if_splits)
  then show ?thesis by (simp add: sch_balance_def frame_simps)
qed

lemma flush_balance:
  assumes "flush_private_work s ti = (s', ti')" "0 \<le> private_outstanding_work ti"
  shows "sch_balance s' + ti_balance ti' = sch_balance s + ti_balance ti"
  using assms by (auto simp: flush_private_work_def Let_def balance_defs split: if_splits)

lemma push_private_balance:
  assumes "push_private_queue s ti = (s', ti')"
  shows "sch_balance s' + ti_balance ti' = sch_balance s + ti_balance ti"
  using assms by (auto simp: push_private_queue_eq balance_defs)

lemma task_cleanup_locked_balance:
  assumes "task_cleanup_locked s ti = (s', ti')"
  shows "sch_balance s' + ti_balance ti' = sch_balance s + ti_balance ti"
  using assms
  by (auto simp: task_cleanup_locked_def push_private_queue_eq push_op_def oq_push_def balance_defs)

text \<open>A turn of the loop takes at most the operation it is going to run.\<close>

lemma loop_head_balance:
  assumes "loop_head s = (s', nx)"
  shows "sch_balance s' = sch_balance s + (case nx of Complete op \<Rightarrow> of_bool (is_work op) | _ \<Rightarrow> 0)"
  using assms
  by (cases s rule: loop_head_cases)
     (auto simp: loop_head_simps sch_balance_def frame_simps)

subsection \<open>One thread running alone: what run does\<close>

lemma work_cleanup_idle:
  assumes "private_op_queue ti = []" "private_outstanding_work ti = 0"
  shows "work_cleanup s ti = (work_finished s, ti, False)"
  using assms
  by (simp add: work_cleanup_def flush_private_work_def oq_empty_def)

lemma work_finished_frame [frame_simps]:
  "sch_outstanding_work (work_finished s) = sch_outstanding_work s - 1"
  "sch_op_queue (work_finished s) = sch_op_queue s"
  "sch_stopped (work_finished s) \<longleftrightarrow> sch_stopped s \<or> sch_outstanding_work s = 1"
  "sch_task (work_finished s) = sch_task s"
  "sch_one_thread (work_finished s) = sch_one_thread s"
  "sch_shutdown (work_finished s) = sch_shutdown s"
  by (auto simp: work_finished_def decrement_work_eq frame_simps split: if_splits)

text \<open>The frame \<open>run\<close> puts on the call stack.\<close>

abbreviation fresh_info :: thread_info where
  "fresh_info \<equiv> \<lparr>private_op_queue = [], private_outstanding_work = 0\<rparr>"

lemma on_this_thread_enter:
  "on_this_thread self f s (cs_enter self ti stk) =
     (case f s ti of (s', ti', r) \<Rightarrow> (s', cs_enter self ti' stk, r))"
  by (simp add: on_this_thread_def cs_enter_def split: prod.split)

lemma do_run_one_stopped:
  "sch_stopped s \<Longrightarrow> do_run_one self complete task_run (s, st) = Some (0, True, s, st)"
  by (simp add: do_run_one.simps)

lemma do_run_one_op:
  assumes "\<not> sch_stopped s" "sch_op_queue s = op # q" "op \<noteq> Task_Operation"
    and "complete op (unlock_for_more (q \<noteq> []) (s\<lparr>sch_op_queue := q\<rparr>), cs_enter self fresh_info stk, w)
         = (s2, cs_enter self ti2 stk, w2)"
    and "work_cleanup s2 ti2 = (s3, ti3, owns)"
  shows "do_run_one self complete task_run (s, cs_enter self fresh_info stk, w) =
         Some (1, owns, s3, cs_enter self ti3 stk, w2)"
  using assms by (simp add: do_run_one.simps loop_head_op on_this_thread_enter)

text \<open>
  \<open>ops\<close> queued, each counted, handlers that leave the scheduler alone as long as \<open>Q\<close> holds: the loop
  runs them all in order. It stops if nothing else was counted, and blocks if something was.
\<close>

lemma run_loop_queue:
  assumes "\<And>op ops w. Q (op # ops) w \<Longrightarrow> (\<forall>s stk. complete op (s, stk, w) = (s, stk, f op w)) \<and> Q ops (f op w)"
    and "Q ops w" "sch_op_queue s = ops" "Task_Operation \<notin> set ops" "\<not> sch_stopped s"
    and "sch_outstanding_work s = of_nat (length ops + k)" "unat n + length ops + k < 2 ^ 64" "length ops + k \<noteq> 0"
  shows "if k = 0
    then \<exists>s'. run_loop self complete task_run n (s, cs_enter self fresh_info stk, w) =
             Some (Inr (n + of_nat (length ops), s', cs_enter self fresh_info stk, fold f ops w)) \<and>
           sch_op_queue s' = [] \<and> sch_outstanding_work s' = 0 \<and> sch_stopped s'
    else run_loop self complete task_run n (s, cs_enter self fresh_info stk, w) = None"
  using assms(2-)
proof (induction ops arbitrary: s n w)
  case Nil
  then show ?case by (simp add: run_loop.simps do_run_one.simps loop_head_block)
next
  case (Cons op ops)
  let ?s1 = "unlock_for_more (ops \<noteq> []) (s\<lparr>sch_op_queue := ops\<rparr>)"
  let ?s3 = "work_finished ?s1"
  note now = assms(1) [OF Cons.prems(1)]
  have one: "do_run_one self complete task_run (s, cs_enter self fresh_info stk, w) =
      Some (1, False, ?s3, cs_enter self fresh_info stk, f op w)"
  proof (rule do_run_one_op)
    show "work_cleanup ?s1 fresh_info = (?s3, fresh_info, False)"
      by (rule work_cleanup_idle) simp_all
  qed (use Cons.prems now in auto)
  have suc: "unat (n + 1) = unat n + 1"
    using Cons.prems(6) by (simp add: unat_word_ariths)
  then have n: "n \<noteq> - 1" by auto
  have step: "run_loop self complete task_run n (s, cs_enter self fresh_info stk, w) =
      run_loop self complete task_run (n + 1) (?s3, cs_enter self fresh_info stk, f op w)"
    using n by (subst run_loop.simps) (simp add: one)
  have work: "sch_outstanding_work ?s3 = of_nat (length ops + k)"
    using Cons.prems by (simp add: frame_simps)
  show ?case
  proof (cases "length ops + k = 0")
    case True
    then have stopped: "sch_stopped ?s3" using Cons.prems by (simp add: frame_simps)
    then have "run_loop self complete task_run (n + 1) (?s3, cs_enter self fresh_info stk, f op w) =
        Some (Inr (n + 1, ?s3, cs_enter self fresh_info stk, f op w))"
      by (simp add: run_loop.simps do_run_one_stopped)
    with step work True stopped show ?thesis by (simp add: frame_simps)
  next
    case False
    have "unat (of_nat (length (op # ops) + k) :: size_t) = length (op # ops) + k"
      using Cons.prems(6) by (intro unat_of_nat_small) simp
    with False have "of_nat (length (op # ops) + k) \<noteq> (1 :: size_t)" by auto
    then have "\<not> sch_stopped ?s3" using Cons.prems by (simp add: frame_simps)
    with Cons.IH [of "f op w" ?s3 "n + 1"] Cons.prems now False work suc step
    show ?thesis by (simp add: frame_simps add.assoc split: if_splits)
  qed
qed

lemma run_loop_in_order:
  assumes "\<And>op s stk w. complete op (s, stk, w) = (s, stk, f op w)"
    and "sch_op_queue s = ops" "Task_Operation \<notin> set ops" "ops \<noteq> []" "\<not> sch_stopped s"
    and "sch_outstanding_work s = of_nat (length ops)" "unat n + length ops < 2 ^ 64"
  shows "\<exists>s'. run_loop self complete task_run n (s, cs_enter self fresh_info stk, w) =
           Some (Inr (n + of_nat (length ops), s', cs_enter self fresh_info stk, fold f ops w)) \<and>
         sch_op_queue s' = [] \<and> sch_outstanding_work s' = 0 \<and> sch_stopped s'"
  using run_loop_queue [where k = 0 and Q = "\<lambda>_ _. True" and s = s and n = n and w = w and f = f
      and complete = complete and ops = ops] assms by simp

text \<open>A handler that leaves something in the thread's own queue makes the loop throw.\<close>

lemma work_cleanup_private:
  "private_op_queue ti \<noteq> [] \<Longrightarrow> snd (snd (work_cleanup s ti))"
  by (simp add: work_cleanup_def flush_private_work_def oq_empty_def Let_def split: prod.split)

lemma run_loop_throws:
  assumes "\<not> sch_stopped s" "sch_op_queue s = op # q" "op \<noteq> Task_Operation"
    and "complete op (unlock_for_more (q \<noteq> []) (s\<lparr>sch_op_queue := q\<rparr>), cs_enter self fresh_info stk, w)
         = (s2, cs_enter self ti2 stk, w2)"
    and "private_op_queue ti2 \<noteq> []"
  shows "run_loop self complete task_run n (s, cs_enter self fresh_info stk, w) =
         Some (Inl Throw_System_Error)"
proof -
  obtain s3 ti3 owns where wc: "work_cleanup s2 ti2 = (s3, ti3, owns)" by (metis prod_cases3)
  with assms(5) have "owns" using work_cleanup_private [of ti2 s2] by simp
  have "do_run_one self complete task_run (s, cs_enter self fresh_info stk, w) =
      Some (1, owns, s3, cs_enter self ti3 stk, w2)"
    using assms(1-4) wc by (rule do_run_one_op)
  with \<open>owns\<close> show ?thesis by (simp add: run_loop.simps)
qed

end
