(* ===== verification/Threads.thy ===== *)
theory Threads
  imports Scheduler "HOL-Library.Multiset"
begin

text \<open>
  The scheduler run by any number of threads: \<open>scheduler::run\<close> and \<open>do_run_one\<close> as a program
  counter per thread whose steps are the critical sections and the atomic accesses of
  Scheduler, in any interleaving. A thread blocked in \<open>wakeup_event_.wait\<close> may wake at any time,
  which covers every notification and every spurious wake-up.

  A user handler is any sequence of calls to the scheduler. The operations the reactor holds for
  its descriptors (\<open>sh_pending\<close>) and the work that guards and other users have started and not
  finished (\<open>sh_guards\<close>) are part of the state because the work count speaks of them.
  \<open>th_leaked\<close> collects what the thread's destroyed operation queues still held: operations that are
  lost.

  A handler here returns: it does not throw, and does not call \<open>run\<close> itself. Of the calls to the
  scheduler \<open>post_deferred_completion\<close> of a single operation, \<open>compensating_work_started\<close>,
  \<open>abandon_operations\<close> and \<open>shutdown\<close> are no steps: nothing under \<^verbatim>\<open>src\<close> calls the first and the
  third, the second is called where a descriptor completed nothing, which is undefined by then
  (\<open>perform_io_nothing\<close>), and the last when the context ends.
\<close>

subsection \<open>State\<close>

text \<open>
  Where a thread is. The number is the count \<open>n\<close> of \<open>run\<close>. \<open>Task_Done\<close> and \<open>Task_Flushed\<close> are
  inside the destructor of \<open>task_cleanup\<close>; \<open>After_Op\<close>, \<open>Work_Dec\<close> and \<open>Push_Private\<close> inside that
  of \<open>work_cleanup\<close>: before the private work is added to the counter, before the decrement, and
  after it.
\<close>

datatype pc =
    Outside
  | At_Loop size_t
  | Waiting size_t
  | In_Task size_t int
  | Task_Done size_t
  | Task_Flushed size_t
  | In_Op size_t op_ref
  | After_Op size_t
  | Work_Dec size_t
  | Push_Private size_t
  | Returned size_t
  | Threw fault

text \<open>\<open>th_must_stop\<close>: the thread has seen the work count reach 0 and has yet to call \<open>stop()\<close>.\<close>

record thread =
  th_pc :: pc
  th_stack :: thread_stack
  th_must_stop :: bool
  th_leaked :: "op_ref list"

record shared =
  sh_sched :: scheduler
  sh_pending :: "nat multiset"
  sh_guards :: nat

definition new_thread :: thread where
  "new_thread = \<lparr>th_pc = Outside, th_stack = [], th_must_stop = False, th_leaked = []\<rparr>"

definition th_info :: "nat \<Rightarrow> thread \<Rightarrow> thread_info" where
  "th_info self t = the (cs_contains self (th_stack t))"

definition set_info :: "nat \<Rightarrow> thread_info \<Rightarrow> thread \<Rightarrow> thread" where
  "set_info self ti t = t\<lparr>th_stack := cs_modify self (\<lambda>_. ti) (th_stack t)\<rparr>"

text \<open>Where the outcome of a turn of the loop takes the thread; returning leaves the context.\<close>

fun goto_next :: "size_t \<Rightarrow> run_next \<Rightarrow> thread \<Rightarrow> thread" where
  "goto_next n Return_Zero t = t\<lparr>th_pc := Returned n, th_stack := cs_leave (th_stack t)\<rparr>"
| "goto_next n (Run_Task usec) t = t\<lparr>th_pc := In_Task n usec\<rparr>"
| "goto_next n (Complete op) t = t\<lparr>th_pc := In_Op n op\<rparr>"
| "goto_next n Block t = t\<lparr>th_pc := Waiting n\<rparr>"

text \<open>A thread can call the scheduler from outside a run or from inside a handler.\<close>

fun is_outside :: "pc \<Rightarrow> bool" where
  "is_outside Outside = True"
| "is_outside (Returned n) = True"
| "is_outside pc = False"

fun in_handler :: "pc \<Rightarrow> bool" where
  "in_handler (In_Op n op) = is_work op"
| "in_handler pc = False"

definition may_call :: "thread \<Rightarrow> bool" where
  "may_call t \<longleftrightarrow> \<not> th_must_stop t \<and> (is_outside (th_pc t) \<or> in_handler (th_pc t))"

subsection \<open>Steps of one thread\<close>

inductive local_step :: "nat \<Rightarrow> shared \<Rightarrow> thread \<Rightarrow> shared \<Rightarrow> thread \<Rightarrow> bool"
  for self :: nat
where
  run_no_work:
    "\<not> th_must_stop t \<Longrightarrow> is_outside (th_pc t) \<Longrightarrow> sch_outstanding_work (sh_sched sh) = 0 \<Longrightarrow>
     local_step self sh t sh (t\<lparr>th_pc := Returned 0, th_must_stop := True\<rparr>)"
| run_enter:
    "\<not> th_must_stop t \<Longrightarrow> is_outside (th_pc t) \<Longrightarrow> sch_outstanding_work (sh_sched sh) \<noteq> 0 \<Longrightarrow>
     local_step self sh t sh
       (t\<lparr>th_pc := At_Loop 0, th_stack := cs_enter self fresh_info (th_stack t)\<rparr>)"
| must_stop:
    "th_must_stop t \<Longrightarrow>
     local_step self sh t (sh\<lparr>sh_sched := sch_stop (sh_sched sh)\<rparr>) (t\<lparr>th_must_stop := False\<rparr>)"
| turn:
    "th_pc t = At_Loop n \<Longrightarrow> loop_head (sh_sched sh) = (s', nx) \<Longrightarrow>
     local_step self sh t (sh\<lparr>sh_sched := s'\<rparr>) (goto_next n nx t)"
| wake:
    "th_pc t = Waiting n \<Longrightarrow> wait_return (sh_sched sh) = (s', nx) \<Longrightarrow>
     local_step self sh t (sh\<lparr>sh_sched := s'\<rparr>) (goto_next n nx t)"
| task_run:
    "th_pc t = In_Task n usec \<Longrightarrow>
     ti = (th_info self t)\<lparr>private_op_queue := private_op_queue (th_info self t) @ map Descriptor_State ds\<rparr> \<Longrightarrow>
     local_step self sh t sh (set_info self ti (t\<lparr>th_pc := Task_Done n\<rparr>))"
| task_flush:
    "th_pc t = Task_Done n \<Longrightarrow> flush_private_work (sh_sched sh) (th_info self t) = (s', ti) \<Longrightarrow>
     local_step self sh t (sh\<lparr>sh_sched := s'\<rparr>) (set_info self ti (t\<lparr>th_pc := Task_Flushed n\<rparr>))"
| task_relock:
    "th_pc t = Task_Flushed n \<Longrightarrow> task_cleanup_locked (sh_sched sh) (th_info self t) = (s1, ti) \<Longrightarrow>
     loop_head s1 = (s', nx) \<Longrightarrow>
     local_step self sh t (sh\<lparr>sh_sched := s'\<rparr>) (goto_next n nx (set_info self ti t))"
| perform_io:
    "th_pc t = In_Op n (Descriptor_State d) \<Longrightarrow> mset (i # is) \<subseteq># sh_pending sh \<Longrightarrow>
     (s', stk, lost) =
       (if is = [] then (sh_sched sh, th_stack t, [])
        else post_deferred_completions self (map Reactor_Op is) (sh_sched sh) (th_stack t)) \<Longrightarrow>
     local_step self sh t
       (sh\<lparr>sh_sched := s', sh_pending := sh_pending sh - mset (i # is)\<rparr>)
       (t\<lparr>th_pc := In_Op n (Reactor_Op i), th_stack := stk, th_leaked := th_leaked t @ lost\<rparr>)"
| perform_io_nothing:
    "th_pc t = In_Op n (Descriptor_State d) \<Longrightarrow>
     local_step self sh t sh
       (t\<lparr>th_pc := Threw Undefined_Behaviour, th_stack := cs_leave (th_stack t)\<rparr>)"
| handler_done:
    "th_pc t = In_Op n op \<Longrightarrow> is_work op \<Longrightarrow> \<not> th_must_stop t \<Longrightarrow>
     local_step self sh t sh (t\<lparr>th_pc := After_Op n\<rparr>)"
| work_flush:
    "th_pc t = After_Op n \<Longrightarrow> flush_private_work (sh_sched sh) (th_info self t) = (s', ti) \<Longrightarrow>
     local_step self sh t (sh\<lparr>sh_sched := s'\<rparr>) (set_info self ti (t\<lparr>th_pc := Work_Dec n\<rparr>))"
| work_dec:
    "th_pc t = Work_Dec n \<Longrightarrow> decrement_work (sh_sched sh) = (s', zero) \<Longrightarrow>
     local_step self sh t (sh\<lparr>sh_sched := s'\<rparr>) (t\<lparr>th_pc := Push_Private n, th_must_stop := zero\<rparr>)"
| next_turn:
    "th_pc t = Push_Private n \<Longrightarrow> \<not> th_must_stop t \<Longrightarrow> oq_empty (private_op_queue (th_info self t)) \<Longrightarrow>
     local_step self sh t sh (t\<lparr>th_pc := At_Loop (if n \<noteq> - 1 then n + 1 else n)\<rparr>)"
| relock_throws:
    "th_pc t = Push_Private n \<Longrightarrow> \<not> th_must_stop t \<Longrightarrow> \<not> oq_empty (private_op_queue (th_info self t)) \<Longrightarrow>
     push_private_queue (sh_sched sh) (th_info self t) = (s', ti) \<Longrightarrow>
     local_step self sh t (sh\<lparr>sh_sched := s'\<rparr>)
       (t\<lparr>th_pc := Threw Throw_System_Error, th_stack := cs_leave (th_stack t)\<rparr>)"
| call_post:
    "may_call t \<Longrightarrow> is_work op \<Longrightarrow>
     post_immediate_completion self op c (sh_sched sh) (th_stack t) = (s', stk) \<Longrightarrow>
     local_step self sh t (sh\<lparr>sh_sched := s'\<rparr>) (t\<lparr>th_stack := stk\<rparr>)"
| call_dispatch:
    "may_call t \<Longrightarrow> is_work op \<Longrightarrow>
     local_step self sh t (sh\<lparr>sh_sched := do_dispatch op (sh_sched sh)\<rparr>) t"
| call_start_op:
    "may_call t \<Longrightarrow>
     local_step self sh t
       (sh\<lparr>sh_sched := work_started (sh_sched sh), sh_pending := add_mset i (sh_pending sh)\<rparr>) t"
| call_cancel_ops:
    "may_call t \<Longrightarrow> mset is \<subseteq># sh_pending sh \<Longrightarrow>
     post_deferred_completions self (map Reactor_Op is) (sh_sched sh) (th_stack t) = (s', stk, lost) \<Longrightarrow>
     local_step self sh t
       (sh\<lparr>sh_sched := s', sh_pending := sh_pending sh - mset is\<rparr>)
       (t\<lparr>th_stack := stk, th_leaked := th_leaked t @ lost\<rparr>)"
| call_work_started:
    "may_call t \<Longrightarrow>
     local_step self sh t
       (sh\<lparr>sh_sched := work_started (sh_sched sh), sh_guards := Suc (sh_guards sh)\<rparr>) t"
| call_work_finished:
    "may_call t \<Longrightarrow> sh_guards sh = Suc g \<Longrightarrow> decrement_work (sh_sched sh) = (s', zero) \<Longrightarrow>
     local_step self sh t (sh\<lparr>sh_sched := s', sh_guards := g\<rparr>) (t\<lparr>th_must_stop := zero\<rparr>)"
| call_stop:
    "may_call t \<Longrightarrow> local_step self sh t (sh\<lparr>sh_sched := sch_stop (sh_sched sh)\<rparr>) t"
| call_restart:
    "may_call t \<Longrightarrow> local_step self sh t (sh\<lparr>sh_sched := sch_restart (sh_sched sh)\<rparr>) t"
| call_init_task:
    "may_call t \<Longrightarrow> local_step self sh t (sh\<lparr>sh_sched := init_task r (sh_sched sh)\<rparr>) t"

subsection \<open>Steps of the system\<close>

type_synonym system = "shared \<times> thread list"

inductive sys_step :: "nat \<Rightarrow> system \<Rightarrow> system \<Rightarrow> bool" for self :: nat where
  spawn: "sys_step self (sh, ts) (sh, ts @ [new_thread])"
| step: "i < length ts \<Longrightarrow> local_step self sh (ts ! i) sh' t' \<Longrightarrow>
     sys_step self (sh, ts) (sh', ts[i := t'])"

text \<open>
  A scheduler built in memory that reads as zero: no reactor, no work, not stopped. The
  constructor itself leaves these members as they were.
\<close>

definition zeroed :: "scheduler \<Rightarrow> bool" where
  "zeroed raw \<longleftrightarrow> sch_task raw = None \<and> \<not> sch_task_interrupted raw \<and> sch_outstanding_work raw = 0 \<and>
     \<not> sch_stopped raw \<and> \<not> sch_shutdown raw"

definition initial_shared :: "scheduler \<Rightarrow> int \<Rightarrow> shared" where
  "initial_shared raw hint = \<lparr>sh_sched = scheduler_ctor raw hint, sh_pending = {#}, sh_guards = 0\<rparr>"

inductive reachable :: "nat \<Rightarrow> system \<Rightarrow> bool" for self :: nat where
  start: "zeroed raw \<Longrightarrow> reachable self (initial_shared raw hint, [])"
| step: "reachable self sy \<Longrightarrow> sys_step self sy sy' \<Longrightarrow> reachable self sy'"

inductive_cases sys_stepE [elim!]: "sys_step self (sh, ts) sy'"

subsection \<open>Invariants of one thread\<close>

fun executing :: "pc \<Rightarrow> nat" where
  "executing (In_Op n op) = of_bool (is_work op)"
| "executing (After_Op n) = 1"
| "executing (Work_Dec n) = 1"
| "executing pc = 0"

text \<open>
  The frame of a thread inside a handler: only handler operations in its queue, and no more
  private work than operations in the queue or leaked.
\<close>

definition handler_info :: "op_ref list \<Rightarrow> thread_info \<Rightarrow> bool" where
  "handler_info leaked ti \<longleftrightarrow>
     0 \<le> private_outstanding_work ti \<and> list_all is_work (private_op_queue ti) \<and>
     private_outstanding_work ti \<le> int (length (private_op_queue ti)) + int (length leaked)"

fun frame_ok :: "op_ref list \<Rightarrow> pc \<Rightarrow> thread_info \<Rightarrow> bool" where
  "frame_ok lk (At_Loop n) ti \<longleftrightarrow> ti = fresh_info"
| "frame_ok lk (Waiting n) ti \<longleftrightarrow> ti = fresh_info"
| "frame_ok lk (In_Task n u) ti \<longleftrightarrow> ti = fresh_info"
| "frame_ok lk (Task_Done n) ti \<longleftrightarrow>
     private_outstanding_work ti = 0 \<and> (\<exists>ds. private_op_queue ti = map Descriptor_State ds)"
| "frame_ok lk (Task_Flushed n) ti \<longleftrightarrow>
     private_outstanding_work ti = 0 \<and> (\<exists>ds. private_op_queue ti = map Descriptor_State ds)"
| "frame_ok lk (In_Op n op) ti \<longleftrightarrow>
     op \<noteq> Task_Operation \<and> (if is_work op then handler_info lk ti else ti = fresh_info)"
| "frame_ok lk (After_Op n) ti \<longleftrightarrow> handler_info lk ti"
| "frame_ok lk (Work_Dec n) ti \<longleftrightarrow> handler_info lk ti \<and> private_outstanding_work ti = 0"
| "frame_ok lk (Push_Private n) ti \<longleftrightarrow> handler_info lk ti \<and> private_outstanding_work ti = 0"
| "frame_ok lk _ ti \<longleftrightarrow> False"

fun in_run :: "pc \<Rightarrow> bool" where
  "in_run Outside = False"
| "in_run (Returned n) = False"
| "in_run (Threw e) = False"
| "in_run pc = True"

fun may_owe_stop :: "pc \<Rightarrow> bool" where
  "may_owe_stop (Push_Private n) = True"
| "may_owe_stop pc \<longleftrightarrow> is_outside pc \<or> in_handler pc"

definition th_ok :: "nat \<Rightarrow> thread \<Rightarrow> bool" where
  "th_ok self t \<longleftrightarrow>
     (if in_run (th_pc t)
      then (\<exists>ti. th_stack t = [(self, ti)] \<and> frame_ok (th_leaked t) (th_pc t) ti)
      else th_stack t = []) \<and>
     list_all is_work (th_leaked t) \<and> (th_must_stop t \<longrightarrow> may_owe_stop (th_pc t))"

lemmas thread_defs [inv_defs] = th_ok_def handler_info_def

text \<open>
  What a thread and the shared state contribute to the balance of counted work and operations.
\<close>

definition th_weight :: "thread \<Rightarrow> size_t" where
  "th_weight t =
     stk_balance (th_stack t) - of_nat (work_in (th_leaked t)) - of_nat (executing (th_pc t))"

definition sh_weight :: "shared \<Rightarrow> size_t" where
  "sh_weight sh = sch_balance (sh_sched sh) - of_nat (size (sh_pending sh)) - of_nat (sh_guards sh)"

lemma th_ok_frame:
  assumes "th_ok self t" "in_run (th_pc t)"
  obtains ti where "th_stack t = [(self, ti)]" "frame_ok (th_leaked t) (th_pc t) ti"
    "th_info self t = ti"
  using assms by (auto simp: th_ok_def th_info_def)

lemma th_ok_stack: "th_ok self t \<Longrightarrow> th_stack t = [] \<or> (\<exists>ti. th_stack t = [(self, ti)])"
  by (auto simp: th_ok_def split: if_splits)

lemma stk_balance_simps [simp]:
  "stk_balance [] = 0"
  "stk_balance ((k, ti) # stk) = ti_balance ti + stk_balance stk"
  by (simp_all add: stk_balance_def)

lemma ti_balance_fresh [simp]: "ti_balance fresh_info = 0"
  by (simp add: ti_balance_def)

lemma work_in_descriptors [simp]: "work_in (map Descriptor_State ds) = 0"
  by (simp add: work_in_def filter_map comp_def)

lemma work_in_reactor_ops [simp]: "work_in (map Reactor_Op is) = length is"
  by (simp add: work_in_def filter_map comp_def)

lemma work_in_all: "list_all is_work q \<Longrightarrow> work_in q = length q"
  by (simp add: work_in_def list_all_iff)

subsection \<open>Every step keeps the balance\<close>

definition started :: "run_next \<Rightarrow> nat" where
  "started nx = (case nx of Complete op \<Rightarrow> of_bool (is_work op) | _ \<Rightarrow> 0)"

lemma loop_head_started:
  "loop_head s = (s', nx) \<Longrightarrow> sch_balance s' = sch_balance s + of_nat (started nx)"
  by (drule loop_head_balance) (simp add: started_def split: run_next.splits)

lemma loop_head_not_task: "loop_head s = (s', Complete op) \<Longrightarrow> op \<noteq> Task_Operation"
  by (cases s rule: loop_head_cases) (auto simp: loop_head_simps)

lemma wait_return_cases:
  obtains (turn) "wait_return s =
        loop_head (s\<lparr>sch_wakeup_event := waiter_leave (sch_wakeup_event s)\<rparr>)"
      "flag_is_set (waiter_leave (sch_wakeup_event s))"
    | (block) "wait_return s =
        (s\<lparr>sch_wakeup_event := waiter_enter (waiter_leave (sch_wakeup_event s))\<rparr>, Block)"
      "\<not> flag_is_set (waiter_leave (sch_wakeup_event s))"
  by (cases "flag_is_set (waiter_leave (sch_wakeup_event s))") (auto simp: wait_return_def Let_def)

lemma sch_balance_event [simp]: "sch_balance (s\<lparr>sch_wakeup_event := e\<rparr>) = sch_balance s"
  by (simp add: sch_balance_def)

lemma wait_return_started:
  "wait_return s = (s', nx) \<Longrightarrow> sch_balance s' = sch_balance s + of_nat (started nx)"
  by (cases s rule: wait_return_cases) (auto simp: started_def dest!: loop_head_started)

lemma wait_return_not_task: "wait_return s = (s', Complete op) \<Longrightarrow> op \<noteq> Task_Operation"
  by (cases s rule: wait_return_cases) (auto dest!: loop_head_not_task)

lemma goto_next_ok:
  assumes "th_stack t = [(self, fresh_info)]" "list_all is_work (th_leaked t)" "\<not> th_must_stop t"
    and "\<And>op. nx = Complete op \<Longrightarrow> op \<noteq> Task_Operation"
  shows "th_ok self (goto_next n nx t) \<and>
    th_weight (goto_next n nx t) = - of_nat (work_in (th_leaked t)) - of_nat (started nx)"
  using assms
  by (cases nx)
     (auto simp: th_ok_def th_weight_def started_def cs_leave_def handler_info_def)

lemma handler_post_ok:
  assumes "handler_info lk ti" "is_work op"
    and "post_immediate_completion self op c s [(self, ti)] = (s', stk)"
  shows "\<exists>ti'. stk = [(self, ti')] \<and> handler_info lk ti'"
  using assms
  by (auto simp: post_immediate_completion_def handler_info_def oq_push_def Let_def split: if_splits)

lemma handler_deferred_ok:
  assumes "handler_info lk ti" "list_all is_work lk"
    and "post_deferred_completions self (map Reactor_Op is) s [(self, ti)] = (s', stk, lost)"
  shows "\<exists>ti'. stk = [(self, ti')] \<and> handler_info (lk @ lost) ti' \<and> list_all is_work (lk @ lost)"
  using assms
  by (auto simp: post_deferred_completions_def handler_info_def oq_splice_def Let_def list_all_iff
           split: if_splits)

lemma outside_post_ok:
  "post_immediate_completion self op c s [] = (s', stk) \<Longrightarrow> stk = []"
  by (auto simp: post_immediate_completion_def Let_def split: if_splits)

lemma outside_deferred_ok:
  "post_deferred_completions self ops s [] = (s', stk, lost) \<Longrightarrow> stk = [] \<and> lost = []"
  by (auto simp: post_deferred_completions_def oq_splice_def Let_def split: if_splits)

lemma outside_ok:
  "is_outside p \<Longrightarrow> \<not> in_run p \<and> executing p = 0 \<and> may_owe_stop p"
  by (cases p) auto

lemma in_handlerE:
  assumes "in_handler p"
  obtains n op where "p = In_Op n op" "is_work op"
  using assms by (cases p) auto

text \<open>A thread that may call is outside a run, with no frame, or in a handler, with one.\<close>

lemma may_call_cases:
  assumes "may_call t" "th_ok self t"
  obtains (outside) "is_outside (th_pc t)" "th_stack t = []"
    | (handler) n op ti where "th_pc t = In_Op n op" "is_work op" "op \<noteq> Task_Operation"
        "th_stack t = [(self, ti)]" "handler_info (th_leaked t) ti"
proof (cases "is_outside (th_pc t)")
  case True
  with assms outside outside_ok show ?thesis by (auto simp: th_ok_def)
next
  case False
  with assms have "in_handler (th_pc t)" by (simp add: may_call_def)
  then obtain n op where "th_pc t = In_Op n op" "is_work op" by (rule in_handlerE)
  with assms handler show ?thesis by (auto simp: th_ok_def)
qed

lemma decrement_balance: "decrement_work s = (s', z) \<Longrightarrow> sch_balance s' = sch_balance s - 1"
  by (auto simp: decrement_work_eq sch_balance_def)

lemma sch_balance_stop [simp]: "sch_balance (sch_stop s) = sch_balance s"
  by (simp add: sch_balance_def frame_simps)

lemma sch_balance_restart [simp]: "sch_balance (sch_restart s) = sch_balance s"
  by (simp add: sch_balance_def sch_restart_def)

lemma sch_balance_started [simp]: "sch_balance (work_started s) = sch_balance s + 1"
  by (simp add: sch_balance_def work_started_def)

lemma sch_balance_init_task [simp]: "sch_balance (init_task r s) = sch_balance s"
  by (simp add: sch_balance_def init_task_def frame_simps push_op_def oq_push_def)

lemma flush_info:
  "flush_private_work s ti = (s', ti') \<Longrightarrow> ti' = ti\<lparr>private_outstanding_work := 0\<rparr>"
  by (simp add: flush_private_work_def Let_def)

lemma task_relock_info:
  "task_cleanup_locked s ti = (s1, ti') \<Longrightarrow> ti' = ti\<lparr>private_op_queue := []\<rparr>"
  by (auto simp: task_cleanup_locked_def push_private_queue_eq)

lemma size_mset_list: "size (mset xs) = length xs"
  by simp

lemma of_nat_size_diff:
  "mset is \<subseteq># P \<Longrightarrow> (of_nat (size (P - mset is)) :: size_t) = of_nat (size P) - of_nat (length is)"
  by (simp add: size_Diff_submset size_mset_mono of_nat_diff)
     (metis size_mset size_mset_mono of_nat_diff)

lemma step_turns:
  assumes ok: "th_ok self t" and frame: "th_pc t = At_Loop n \<or> th_pc t = Waiting n"
    and bal: "sch_balance s' = sch_balance (sh_sched sh) + of_nat (started nx)"
    and nt: "\<And>op. nx = Complete op \<Longrightarrow> op \<noteq> Task_Operation"
  shows "th_ok self (goto_next n nx t) \<and>
    sh_weight (sh\<lparr>sh_sched := s'\<rparr>) + th_weight (goto_next n nx t) = sh_weight sh + th_weight t"
proof -
  have "th_stack t = [(self, fresh_info)]" "list_all is_work (th_leaked t)" "\<not> th_must_stop t"
      "executing (th_pc t) = 0"
    using ok frame by (auto simp: th_ok_def)
  with goto_next_ok [OF this(1-3) nt, where n = n] bal show ?thesis
    by (simp add: sh_weight_def th_weight_def)
qed

lemma step_perform_io:
  assumes ok: "th_ok self t" and pc: "th_pc t = In_Op n (Descriptor_State d)"
    and sub: "mset (i # is) \<subseteq># sh_pending sh"
    and post: "(s', stk, lost) =
       (if is = [] then (sh_sched sh, th_stack t, [])
        else post_deferred_completions self (map Reactor_Op is) (sh_sched sh) (th_stack t))"
  defines "t' \<equiv> t\<lparr>th_pc := In_Op n (Reactor_Op i), th_stack := stk, th_leaked := th_leaked t @ lost\<rparr>"
  shows "th_ok self t' \<and>
    sh_weight (sh\<lparr>sh_sched := s', sh_pending := sh_pending sh - mset (i # is)\<rparr>) + th_weight t' =
    sh_weight sh + th_weight t"
proof -
  have fr: "th_stack t = [(self, fresh_info)]" "list_all is_work (th_leaked t)" "\<not> th_must_stop t"
    using ok pc by (auto simp: th_ok_def)
  have "\<exists>ti'. stk = [(self, ti')] \<and> handler_info (th_leaked t @ lost) ti' \<and>
      list_all is_work (th_leaked t @ lost)"
  proof (cases "is = []")
    case True
    with post fr show ?thesis by (simp add: handler_info_def)
  next
    case False
    have "handler_info (th_leaked t) fresh_info" by (simp add: handler_info_def)
    with False post fr handler_deferred_ok [of "th_leaked t" fresh_info self "is" "sh_sched sh" s' stk lost]
    show ?thesis by simp
  qed
  then have ok': "th_ok self t'" using fr by (auto simp: t'_def th_ok_def)
  have "sch_balance s' + stk_balance stk - of_nat (work_in lost) =
      sch_balance (sh_sched sh) + stk_balance (th_stack t) - of_nat (length is)"
    using post post_deferred_completions_balance [of self "map Reactor_Op is" "sh_sched sh" "th_stack t" s' stk lost]
    by (auto split: if_splits)
  then have bal: "sch_balance s' = sch_balance (sh_sched sh) + stk_balance (th_stack t) -
      of_nat (length is) + of_nat (work_in lost) - stk_balance stk"
    by (simp add: algebra_simps)
  have pend: "(of_nat (size (sh_pending sh - add_mset i (mset is))) :: size_t) =
      of_nat (size (sh_pending sh)) - of_nat (Suc (length is))"
    using of_nat_size_diff [OF sub] by simp
  show ?thesis using ok'
    by (simp add: pc t'_def sh_weight_def th_weight_def bal pend)
qed

lemma step_post:
  assumes ok: "th_ok self t" and call: "may_call t" and "is_work op"
    and post: "post_immediate_completion self op c (sh_sched sh) (th_stack t) = (s', stk)"
  shows "th_ok self (t\<lparr>th_stack := stk\<rparr>) \<and>
    sh_weight (sh\<lparr>sh_sched := s'\<rparr>) + th_weight (t\<lparr>th_stack := stk\<rparr>) = sh_weight sh + th_weight t"
proof -
  have bal: "sch_balance s' = sch_balance (sh_sched sh) + stk_balance (th_stack t) - stk_balance stk"
    using post_immediate_balance [OF assms(3) post] by (simp add: algebra_simps)
  have "th_ok self (t\<lparr>th_stack := stk\<rparr>)"
    using call ok
  proof (cases rule: may_call_cases)
    case outside
    then have "stk = []" using post outside_post_ok by simp
    with outside ok outside_ok show ?thesis by (simp add: th_ok_def)
  next
    case (handler n op' ti)
    with post handler_post_ok [OF _ assms(3)] obtain ti' where
      "stk = [(self, ti')]" "handler_info (th_leaked t) ti'" by metis
    with handler ok show ?thesis by (simp add: th_ok_def)
  qed
  then show ?thesis by (simp add: sh_weight_def th_weight_def bal)
qed

lemma step_cancel:
  assumes ok: "th_ok self t" and call: "may_call t" and sub: "mset is \<subseteq># sh_pending sh"
    and post: "post_deferred_completions self (map Reactor_Op is) (sh_sched sh) (th_stack t) = (s', stk, lost)"
  defines "t' \<equiv> t\<lparr>th_stack := stk, th_leaked := th_leaked t @ lost\<rparr>"
  shows "th_ok self t' \<and>
    sh_weight (sh\<lparr>sh_sched := s', sh_pending := sh_pending sh - mset is\<rparr>) + th_weight t' =
    sh_weight sh + th_weight t"
proof -
  have bal: "sch_balance s' = sch_balance (sh_sched sh) + stk_balance (th_stack t) -
      of_nat (length is) + of_nat (work_in lost) - stk_balance stk"
    using post_deferred_completions_balance [OF post] by (simp add: algebra_simps)
  have "th_ok self t'"
    using call ok
  proof (cases rule: may_call_cases)
    case outside
    then have "stk = []" "lost = []" using post outside_deferred_ok by auto
    with outside ok outside_ok show ?thesis by (simp add: t'_def th_ok_def)
  next
    case (handler n op' ti)
    moreover have "list_all is_work (th_leaked t)" using ok by (simp add: th_ok_def)
    ultimately obtain ti' where "stk = [(self, ti')]" "handler_info (th_leaked t @ lost) ti'"
        "list_all is_work (th_leaked t @ lost)"
      using post handler_deferred_ok [of "th_leaked t" ti self "is" "sh_sched sh" s' stk lost] by auto
    with handler ok show ?thesis by (simp add: t'_def th_ok_def)
  qed
  then show ?thesis
    by (simp add: t'_def sh_weight_def th_weight_def bal of_nat_size_diff [OF sub])
qed

lemma step_flush:
  assumes ok: "th_ok self t" and pc: "th_pc t = After_Op n"
    and fl: "flush_private_work (sh_sched sh) (th_info self t) = (s', ti')"
  shows "th_ok self (set_info self ti' (t\<lparr>th_pc := Work_Dec n\<rparr>)) \<and>
    sh_weight (sh\<lparr>sh_sched := s'\<rparr>) + th_weight (set_info self ti' (t\<lparr>th_pc := Work_Dec n\<rparr>)) =
    sh_weight sh + th_weight t"
proof -
  obtain ti where ti: "th_stack t = [(self, ti)]" "frame_ok (th_leaked t) (th_pc t) ti"
      "th_info self t = ti"
    using ok pc by (auto elim: th_ok_frame)
  then have hi: "handler_info (th_leaked t) ti" using pc by simp
  have "sch_balance s' + ti_balance ti' = sch_balance (sh_sched sh) + ti_balance ti"
    using fl ti(3) hi by (auto intro: flush_balance simp: handler_info_def)
  then have bal: "sch_balance s' = sch_balance (sh_sched sh) + ti_balance ti - ti_balance ti'"
    by (simp add: algebra_simps)
  have "ti' = ti\<lparr>private_outstanding_work := 0\<rparr>" using fl ti(3) flush_info by simp
  then show ?thesis using ok pc ti hi
    by (simp add: set_info_def th_ok_def sh_weight_def th_weight_def bal handler_info_def)
qed

lemma step_task_flush:
  assumes ok: "th_ok self t" and pc: "th_pc t = Task_Done n"
    and fl: "flush_private_work (sh_sched sh) (th_info self t) = (s', ti')"
  shows "th_ok self (set_info self ti' (t\<lparr>th_pc := Task_Flushed n\<rparr>)) \<and>
    sh_weight (sh\<lparr>sh_sched := s'\<rparr>) + th_weight (set_info self ti' (t\<lparr>th_pc := Task_Flushed n\<rparr>)) =
    sh_weight sh + th_weight t"
proof -
  obtain ti where ti: "th_stack t = [(self, ti)]" "frame_ok (th_leaked t) (th_pc t) ti"
      "th_info self t = ti"
    using ok pc by (auto elim: th_ok_frame)
  then have w: "private_outstanding_work ti = 0" using pc by simp
  then have "s' = sh_sched sh" "ti' = ti"
    using fl ti(3) by (auto simp: flush_private_work_def)
  then show ?thesis using ok pc ti
    by (auto simp: set_info_def th_ok_def sh_weight_def th_weight_def)
qed

lemma step_task_relock:
  assumes ok: "th_ok self t" and pc: "th_pc t = Task_Flushed n"
    and cl: "task_cleanup_locked (sh_sched sh) (th_info self t) = (s1, ti')"
    and lh: "loop_head s1 = (s', nx)"
  shows "th_ok self (goto_next n nx (set_info self ti' t)) \<and>
    sh_weight (sh\<lparr>sh_sched := s'\<rparr>) + th_weight (goto_next n nx (set_info self ti' t)) =
    sh_weight sh + th_weight t"
proof -
  obtain ti where ti: "th_stack t = [(self, ti)]" "frame_ok (th_leaked t) (th_pc t) ti"
      "th_info self t = ti"
    using ok pc by (auto elim: th_ok_frame)
  then have fr: "private_outstanding_work ti = 0" "\<exists>ds. private_op_queue ti = map Descriptor_State ds"
    using pc by auto
  then have ti': "ti' = fresh_info" using task_relock_info [OF cl] ti(3) by simp
  have st: "th_stack (set_info self ti' t) = [(self, fresh_info)]" using ti ti' by (simp add: set_info_def)
  have others: "list_all is_work (th_leaked (set_info self ti' t))" "\<not> th_must_stop (set_info self ti' t)"
    using ok pc by (auto simp: th_ok_def set_info_def)
  have "ti_balance ti = 0" using fr by (auto simp: ti_balance_def)
  then have "sch_balance s1 = sch_balance (sh_sched sh)"
    using task_cleanup_locked_balance [OF cl] ti(3) ti' by simp
  then have "sch_balance s' = sch_balance (sh_sched sh) + of_nat (started nx)"
    using loop_head_started [OF lh] by simp
  moreover have "th_weight t = - of_nat (work_in (th_leaked t))"
    using ti \<open>ti_balance ti = 0\<close> pc by (simp add: th_weight_def)
  moreover have "th_leaked (set_info self ti' t) = th_leaked t" by (simp add: set_info_def)
  moreover have "\<And>op. nx = Complete op \<Longrightarrow> op \<noteq> Task_Operation"
    using lh loop_head_not_task by blast
  ultimately show ?thesis
    using goto_next_ok [OF st others, of nx n] by (simp add: sh_weight_def)
qed

lemma step_push_private:
  assumes ok: "th_ok self t" and pc: "th_pc t = Push_Private n" and "\<not> th_must_stop t"
    and push: "push_private_queue (sh_sched sh) (th_info self t) = (s', ti')"
  defines "t' \<equiv> t\<lparr>th_pc := Threw Throw_System_Error, th_stack := cs_leave (th_stack t)\<rparr>"
  shows "th_ok self t' \<and> sh_weight (sh\<lparr>sh_sched := s'\<rparr>) + th_weight t' = sh_weight sh + th_weight t"
proof -
  obtain ti where ti: "th_stack t = [(self, ti)]" "frame_ok (th_leaked t) (th_pc t) ti"
      "th_info self t = ti"
    using ok pc by (auto elim: th_ok_frame)
  then have w: "private_outstanding_work ti = 0" using pc by simp
  have "ti_balance ti' = 0" using push w ti(3) by (auto simp: push_private_queue_eq ti_balance_def)
  then have "sch_balance s' = sch_balance (sh_sched sh) + ti_balance ti"
    using push_private_balance [OF push] ti(3) by simp
  then show ?thesis using ok assms(3) pc ti
    by (simp add: t'_def th_ok_def cs_leave_def sh_weight_def th_weight_def)
qed

lemma may_call_owes: "may_call t \<Longrightarrow> may_owe_stop (th_pc t)"
  by (cases "th_pc t") (auto simp: may_call_def)

lemmas step_simps =
  th_ok_def th_weight_def sh_weight_def set_info_def th_info_def ti_balance_def cs_enter_def
  cs_leave_def oq_empty_def do_dispatch_balance

text \<open>
  One step of one thread keeps the thread well formed and the balance unchanged: the steps with
  a lemma of their own, then the steps that only move the program counter or change one counter.
\<close>

lemma local_step_balance:
  assumes "local_step self sh t sh' t'" "th_ok self t"
  shows "th_ok self t' \<and> sh_weight sh' + th_weight t' = sh_weight sh + th_weight t"
  using assms
proof (cases rule: local_step.cases)
  case (turn n s' nx)
  with assms(2) show ?thesis
    using step_turns [where s' = s'] loop_head_started loop_head_not_task by blast
next
  case (wake n s' nx)
  with assms(2) show ?thesis
    using step_turns [where s' = s'] wait_return_started wait_return_not_task by blast
next
  case (task_flush n s' ti)
  then show ?thesis using step_task_flush [OF assms(2)] by blast
next
  case (task_relock n s1 ti s' nx)
  then show ?thesis using step_task_relock [OF assms(2)] by blast
next
  case (perform_io n d i "is" s' stk lost)
  then show ?thesis using step_perform_io [OF assms(2)] by blast
next
  case (work_flush n s' ti)
  then show ?thesis using step_flush [OF assms(2)] by blast
next
  case (relock_throws n s' ti)
  then show ?thesis using step_push_private [OF assms(2)] by blast
next
  case (call_post op c s' stk)
  then show ?thesis using step_post [OF assms(2)] by blast
next
  case (call_cancel_ops "is" s' stk lost)
  then show ?thesis using step_cancel [OF assms(2)] by blast
qed (use assms(2) outside_ok [of "th_pc t"] in
     \<open>auto simp: step_simps dest: decrement_balance may_call_owes\<close>)

subsection \<open>The wake-up event and the waiting threads\<close>

fun waiting :: "pc \<Rightarrow> nat" where
  "waiting (Waiting n) = 1"
| "waiting pc = 0"

lemma waiting_goto_next:
  "waiting (th_pc (goto_next n nx t)) = of_bool (nx = Block)"
  by (cases nx) simp_all

lemma waiting_0: "is_outside p \<or> in_handler p \<Longrightarrow> waiting p = 0"
  by (cases p) auto

lemma loop_head_event:
  assumes "loop_head s = (s', nx)" "ev_rel (sch_wakeup_event s) f k"
  shows "\<exists>f'. ev_rel (sch_wakeup_event s') f' (k + of_bool (nx = Block))"
proof (cases s rule: loop_head_cases)
  case block
  with assms ev.block [OF assms(2)] show ?thesis by (auto simp: loop_head_simps)
qed (use assms ev.rel_set [OF assms(2)] in \<open>auto simp: loop_head_simps frame_simps\<close>)

lemma wait_return_event:
  assumes "wait_return s = (s', nx)" "ev_rel (sch_wakeup_event s) f (Suc k)"
  shows "\<exists>f'. ev_rel (sch_wakeup_event s') f' (k + of_bool (nx = Block))"
proof -
  have left: "ev_rel (waiter_leave (sch_wakeup_event s)) f k"
    using assms(2) by (rule ev.rel_leave)
  show ?thesis
  proof (cases s rule: wait_return_cases)
    case turn
    with assms(1) left show ?thesis
      using loop_head_event [of "s\<lparr>sch_wakeup_event := waiter_leave (sch_wakeup_event s)\<rparr>"] by auto
  next
    case block
    with assms(1) ev.rel_enter [OF left] show ?thesis by auto
  qed
qed

lemma event_frame [frame_simps]:
  "sch_wakeup_event (do_dispatch op s) = set_flag (sch_wakeup_event s)"
  "sch_wakeup_event (work_started s) = sch_wakeup_event s"
  "sch_wakeup_event (sch_restart s) = sch_wakeup_event s"
  by (simp_all add: do_dispatch_def work_started_def sch_restart_def push_op_def wake_frame)

lemma event_kept:
  "decrement_work s = (s', z) \<Longrightarrow> sch_wakeup_event s' = sch_wakeup_event s"
  "flush_private_work s ti = (s', ti') \<Longrightarrow> sch_wakeup_event s' = sch_wakeup_event s"
  "push_private_queue s ti = (s', ti') \<Longrightarrow> sch_wakeup_event s' = sch_wakeup_event s"
  "task_cleanup_locked s ti = (s', ti') \<Longrightarrow> sch_wakeup_event s' = sch_wakeup_event s"
  by (auto simp: decrement_work_eq flush_private_work_def push_private_queue_eq
      task_cleanup_locked_def push_op_def Let_def)

lemma event_set_or_kept:
  "sch_wakeup_event (init_task r s) \<in> {sch_wakeup_event s, set_flag (sch_wakeup_event s)}"
  "sch_wakeup_event (fst (post_immediate_completion self op c s stk)) \<in>
     {sch_wakeup_event s, set_flag (sch_wakeup_event s)}"
  "sch_wakeup_event (fst (post_deferred_completions self ops s stk)) \<in>
     {sch_wakeup_event s, set_flag (sch_wakeup_event s)}"
  by (auto simp: init_task_def post_immediate_completion_def post_deferred_completions_def
      oq_splice_def frame_simps push_op_def work_started_def Let_def split: option.splits)

lemma ev_rel_set_or_kept:
  "ev_rel e f k \<Longrightarrow> e' \<in> {e, set_flag e} \<Longrightarrow> \<exists>f'. ev_rel e' f' k"
  using ev.rel_set by auto

lemma local_step_event:
  assumes "local_step self sh t sh' t'"
    and rel: "ev_rel (sch_wakeup_event (sh_sched sh)) f (k + waiting (th_pc t))"
  shows "\<exists>f'. ev_rel (sch_wakeup_event (sh_sched sh')) f' (k + waiting (th_pc t'))"
  using assms(1)
proof (cases rule: local_step.cases)
  case (turn n s' nx)
  with rel loop_head_event [of "sh_sched sh" s' nx f k] show ?thesis
    by (simp add: waiting_goto_next)
next
  case (wake n s' nx)
  with rel wait_return_event [of "sh_sched sh" s' nx f k] show ?thesis
    by (simp add: waiting_goto_next)
next
  case (task_relock n s1 ti s' nx)
  then have "sch_wakeup_event s1 = sch_wakeup_event (sh_sched sh)" using event_kept(4) by blast
  with task_relock rel loop_head_event [of s1 s' nx f k] show ?thesis
    by (simp add: waiting_goto_next)
next
  case (perform_io n d i "is" s' stk lost)
  have "sch_wakeup_event s' \<in> {sch_wakeup_event (sh_sched sh), set_flag (sch_wakeup_event (sh_sched sh))}"
    using perform_io(5) event_set_or_kept(3) by (metis (no_types) fst_conv insert_iff)
  with perform_io rel show ?thesis by (simp add: ev_rel_set_or_kept)
next
  case (call_post op c s' stk)
  have "sch_wakeup_event s' \<in> {sch_wakeup_event (sh_sched sh), set_flag (sch_wakeup_event (sh_sched sh))}"
    using call_post(5) event_set_or_kept(2) by (metis fst_conv)
  with call_post rel show ?thesis by (simp add: ev_rel_set_or_kept)
next
  case (call_cancel_ops "is" s' stk lost)
  have "sch_wakeup_event s' \<in> {sch_wakeup_event (sh_sched sh), set_flag (sch_wakeup_event (sh_sched sh))}"
    using call_cancel_ops(5) event_set_or_kept(3) by (metis fst_conv)
  with call_cancel_ops rel show ?thesis by (simp add: ev_rel_set_or_kept)
next
  case (call_init_task r)
  with rel event_set_or_kept(1) show ?thesis by (auto intro: ev_rel_set_or_kept)
qed (use rel ev.rel_set waiting_0 [of "th_pc t"] in
     \<open>auto simp: frame_simps set_info_def dest!: event_kept\<close>)

subsection \<open>The marker of the reactor task\<close>

text \<open>
  \<open>task_operation_\<close> is a token: it is in the queue, or held by the one thread inside
  \<open>task_->run\<close> or its clean-up, or not yet issued because there is no reactor.
\<close>

fun holds_task :: "pc \<Rightarrow> nat" where
  "holds_task (In_Task n u) = 1"
| "holds_task (Task_Done n) = 1"
| "holds_task (Task_Flushed n) = 1"
| "holds_task pc = 0"

definition task_tokens :: "scheduler \<Rightarrow> nat" where
  "task_tokens s = count_list (sch_op_queue s) Task_Operation + of_bool (sch_task s = None)"

fun takes_task :: "run_next \<Rightarrow> nat" where
  "takes_task (Run_Task u) = 1"
| "takes_task nx = 0"

lemma holds_task_goto_next: "holds_task (th_pc (goto_next n nx t)) = takes_task nx"
  by (cases nx) simp_all

lemma holds_task_0: "is_outside p \<or> in_handler p \<Longrightarrow> holds_task p = 0"
  by (cases p) auto

lemma loop_head_tokens:
  "loop_head s = (s', nx) \<Longrightarrow> task_tokens s' + takes_task nx = task_tokens s"
  by (cases s rule: loop_head_cases)
     (auto simp: loop_head_simps frame_simps task_tokens_def split: if_splits)

lemma wait_return_tokens:
  "wait_return s = (s', nx) \<Longrightarrow> task_tokens s' + takes_task nx = task_tokens s"
  by (cases s rule: wait_return_cases) (auto dest!: loop_head_tokens simp: task_tokens_def)

lemma count_task_work [simp]: "list_all is_work q \<Longrightarrow> count_list q Task_Operation = 0"
  by (induction q) auto

lemma count_task_reactor_ops [simp]: "count_list (map Reactor_Op is) Task_Operation = 0"
  by (induction "is") auto

lemma count_task_descriptors [simp]: "count_list (map Descriptor_State ds) Task_Operation = 0"
  by (induction ds) auto

lemma post_immediate_tokens:
  "post_immediate_completion self op c s stk = (s', stk') \<Longrightarrow> is_work op \<Longrightarrow>
   task_tokens s' = task_tokens s"
  by (auto simp: post_immediate_completion_def task_tokens_def frame_simps push_op_def oq_push_def
      work_started_def Let_def split: if_splits option.splits)

lemma post_deferred_tokens:
  "post_deferred_completions self (map Reactor_Op is) s stk = (s', stk', lost) \<Longrightarrow>
   task_tokens s' = task_tokens s"
  by (auto simp: post_deferred_completions_def task_tokens_def frame_simps oq_splice_def Let_def
      split: if_splits option.splits)

lemma tokens_kept:
  "decrement_work s = (s', z) \<Longrightarrow> task_tokens s' = task_tokens s"
  "flush_private_work s ti = (s', ti') \<Longrightarrow> task_tokens s' = task_tokens s"
  "push_private_queue s ti = (s', ti') \<Longrightarrow> list_all is_work (private_op_queue ti) \<Longrightarrow>
     task_tokens s' = task_tokens s"
  "task_cleanup_locked s ti = (s', ti') \<Longrightarrow> private_op_queue ti = map Descriptor_State ds \<Longrightarrow>
     task_tokens s' = task_tokens s + 1"
  by (auto simp: decrement_work_eq flush_private_work_def push_private_queue_eq task_cleanup_locked_def
      push_op_def oq_push_def task_tokens_def Let_def split: if_splits)

lemma tokens_frame [simp]:
  "task_tokens (sch_stop s) = task_tokens s"
  "task_tokens (sch_restart s) = task_tokens s"
  "task_tokens (work_started s) = task_tokens s"
  "task_tokens (init_task r s) = task_tokens s"
  "is_work op \<Longrightarrow> task_tokens (do_dispatch op s) = task_tokens s"
  by (auto simp: task_tokens_def frame_simps sch_restart_def work_started_def init_task_def
      do_dispatch_def push_op_def oq_push_def)

lemma local_step_tokens:
  assumes "local_step self sh t sh' t'" "th_ok self t"
  shows "task_tokens (sh_sched sh') + holds_task (th_pc t') =
         task_tokens (sh_sched sh) + holds_task (th_pc t)"
  using assms(1)
proof (cases rule: local_step.cases)
  case (turn n s' nx)
  then show ?thesis using loop_head_tokens by (simp add: holds_task_goto_next)
next
  case (wake n s' nx)
  then show ?thesis using wait_return_tokens by (simp add: holds_task_goto_next)
next
  case (task_relock n s1 ti s' nx)
  from task_relock(3) assms(2) obtain ds where "private_op_queue (th_info self t) = map Descriptor_State ds"
    by (auto simp: th_ok_def th_info_def)
  then have "task_tokens s1 = task_tokens (sh_sched sh) + 1"
    using task_relock(4) tokens_kept(4) by blast
  with task_relock loop_head_tokens [of s1 s' nx] show ?thesis
    by (simp add: holds_task_goto_next)
next
  case (relock_throws n s' ti)
  with assms(2) have "list_all is_work (private_op_queue (th_info self t))"
    by (auto simp: th_ok_def th_info_def handler_info_def)
  with relock_throws tokens_kept(3) show ?thesis by simp
next
  case (perform_io n d i "is" s' stk lost)
  have "task_tokens s' = task_tokens (sh_sched sh)"
    using perform_io(5) post_deferred_tokens by (cases "is = []") (simp, metis)
  with perform_io show ?thesis by simp
qed (use holds_task_0 [of "th_pc t"] in
     \<open>auto simp: set_info_def post_deferred_tokens post_immediate_tokens dest!: tokens_kept(1,2)\<close>)

subsection \<open>Reachable states\<close>

definition system_inv :: "nat \<Rightarrow> system \<Rightarrow> bool" where
  "system_inv self sy \<longleftrightarrow>
     (case sy of (sh, ts) \<Rightarrow>
        (\<forall>t \<in> set ts. th_ok self t) \<and>
        sh_weight sh + sum_list (map th_weight ts) = 0 \<and>
        (\<exists>f. ev_rel (sch_wakeup_event (sh_sched sh)) f (sum_list (map (waiting \<circ> th_pc) ts))) \<and>
        task_tokens (sh_sched sh) + sum_list (map (holds_task \<circ> th_pc) ts) = 1)"

lemma system_inv_start: "zeroed raw \<Longrightarrow> system_inv self (initial_shared raw hint, [])"
  using ev.rel_initial
  by (auto simp: system_inv_def initial_shared_def zeroed_def scheduler_ctor_def sh_weight_def
      sch_balance_def task_tokens_def)

lemma system_inv_spawn: "system_inv self (sh, ts) \<Longrightarrow> system_inv self (sh, ts @ [new_thread])"
  by (auto simp: system_inv_def new_thread_def th_ok_def th_weight_def)

lemma system_inv_step:
  assumes inv: "system_inv self (sh, ts)" and i: "i < length ts"
    and st: "local_step self sh (ts ! i) sh' t'"
  shows "system_inv self (sh', ts[i := t'])"
proof -
  let ?sum = "\<lambda>f ts. sum_list (map f ts)"
  have ok: "th_ok self (ts ! i)" using inv i by (auto simp: system_inv_def)
  note bal = local_step_balance [OF st ok]
  have "\<forall>t \<in> set (ts[i := t']). th_ok self t"
    using inv bal by (auto simp: system_inv_def dest!: subsetD [OF set_update_subset_insert])
  moreover have "sh_weight sh' + ?sum th_weight (ts[i := t']) = 0"
  proof -
    have "sh_weight sh' = sh_weight sh + th_weight (ts ! i) - th_weight t'"
      using bal by (simp add: algebra_simps)
    then show ?thesis using inv by (simp add: system_inv_def sum_list_map_update [OF i])
  qed
  moreover have "\<exists>f. ev_rel (sch_wakeup_event (sh_sched sh')) f (?sum (waiting \<circ> th_pc) (ts[i := t']))"
  proof -
    have ge: "waiting (th_pc (ts ! i)) \<le> ?sum (waiting \<circ> th_pc) ts"
      using sum_list_member_le [OF i, of "waiting \<circ> th_pc"] by simp
    define k where "k = ?sum (waiting \<circ> th_pc) ts - waiting (th_pc (ts ! i))"
    have "?sum (waiting \<circ> th_pc) ts = k + waiting (th_pc (ts ! i))"
      "?sum (waiting \<circ> th_pc) (ts[i := t']) = k + waiting (th_pc t')"
      using ge sum_list_map_update_nat [OF i, of "waiting \<circ> th_pc" t'] by (simp_all add: k_def)
    with inv show ?thesis
      using local_step_event [OF st] by (auto simp: system_inv_def)
  qed
  moreover have "task_tokens (sh_sched sh') + ?sum (holds_task \<circ> th_pc) (ts[i := t']) = 1"
    using inv local_step_tokens [OF st ok] sum_list_map_update_nat [OF i, of "holds_task \<circ> th_pc" t']
    by (simp add: system_inv_def)
  ultimately show ?thesis by (simp add: system_inv_def)
qed

lemma reachable_inv: "reachable self sy \<Longrightarrow> system_inv self sy"
proof (induction rule: reachable.induct)
  case (start raw hint)
  then show ?case by (rule system_inv_start)
next
  case (step sy sy')
  then show ?case
    by (cases sy) (auto simp: system_inv_spawn intro: system_inv_step)
qed

subsection \<open>Counting the work of a whole system\<close>

definition th_private_work :: "thread \<Rightarrow> int" where
  "th_private_work t = sum_list (map (private_outstanding_work \<circ> snd) (th_stack t))"

definition th_queued :: "thread \<Rightarrow> nat" where
  "th_queued t = sum_list (map (\<lambda>(k, ti). work_in (private_op_queue ti)) (th_stack t)) + work_in (th_leaked t)"

text \<open>
  Every operation somebody still has to run, and every unit of work somebody still has to
  finish: in the shared queue, in a descriptor, in a thread's own queue (or leaked from one),
  being executed, or held by a guard.
\<close>

definition work_total :: "shared \<Rightarrow> thread list \<Rightarrow> nat" where
  "work_total sh ts =
     work_in (sch_op_queue (sh_sched sh)) + size (sh_pending sh) + sh_guards sh +
     sum_list (map th_queued ts) + sum_list (map (executing \<circ> th_pc) ts)"

lemma th_weight_eq:
  "th_weight t = word_of_int (th_private_work t) - of_nat (th_queued t + executing (th_pc t))"
proof -
  have "stk_balance stk = word_of_int (sum_list (map (private_outstanding_work \<circ> snd) stk)) -
      of_nat (sum_list (map (\<lambda>(k, ti). work_in (private_op_queue ti)) stk))" for stk
    by (induction stk) (auto simp: ti_balance_def algebra_simps)
  then show ?thesis by (simp add: th_weight_def th_private_work_def th_queued_def)
qed

lemma sum_th_weight:
  "sum_list (map th_weight ts) =
     word_of_int (sum_list (map th_private_work ts)) -
     of_nat (sum_list (map th_queued ts) + sum_list (map (executing \<circ> th_pc) ts))"
  by (induction ts) (auto simp: th_weight_eq algebra_simps)

lemma balance_total:
  "sh_weight sh + sum_list (map th_weight ts) =
     sch_outstanding_work (sh_sched sh) + word_of_int (sum_list (map th_private_work ts)) -
     of_nat (work_total sh ts)"
  by (simp add: sum_th_weight sh_weight_def sch_balance_def work_total_def)

text \<open>A thread's private work is covered by operations it holds, and it has some only while executing.\<close>

lemma frame_private_bounds:
  "frame_ok lk p ti \<Longrightarrow> list_all is_work lk \<Longrightarrow>
   0 \<le> private_outstanding_work ti \<and>
   private_outstanding_work ti \<le> int (work_in (private_op_queue ti)) + int (work_in lk) \<and>
   (executing p = 0 \<longrightarrow> private_outstanding_work ti = 0)"
  by (cases p) (auto simp: handler_info_def work_in_all split: if_splits)

lemma th_private_bounds:
  assumes "th_ok self t"
  shows "0 \<le> th_private_work t \<and> th_private_work t \<le> int (th_queued t) \<and>
    (executing (th_pc t) = 0 \<longrightarrow> th_private_work t = 0)"
proof (cases "in_run (th_pc t)")
  case True
  with assms obtain ti where "th_stack t = [(self, ti)]" "frame_ok (th_leaked t) (th_pc t) ti"
    by (rule th_ok_frame)
  moreover have "list_all is_work (th_leaked t)" using assms by (simp add: th_ok_def)
  ultimately show ?thesis
    using frame_private_bounds by (fastforce simp: th_private_work_def th_queued_def)
next
  case False
  with assms show ?thesis by (simp add: th_ok_def th_private_work_def)
qed

lemma no_work_left:
  assumes ok: "\<forall>t \<in> set ts. th_ok self t"
    and total: "int Q + int (sum_list (map th_queued ts)) + int (sum_list (map (executing \<circ> th_pc) ts)) =
      sum_list (map th_private_work ts)"
  shows "Q = 0 \<and> sum_list (map th_queued ts) = 0 \<and> sum_list (map (executing \<circ> th_pc) ts) = 0"
proof -
  have "sum_list (map th_private_work ts) \<le> int (sum_list (map th_queued ts))"
    using ok by (induction ts) (auto dest: th_private_bounds)
  with total have none: "Q = 0" "sum_list (map (executing \<circ> th_pc) ts) = 0" by linarith+
  then have "\<forall>t \<in> set ts. executing (th_pc t) = 0" by (simp add: sum_list_nonneg_eq_0_iff)
  with ok have "\<forall>t \<in> set ts. th_private_work t = 0" using th_private_bounds by blast
  then have "sum_list (map th_private_work ts) = 0" by (induction ts) auto
  with total none show ?thesis by simp
qed

lemma private_work_bounds:
  assumes "\<forall>t \<in> set ts. th_ok self t"
  shows "0 \<le> sum_list (map th_private_work ts)"
    "sum_list (map th_private_work ts) \<le> int (work_total sh ts)"
proof -
  show "0 \<le> sum_list (map th_private_work ts)"
    using assms by (induction ts) (auto dest: th_private_bounds)
  have "sum_list (map th_private_work ts) \<le> int (sum_list (map th_queued ts))"
    using assms by (induction ts) (auto dest: th_private_bounds)
  then show "sum_list (map th_private_work ts) \<le> int (work_total sh ts)"
    by (simp add: work_total_def)
qed

text \<open>A shared counter of zero means that no counted work is left anywhere.\<close>

lemma zero_count_no_work:
  assumes inv: "system_inv self (sh, ts)" and zero: "sch_outstanding_work (sh_sched sh) = 0"
    and small: "work_total sh ts < 2 ^ 64"
  shows "work_total sh ts = 0"
proof -
  have ok: "\<forall>t \<in> set ts. th_ok self t" using inv by (simp add: system_inv_def)
  define P where "P = sum_list (map th_private_work ts)"
  have P: "0 \<le> P" "P \<le> int (work_total sh ts)"
    using private_work_bounds [OF ok] by (simp_all add: P_def)
  have "word_of_int P = (of_nat (work_total sh ts) :: size_t)"
    using inv zero balance_total [of sh ts] by (simp add: system_inv_def P_def)
  then have "of_nat (nat P) = (of_nat (work_total sh ts) :: size_t)" using P by simp
  then have "nat P = work_total sh ts" using P small by (intro of_nat_small_eq) auto
  then have "P = int (work_total sh ts)" using P by simp
  then have "int (work_in (sch_op_queue (sh_sched sh)) + size (sh_pending sh) + sh_guards sh) +
      int (sum_list (map th_queued ts)) + int (sum_list (map (executing \<circ> th_pc) ts)) = P"
    by (simp add: work_total_def)
  from no_work_left [OF ok this [unfolded P_def]] show ?thesis
    unfolding work_total_def by simp
qed

subsection \<open>No thread goes to sleep on work\<close>

text \<open>
  While the queue holds something, or the scheduler is stopped, the flag of the event is set, so
  that no waiting thread that wakes goes back to sleep. This needs every push to signal; the push
  of \<open>work_cleanup\<close>, which is followed by the exception of \<open>lock.lock()\<close>, does not.
\<close>

definition awake :: "scheduler \<Rightarrow> bool" where
  "awake s \<longleftrightarrow> (sch_stopped s \<or> sch_op_queue s \<noteq> [] \<longrightarrow> flag_is_set (sch_wakeup_event s))"

lemma flag_set_flag [simp]: "flag_is_set (set_flag e)"
  by (simp add: flag_is_set_def set_flag_def bit.conj_disj_distrib2)

lemma loop_head_awake:
  assumes "loop_head s = (s', nx)" "\<not> sch_one_thread s"
    and "sch_stopped s \<Longrightarrow> flag_is_set (sch_wakeup_event s)"
  shows "awake s'"
  using assms
  by (cases s rule: loop_head_cases) (auto simp: loop_head_simps frame_simps awake_def)

lemma wait_return_awake:
  assumes "wait_return s = (s', nx)" "\<not> sch_one_thread s" "awake s"
    and rel: "ev_rel (sch_wakeup_event s) f (Suc k)"
  shows "awake s'"
proof -
  have same: "flag_is_set (waiter_leave (sch_wakeup_event s)) = flag_is_set (sch_wakeup_event s)"
    using ev.rel_is_set [OF rel] ev.rel_is_set [OF ev.rel_leave [OF rel]] by simp
  show ?thesis
  proof (cases s rule: wait_return_cases)
    case turn
    with assms(1) show ?thesis
      using loop_head_awake [of "s\<lparr>sch_wakeup_event := waiter_leave (sch_wakeup_event s)\<rparr>"] assms(2)
      by simp
  next
    case block
    with assms same show ?thesis by (auto simp: awake_def)
  qed
qed

lemma awake_event: "sch_wakeup_event s' = set_flag e \<Longrightarrow> awake s'"
  by (simp add: awake_def)

lemma awake_kept:
  "sch_wakeup_event s' = sch_wakeup_event s \<Longrightarrow> sch_op_queue s' = sch_op_queue s \<Longrightarrow>
   sch_stopped s' = sch_stopped s \<Longrightarrow> awake s \<Longrightarrow> awake s'"
  by (simp add: awake_def)

lemma post_immediate_awake:
  "post_immediate_completion self op c s stk = (s', stk') \<Longrightarrow> awake s \<Longrightarrow> awake s'"
  by (auto simp: post_immediate_completion_def Let_def frame_simps
      intro: awake_event split: if_splits option.splits)

lemma post_deferred_awake:
  "post_deferred_completions self ops s stk = (s', stk', lost) \<Longrightarrow> awake s \<Longrightarrow> awake s'"
  by (auto simp: post_deferred_completions_def oq_splice_def Let_def frame_simps
      intro: awake_event split: if_splits option.splits)

lemma awake_simple:
  "awake (sch_stop s)" "awake (do_dispatch op s)"
  "awake s \<Longrightarrow> awake (sch_restart s)" "awake s \<Longrightarrow> awake (work_started s)"
  "awake s \<Longrightarrow> awake (init_task r s)"
  "awake s \<Longrightarrow> decrement_work s = (s', z) \<Longrightarrow> awake s'"
  "awake s \<Longrightarrow> flush_private_work s ti = (s', ti') \<Longrightarrow> awake s'"
  by (auto simp: awake_def frame_simps do_dispatch_def sch_restart_def work_started_def
      init_task_def decrement_work_eq flush_private_work_def Let_def split: if_splits)

lemma perform_io_post:
  "(s', stk, lost) = (if is = [] then (s, stk0, []) else post_deferred_completions self ops s stk0) \<Longrightarrow>
   s' = s \<or> post_deferred_completions self ops s stk0 = (s', stk, lost)"
  by (auto split: if_splits)

lemma local_step_awake:
  assumes "local_step self sh t sh' t'" and one: "\<not> sch_one_thread (sh_sched sh)"
    and "th_pc t' \<noteq> Threw Throw_System_Error" and aw: "awake (sh_sched sh)"
    and rel: "ev_rel (sch_wakeup_event (sh_sched sh)) f (k + waiting (th_pc t))"
  shows "awake (sh_sched sh')"
  using assms(1)
proof (cases rule: local_step.cases)
  case (turn n s' nx)
  then show ?thesis using one aw loop_head_awake by (simp add: awake_def)
next
  case (wake n s' nx)
  with rel have "ev_rel (sch_wakeup_event (sh_sched sh)) f (Suc k)" by simp
  with wake one aw show ?thesis using wait_return_awake by simp
next
  case (task_relock n s1 ti s' nx)
  then have "\<not> sch_one_thread s1" "sch_stopped s1 \<Longrightarrow> flag_is_set (sch_wakeup_event s1)"
    using one aw by (auto simp: task_cleanup_locked_def push_private_queue_eq push_op_def awake_def)
  with task_relock loop_head_awake show ?thesis by simp
next
  case (perform_io n d i "is" s' stk lost)
  with aw post_deferred_awake have "awake s'" using perform_io_post [OF perform_io(5)] by blast
  with perform_io show ?thesis by simp
next
  case (task_flush n s' ti)
  with aw awake_simple(7) show ?thesis by simp
next
  case (work_flush n s' ti)
  with aw awake_simple(7) show ?thesis by simp
next
  case (work_dec n s' zero)
  with aw awake_simple(6) show ?thesis by simp
next
  case (call_work_finished g s' zero)
  with aw awake_simple(6) show ?thesis by simp
next
  case (call_post op c s' stk)
  with aw post_immediate_awake show ?thesis by simp
next
  case (call_cancel_ops "is" s' stk lost)
  with aw post_deferred_awake show ?thesis by simp
qed (use aw assms(3) in \<open>simp_all add: awake_simple(1-5)\<close>)

lemma one_thread_kept:
  "sch_one_thread (do_dispatch op s) = sch_one_thread s"
  "sch_one_thread (work_started s) = sch_one_thread s"
  "sch_one_thread (sch_restart s) = sch_one_thread s"
  "sch_one_thread (init_task r s) = sch_one_thread s"
  "decrement_work s = (s', z) \<Longrightarrow> sch_one_thread s' = sch_one_thread s"
  "flush_private_work s ti = (s', ti') \<Longrightarrow> sch_one_thread s' = sch_one_thread s"
  "push_private_queue s ti = (s', ti') \<Longrightarrow> sch_one_thread s' = sch_one_thread s"
  "task_cleanup_locked s ti = (s', ti') \<Longrightarrow> sch_one_thread s' = sch_one_thread s"
  "post_immediate_completion self op c s stk = (s', stk') \<Longrightarrow> sch_one_thread s' = sch_one_thread s"
  "post_deferred_completions self ops s stk = (s', stk', lost) \<Longrightarrow> sch_one_thread s' = sch_one_thread s"
  by (auto simp: do_dispatch_def work_started_def sch_restart_def init_task_def decrement_work_eq
      flush_private_work_def push_private_queue_eq task_cleanup_locked_def push_op_def
      post_immediate_completion_def post_deferred_completions_def oq_splice_def frame_simps Let_def
      split: if_splits option.splits)

lemma loop_head_one_thread: "loop_head s = (s', nx) \<Longrightarrow> sch_one_thread s' = sch_one_thread s"
  by (cases s rule: loop_head_cases) (auto simp: loop_head_simps frame_simps)

lemma wait_return_one_thread: "wait_return s = (s', nx) \<Longrightarrow> sch_one_thread s' = sch_one_thread s"
  by (cases s rule: wait_return_cases) (auto dest: loop_head_one_thread)

lemma local_step_one_thread:
  assumes "local_step self sh t sh' t'"
  shows "sch_one_thread (sh_sched sh') = sch_one_thread (sh_sched sh)"
  using assms
proof (cases rule: local_step.cases)
  case (perform_io n d i "is" s' stk lost)
  have "sch_one_thread s' = sch_one_thread (sh_sched sh)"
    using perform_io_post [OF perform_io(5)] one_thread_kept(10) by blast
  with perform_io show ?thesis by simp
next
  case (task_relock n s1 ti s' nx)
  then show ?thesis using loop_head_one_thread one_thread_kept(8) by simp
qed (auto simp: one_thread_kept frame_simps loop_head_one_thread wait_return_one_thread)

lemma threw_stays:
  "local_step self sh t sh' t' \<Longrightarrow> th_pc t = Threw e \<Longrightarrow> th_pc t' = Threw e"
  by (cases rule: local_step.cases) (auto simp: may_call_def)

definition nobody_threw :: "thread list \<Rightarrow> bool" where
  "nobody_threw ts \<longleftrightarrow> (\<forall>t \<in> set ts. th_pc t \<noteq> Threw Throw_System_Error)"

lemma reachable_awake:
  "reachable self sy \<Longrightarrow> \<not> sch_one_thread (sh_sched (fst sy)) \<Longrightarrow> nobody_threw (snd sy) \<Longrightarrow>
   awake (sh_sched (fst sy))"
proof (induction rule: reachable.induct)
  case (start raw hint)
  then show ?case by (simp add: awake_def initial_shared_def scheduler_ctor_def zeroed_def)
next
  case (step sy sy')
  obtain sh ts where sy: "sy = (sh, ts)" by (cases sy)
  from step.hyps(2) show ?case unfolding sy
  proof (cases rule: sys_step.cases)
    case spawn
    with step sy show ?thesis by (simp add: nobody_threw_def new_thread_def)
  next
    case (step i sh' t')
    have "nobody_threw ts"
      unfolding nobody_threw_def
    proof
      fix t assume "t \<in> set ts"
      then obtain j where "j < length ts" "t = ts ! j" by (auto simp: in_set_conv_nth)
      with step \<open>nobody_threw (snd sy')\<close> show "th_pc t \<noteq> Threw Throw_System_Error"
        using threw_stays by (cases "i = j") (auto simp: nobody_threw_def all_set_conv_all_nth)
    qed
    moreover have thr: "th_pc t' \<noteq> Threw Throw_System_Error"
      using step \<open>nobody_threw (snd sy')\<close>
      by (auto simp: nobody_threw_def dest: bspec [OF _ set_update_memI])
    moreover have one: "\<not> sch_one_thread (sh_sched sh)"
      using step \<open>\<not> sch_one_thread (sh_sched (fst sy'))\<close> local_step_one_thread by simp
    ultimately have "awake (sh_sched sh)" using step.IH sy by simp
    moreover obtain f where
      "ev_rel (sch_wakeup_event (sh_sched sh)) f (sum_list (map (waiting \<circ> th_pc) ts))"
      using reachable_inv [OF \<open>reachable self sy\<close>] sy by (auto simp: system_inv_def)
    then obtain f k where "ev_rel (sch_wakeup_event (sh_sched sh)) f (k + waiting (th_pc (ts ! i)))"
      using sum_list_member_le [OF step(2), of "waiting \<circ> th_pc"]
      by (metis comp_apply le_add_diff_inverse2)
    ultimately show ?thesis
      using local_step_awake [OF step(3) one] thr step(1) by simp
  qed
qed

end
