(* ===== verification/Scheduler_Properties.thy ===== *)
theory Scheduler_Properties
  imports Threads
begin

text \<open>
  What the scheduler promises, alone and under any interleaving of threads, with a run of the
  system that the witnesses use.
\<close>

subsection \<open>A run of the system\<close>

definition demo_raw :: scheduler where
  "demo_raw = \<lparr>sch_one_thread = False, sch_wakeup_event = \<lparr>ev_state = 0\<rparr>, sch_task = None,
     sch_task_interrupted = False, sch_outstanding_work = 0, sch_op_queue = [], sch_stopped = False,
     sch_shutdown = False, sch_concurrency_hint = 0, sch_effects = []\<rparr>"

definition demo_sched :: scheduler where
  "demo_sched = do_dispatch (Executor_Op 7) (init_task 5 (work_started (scheduler_ctor demo_raw 2)))"

definition demo_shared :: shared where
  "demo_shared = \<lparr>sh_sched = fst (loop_head demo_sched), sh_pending = {#}, sh_guards = 1\<rparr>"

definition demo_thread :: thread where
  "demo_thread = \<lparr>th_pc = In_Task 0 0, th_stack = [(0, fresh_info)], th_must_stop = False, th_leaked = []\<rparr>"

lemma demo_sched_eq:
  "sch_op_queue demo_sched = [Task_Operation, Executor_Op 7]"
  "sch_outstanding_work demo_sched = 2" "sch_task demo_sched = Some 5"
  "\<not> sch_stopped demo_sched" "\<not> sch_one_thread demo_sched"
  by (simp_all add: demo_sched_def demo_raw_def scheduler_ctor_def do_dispatch_def init_task_def
      work_started_def push_op_def oq_push_def frame_simps)

lemma demo_loop_head:
  "loop_head demo_sched =
     (unlock_for_more True (demo_sched\<lparr>sch_op_queue := [Executor_Op 7], sch_task_interrupted := True\<rparr>),
      Run_Task 0)"
  by (simp add: loop_head_task demo_sched_eq)

lemma demo_shared_eq:
  "sch_op_queue (sh_sched demo_shared) = [Executor_Op 7]"
  "sch_outstanding_work (sh_sched demo_shared) = 2" "sch_task (sh_sched demo_shared) = Some 5"
  "\<not> sch_one_thread (sh_sched demo_shared)"
  by (simp_all add: demo_shared_def demo_loop_head frame_simps demo_sched_eq)

lemma reachable_alone:
  assumes "reachable self (sh, [t])" "local_step self sh t sh' t'"
  shows "reachable self (sh', [t'])"
proof -
  have "sys_step self (sh, [t]) (sh', [t'])"
    using sys_step.step [of 0 "[t]" self sh sh' t'] assms(2) by simp
  with assms(1) show ?thesis by (rule reachable.step)
qed

lemma demo_spawned: "reachable 0 (initial_shared demo_raw 2, [new_thread])"
proof -
  have "reachable 0 (initial_shared demo_raw 2, [])"
    by (rule reachable.start) (simp add: zeroed_def demo_raw_def)
  moreover have "sys_step 0 (initial_shared demo_raw 2, []) (initial_shared demo_raw 2, [new_thread])"
    using sys_step.spawn [of 0 "initial_shared demo_raw 2" "[]"] by simp
  ultimately show ?thesis by (rule reachable.step)
qed

lemma demo_may_call: "may_call new_thread"
  by (simp add: may_call_def new_thread_def)

lemma demo_reachable: "reachable 0 (demo_shared, [demo_thread])"
proof -
  let ?d0 = "scheduler_ctor demo_raw 2"
  let ?sh = "\<lambda>s. \<lparr>sh_sched = s, sh_pending = {#}, sh_guards = 1\<rparr>"
  let ?in_run = "\<lambda>p. \<lparr>th_pc = p, th_stack = [(0, fresh_info)], th_must_stop = False, th_leaked = []\<rparr>"
  have "local_step 0 (initial_shared demo_raw 2) new_thread (?sh (work_started ?d0)) new_thread"
    using local_step.call_work_started [OF demo_may_call, of 0 "initial_shared demo_raw 2"]
    by (simp add: initial_shared_def)
  from reachable_alone [OF demo_spawned this]
  have "reachable 0 (?sh (work_started ?d0), [new_thread])" .
  from reachable_alone [OF this local_step.call_init_task [OF demo_may_call, where r = 5]]
  have "reachable 0 (?sh (init_task 5 (work_started ?d0)), [new_thread])" by simp
  from reachable_alone [OF this local_step.call_dispatch [OF demo_may_call, where op = "Executor_Op 7"]]
  have "reachable 0 (?sh demo_sched, [new_thread])" by (simp add: demo_sched_def)
  from reachable_alone [OF this local_step.run_enter]
  have "reachable 0 (?sh demo_sched, [?in_run (At_Loop 0)])"
    by (simp add: new_thread_def demo_sched_eq cs_enter_def)
  from reachable_alone [OF this local_step.turn [where n = 0 and s' = "fst (loop_head demo_sched)" and nx = "Run_Task 0"]]
  show ?thesis by (simp add: demo_loop_head demo_shared_def demo_thread_def)
qed

subsection \<open>Work\<close>

text \<open>C1. In every state any interleaving of threads can reach, the work the scheduler has
  counted (the shared atomic counter plus the private counters of the threads) is, modulo
  \<open>2 ^ 64\<close>, exactly the number of operations and work guards there are: queued, pending in the
  reactor, in a thread's private queue, being executed, held by a guard, or leaked by a destroyed
  queue. No operation is counted twice and none goes uncounted.\<close>

theorem work_is_conserved:
  assumes "reachable self (sh, ts)"
  shows "sch_outstanding_work (sh_sched sh) + word_of_int (sum_list (map th_private_work ts)) =
         of_nat (work_total sh ts)"
  using reachable_inv [OF assms] balance_total [of sh ts] by (simp add: system_inv_def)

theorem work_is_conserved_witness:
  "(2 :: size_t) + word_of_int (sum_list (map th_private_work [demo_thread])) =
     of_nat (work_total demo_shared [demo_thread])"
  using work_is_conserved [OF demo_reachable] by (simp add: demo_shared_eq)

text \<open>C2. The counter reads 0 only when there is no work anywhere: nothing queued, nothing pending
  in a descriptor, no operation being executed by any thread and no guard. (Fewer than \<open>2 ^ 64\<close>
  operations exist at once.) This is so when the counter is read; the \<open>stop()\<close> that
  \<open>work_finished\<close> and \<open>run\<close> then call comes later.\<close>

theorem zero_count_means_no_work:
  assumes "reachable self (sh, ts)" and "sch_outstanding_work (sh_sched sh) = 0"
    and "work_total sh ts < 2 ^ 64"
  shows "work_in (sch_op_queue (sh_sched sh)) = 0 \<and> sh_pending sh = {#} \<and> sh_guards sh = 0 \<and>
    (\<forall>t \<in> set ts. executing (th_pc t) = 0 \<and> th_queued t = 0 \<and> th_private_work t = 0)"
proof -
  have inv: "system_inv self (sh, ts)" by (rule reachable_inv [OF assms(1)])
  then have none: "work_total sh ts = 0" using assms(2,3) by (rule zero_count_no_work)
  then have each: "\<forall>t \<in> set ts. executing (th_pc t) = 0 \<and> th_queued t = 0"
    by (simp add: work_total_def sum_list_nonneg_eq_0_iff)
  moreover have "\<forall>t \<in> set ts. th_private_work t = 0"
    using inv each th_private_bounds by (fastforce simp: system_inv_def)
  ultimately show ?thesis using none by (simp add: work_total_def)
qed

lemma demo_idle:
  "reachable 0 (\<lparr>sh_sched = fst (decrement_work (work_started (scheduler_ctor demo_raw 2))),
      sh_pending = {#}, sh_guards = 0\<rparr>, [new_thread\<lparr>th_must_stop := True\<rparr>])"
proof -
  let ?s = "work_started (scheduler_ctor demo_raw 2)"
  have "local_step 0 (initial_shared demo_raw 2) new_thread
      \<lparr>sh_sched = ?s, sh_pending = {#}, sh_guards = 1\<rparr> new_thread"
    using local_step.call_work_started [OF demo_may_call, of 0 "initial_shared demo_raw 2"]
    by (simp add: initial_shared_def)
  note started = reachable_alone [OF demo_spawned this]
  have "decrement_work ?s = (fst (decrement_work ?s), True)"
    by (simp add: decrement_work_eq work_started_def scheduler_ctor_def demo_raw_def)
  then have "local_step 0 \<lparr>sh_sched = ?s, sh_pending = {#}, sh_guards = 1\<rparr> new_thread
      \<lparr>sh_sched = fst (decrement_work ?s), sh_pending = {#}, sh_guards = 0\<rparr>
      (new_thread\<lparr>th_must_stop := True\<rparr>)"
    using local_step.call_work_finished [of new_thread "\<lparr>sh_sched = ?s, sh_pending = {#}, sh_guards = 1\<rparr>" 0]
    by (simp add: demo_may_call)
  with started show ?thesis by (rule reachable_alone)
qed

theorem zero_count_means_no_work_witness:
  "\<exists>sh ts. reachable 0 (sh, ts) \<and> th_must_stop (ts ! 0) \<and> sh_pending sh = {#} \<and>
     (\<forall>t \<in> set ts. executing (th_pc t) = 0 \<and> th_queued t = 0 \<and> th_private_work t = 0)"
proof -
  let ?sh = "\<lparr>sh_sched = fst (decrement_work (work_started (scheduler_ctor demo_raw 2))),
      sh_pending = {#}, sh_guards = 0\<rparr>"
  let ?ts = "[new_thread\<lparr>th_must_stop := True\<rparr>]"
  have "sch_outstanding_work (sh_sched ?sh) = 0" "work_total ?sh ?ts < 2 ^ 64"
    by (simp_all add: decrement_work_eq work_started_def scheduler_ctor_def demo_raw_def
        work_total_def th_queued_def new_thread_def)
  from zero_count_means_no_work [OF demo_idle this] demo_idle show ?thesis
    by (intro exI [of _ ?sh] exI [of _ ?ts]) simp
qed

text \<open>Between the decrement to 0 and the call of \<open>stop()\<close> another thread may hand over an operation:
  the scheduler is then stopped with the operation in its queue.\<close>

theorem late_stop_strands_work:
  "\<exists>sh ts. reachable 0 (sh, ts) \<and> sch_stopped (sh_sched sh) \<and> sch_op_queue (sh_sched sh) = [Executor_Op 7] \<and>
     sch_outstanding_work (sh_sched sh) = 1 \<and> sh_guards sh = 0 \<and> (\<forall>t \<in> set ts. th_pc t = Outside \<and> \<not> th_must_stop t)"
proof -
  let ?s = "fst (decrement_work (work_started (scheduler_ctor demo_raw 2)))"
  let ?sh = "\<lambda>s. \<lparr>sh_sched = s, sh_pending = {#}, sh_guards = 0\<rparr>"
  let ?owes = "new_thread\<lparr>th_must_stop := True\<rparr>"
  have "reachable 0 (?sh ?s, [?owes, new_thread])"
    using reachable.step [OF demo_idle sys_step.spawn] by simp
  moreover have "sys_step 0 (?sh ?s, [?owes, new_thread]) (?sh (do_dispatch (Executor_Op 7) ?s), [?owes, new_thread])"
    using sys_step.step [of 1 "[?owes, new_thread]" 0 "?sh ?s"]
      local_step.call_dispatch [OF demo_may_call, of "Executor_Op 7" 0 "?sh ?s"] by simp
  moreover have "sys_step 0 (?sh (do_dispatch (Executor_Op 7) ?s), [?owes, new_thread])
      (?sh (sch_stop (do_dispatch (Executor_Op 7) ?s)), [new_thread, new_thread])"
    using sys_step.step [of 0 "[?owes, new_thread]" 0 "?sh (do_dispatch (Executor_Op 7) ?s)"]
      local_step.must_stop [of ?owes 0 "?sh (do_dispatch (Executor_Op 7) ?s)"] by (simp add: new_thread_def)
  ultimately have "reachable 0 (?sh (sch_stop (do_dispatch (Executor_Op 7) ?s)), [new_thread, new_thread])"
    by (rule reachable.step [OF reachable.step])
  moreover have "sch_op_queue (sch_stop (do_dispatch (Executor_Op 7) ?s)) = [Executor_Op 7]"
    "sch_outstanding_work (sch_stop (do_dispatch (Executor_Op 7) ?s)) = 1"
    "sch_stopped (sch_stop (do_dispatch (Executor_Op 7) ?s))"
    by (simp_all add: frame_simps do_dispatch_def push_op_def oq_push_def work_started_def decrement_work_eq
        scheduler_ctor_def demo_raw_def)
  ultimately show ?thesis by (fastforce simp: new_thread_def)
qed

subsection \<open>The reactor task\<close>

text \<open>C3. Once the reactor is installed there is exactly one token for it, in the queue or with one
  thread, and before that none: so at most one thread at a time is inside \<open>task_->run\<close> (or its
  clean-up), whatever the interleaving.\<close>

theorem one_thread_runs_the_reactor:
  assumes "reachable self (sh, ts)"
  shows "count_list (sch_op_queue (sh_sched sh)) Task_Operation +
      sum_list (map (holds_task \<circ> th_pc) ts) = (if sch_task (sh_sched sh) = None then 0 else 1) \<and>
    (\<forall>i j. i < length ts \<and> j < length ts \<and> holds_task (th_pc (ts ! i)) = 1 \<and>
       holds_task (th_pc (ts ! j)) = 1 \<longrightarrow> i = j)"
proof -
  have tokens: "task_tokens (sh_sched sh) + sum_list (map (holds_task \<circ> th_pc) ts) = 1"
    using reachable_inv [OF assms] by (simp add: system_inv_def)
  have "i = j" if "i < length ts" "j < length ts" "holds_task (th_pc (ts ! i)) = 1"
    "holds_task (th_pc (ts ! j)) = 1" for i j
  proof (rule ccontr)
    assume "i \<noteq> j"
    then have "2 \<le> sum_list (map (holds_task \<circ> th_pc) ts)"
      using sum_list_two_le [of i ts j "holds_task \<circ> th_pc"] that by simp
    with tokens show False by simp
  qed
  with tokens show ?thesis by (auto simp: task_tokens_def split: if_splits)
qed

theorem one_thread_runs_the_reactor_witness:
  "count_list (sch_op_queue (sh_sched demo_shared)) Task_Operation +
     sum_list (map (holds_task \<circ> th_pc) [demo_thread]) = 1"
  using one_thread_runs_the_reactor [OF demo_reachable] by (simp add: demo_shared_eq)

subsection \<open>Waking threads\<close>

lemma sum_waiting:
  "sum_list (map (waiting \<circ> th_pc) ts) = length (filter (\<lambda>t. waiting (th_pc t) = 1) ts)"
proof (induction ts)
  case Nil
  show ?case by simp
next
  case (Cons t ts)
  then show ?case by (cases "th_pc t") simp_all
qed

text \<open>The word in the wake-up event is always twice the number of threads blocked in \<open>wait\<close> plus
  the signal bit, whatever the interleaving of signals, waits and spurious wake-ups.\<close>

theorem event_counts_waiting_threads:
  assumes "reachable self (sh, ts)"
  shows "\<exists>f. ev_state (sch_wakeup_event (sh_sched sh)) =
    2 * of_nat (length (filter (\<lambda>t. waiting (th_pc t) = 1) ts)) + of_bool f"
  using reachable_inv [OF assms] by (auto simp: system_inv_def ev_rel_def sum_waiting)

theorem event_counts_waiting_threads_witness:
  "\<exists>f. ev_state (sch_wakeup_event (sh_sched demo_shared)) =
     2 * of_nat (length (filter (\<lambda>t. waiting (th_pc t) = 1) [demo_thread])) + of_bool f"
  using event_counts_waiting_threads [OF demo_reachable] .

text \<open>C4. In a scheduler for several threads whose \<open>run\<close> has not thrown, the event's flag is set
  whenever there is something in the queue or the scheduler is stopped: no thread blocks, or goes
  back to sleep after a wake-up, while there is work or a stop to see.\<close>

theorem no_thread_sleeps_on_work:
  assumes "reachable self (sh, ts)" and "\<not> sch_one_thread (sh_sched sh)" and "nobody_threw ts"
    and "sch_op_queue (sh_sched sh) \<noteq> [] \<or> sch_stopped (sh_sched sh)"
  shows "flag_is_set (sch_wakeup_event (sh_sched sh)) \<and>
    (waiting (th_pc t) = 1 \<and> t \<in> set ts \<longrightarrow> snd (wait_return (sh_sched sh)) \<noteq> Block)"
proof -
  let ?s = "sh_sched sh"
  have set: "flag_is_set (sch_wakeup_event ?s)"
    using reachable_awake [OF assms(1)] assms(2-4) by (auto simp: awake_def)
  have "snd (wait_return ?s) \<noteq> Block" if "waiting (th_pc t) = 1" "t \<in> set ts"
  proof -
    obtain f where rel: "ev_rel (sch_wakeup_event ?s) f (sum_list (map (waiting \<circ> th_pc) ts))"
      using reachable_inv [OF assms(1)] by (auto simp: system_inv_def)
    have "1 \<le> sum_list (map (waiting \<circ> th_pc) ts)"
      using that by (induction ts) auto
    then obtain k where "sum_list (map (waiting \<circ> th_pc) ts) = Suc k" by (cases "sum_list (map (waiting \<circ> th_pc) ts)") auto
    with rel have rel: "ev_rel (sch_wakeup_event ?s) f (Suc k)" by simp
    have "flag_is_set (waiter_leave (sch_wakeup_event ?s))"
      using ev.rel_is_set [OF rel] ev.rel_is_set [OF ev.rel_leave [OF rel]] set by simp
    then have "wait_return ?s = loop_head (?s\<lparr>sch_wakeup_event := waiter_leave (sch_wakeup_event ?s)\<rparr>)"
      by (simp add: wait_return_def Let_def)
    with assms(4) show ?thesis
      by (cases "?s\<lparr>sch_wakeup_event := waiter_leave (sch_wakeup_event ?s)\<rparr>" rule: loop_head_cases)
         (auto simp: loop_head_simps)
  qed
  with set show ?thesis by blast
qed

theorem no_thread_sleeps_on_work_witness:
  "flag_is_set (sch_wakeup_event (sh_sched demo_shared))"
  using no_thread_sleeps_on_work [OF demo_reachable]
  by (simp add: demo_shared_eq nobody_threw_def demo_thread_def)

text \<open>Handing over an operation (\<open>do_dispatch\<close>, and the shared path of the posts) notifies one
  waiting thread if any thread waits, and otherwise interrupts the reactor if there is one: the
  operation never lands unnoticed behind sleepers. (Fewer than \<open>2 ^ 63\<close> threads.)\<close>

theorem dispatch_wakes_someone:
  assumes "reachable self (sh, ts)" and "length ts < 2 ^ 63"
  shows "sch_effects (do_dispatch op (sh_sched sh)) = sch_effects (sh_sched sh) @
    (if \<exists>t \<in> set ts. waiting (th_pc t) = 1 then [Notified Notify_One]
     else if sch_task (sh_sched sh) \<noteq> None then [Task_Interrupt] else [])"
proof -
  let ?n = "sum_list (map (waiting \<circ> th_pc) ts)"
  obtain f where rel: "ev_rel (sch_wakeup_event (sh_sched sh)) f ?n"
    using reachable_inv [OF assms(1)] by (auto simp: system_inv_def)
  have "?n \<le> length ts" by (simp add: sum_waiting)
  with assms(2) have "have_waiters (set_flag (sch_wakeup_event (sh_sched sh))) \<longleftrightarrow> 0 < ?n"
    using ev.signal_reaches_waiter [OF rel] by simp
  moreover have "0 < ?n \<longleftrightarrow> (\<exists>t \<in> set ts. waiting (th_pc t) = 1)"
    by (auto simp: sum_waiting filter_empty_conv)
  ultimately show ?thesis
    by (simp add: do_dispatch_def wake_one_thread_and_unlock_def ev_maybe_unlock_and_signal_one_def
        push_op_def work_started_def emit_def Let_def)
qed

theorem dispatch_wakes_someone_witness:
  "sch_effects (do_dispatch (Executor_Op 8) (sh_sched demo_shared)) =
     sch_effects (sh_sched demo_shared) @ [Task_Interrupt]"
  using dispatch_wakes_someone [OF demo_reachable, of "Executor_Op 8"]
  by (simp add: demo_shared_eq demo_thread_def)

subsection \<open>Running\<close>

lemma run_in_order:
  assumes "\<And>op s stk w. complete op (s, stk, w) = (s, stk, f op w)"
    and "Task_Operation \<notin> set (sch_op_queue s)" and "sch_op_queue s \<noteq> []" and "\<not> sch_stopped s"
    and "sch_outstanding_work s = of_nat (length (sch_op_queue s))"
    and "length (sch_op_queue s) < 2 ^ 64"
  shows "\<exists>s'. sched_run self complete task_run (s, stk, w) =
      Some (Inr (of_nat (length (sch_op_queue s)), s', stk, fold f (sch_op_queue s) w)) \<and>
    sch_op_queue s' = [] \<and> sch_outstanding_work s' = 0 \<and> sch_stopped s'"
proof -
  have "sch_outstanding_work s \<noteq> 0"
    using assms(3,5,6) of_nat_small_eq [of "length (sch_op_queue s)" 0] by auto
  moreover obtain s' where
    "run_loop self complete task_run 0 (s, cs_enter self fresh_info stk, w) =
       Some (Inr (0 + of_nat (length (sch_op_queue s)), s', cs_enter self fresh_info stk,
         fold f (sch_op_queue s) w))"
    "sch_op_queue s' = []" "sch_outstanding_work s' = 0" "sch_stopped s'"
    using run_loop_in_order [where complete = complete and f = f and s = s and n = 0
        and self = self and task_run = task_run and stk = stk and w = w, OF assms(1) refl assms(2-5)] assms(6)
    by auto
  ultimately show ?thesis by (simp add: sched_run_def cs.leave_enter)
qed

text \<open>One thread calling \<open>run\<close> on a scheduler that holds only counted handler operations, whose
  handlers leave the scheduler alone, runs every handler once, in the order of the queue, returns
  their number, and leaves an empty, stopped scheduler and the caller's call stack as it was. In
  particular the call returns.\<close>

theorem run_executes_in_order:
  assumes "\<And>op s stk w. complete op (s, stk, w) = (s, stk, f op w)"
    and "Task_Operation \<notin> set (sch_op_queue s)" and "sch_op_queue s \<noteq> []" and "\<not> sch_stopped s"
    and "sch_outstanding_work s = of_nat (length (sch_op_queue s))"
    and "length (sch_op_queue s) < 2 ^ 64"
  shows "\<exists>s'. sched_run self complete task_run (s, stk, w) =
      Some (Inr (of_nat (length (sch_op_queue s)), s', stk, fold f (sch_op_queue s) w)) \<and>
    sch_op_queue s' = [] \<and> sch_outstanding_work s' = 0 \<and> sch_stopped s'"
  using assms by (rule run_in_order)

theorem run_executes_in_order_witness:
  "\<exists>s'. sched_run 0 (\<lambda>op (s, stk, w). (s, stk, w @ [op])) (\<lambda>_ st. st)
      (demo_raw\<lparr>sch_op_queue := [Executor_Op 3, Reactor_Op 4], sch_outstanding_work := 2\<rparr>, [], []) =
    Some (Inr (2, s', [], [Executor_Op 3, Reactor_Op 4])) \<and> sch_stopped s'"
  using run_executes_in_order
    [of "\<lambda>op (s, stk, w). (s, stk, w @ [op])" "\<lambda>op w. w @ [op]"
        "demo_raw\<lparr>sch_op_queue := [Executor_Op 3, Reactor_Op 4], sch_outstanding_work := 2\<rparr>"
        0 "\<lambda>_ st. st" "[]" "[]"]
  by (auto simp: demo_raw_def)

text \<open>C36. When a handler run by \<open>run\<close> hands its scheduler a continuation (\<open>defer\<close>, or in a
  one-thread scheduler any post), the operation goes to the thread's private queue,
  \<open>work_cleanup\<close> returns with the lock held, and the \<open>lock.lock()\<close> of the loop in \<open>run\<close> throws
  \<open>std::system_error\<close>: \<open>run\<close> never returns normally.\<close>

theorem run_throws_after_continuation:
  assumes "sch_outstanding_work s \<noteq> 0" and "\<not> sch_stopped s"
    and "sch_op_queue s = op # q" and "op \<noteq> Task_Operation"
    and "c \<or> sch_one_thread s"
    and "\<And>s stk w. complete op (s, stk, w) =
      (case post_immediate_completion self op' c s stk of (s', stk') \<Rightarrow> (s', stk', w))"
  shows "sched_run self complete task_run (s, stk, w) = Some (Inl Throw_System_Error)"
proof -
  let ?s1 = "unlock_for_more (q \<noteq> []) (s\<lparr>sch_op_queue := q\<rparr>)"
  let ?ti = "\<lparr>private_op_queue = [op'], private_outstanding_work = 1\<rparr>"
  have "post_immediate_completion self op' c ?s1 (cs_enter self fresh_info stk) =
      (?s1, cs_enter self ?ti stk)"
    using assms(5)
    by (auto simp: post_immediate_completion_def frame_simps cs_enter_def oq_push_def)
  then have "complete op (?s1, cs_enter self fresh_info stk, w) = (?s1, cs_enter self ?ti stk, w)"
    by (simp add: assms(6))
  with assms(2-4) have "run_loop self complete task_run 0 (s, cs_enter self fresh_info stk, w) =
      Some (Inl Throw_System_Error)"
    by (rule run_loop_throws) simp
  with assms(1) show ?thesis by (simp add: sched_run_def)
qed

theorem run_throws_after_continuation_witness:
  "sched_run 0 (\<lambda>op (s, stk, w). case post_immediate_completion 0 (Executor_Op 9) True s stk of
        (s', stk') \<Rightarrow> (s', stk', w)) (\<lambda>_ st. st)
      (demo_raw\<lparr>sch_op_queue := [Executor_Op 3], sch_outstanding_work := 1\<rparr>, [], ()) =
    Some (Inl Throw_System_Error)"
  by (rule run_throws_after_continuation [where op = "Executor_Op 3" and q = "[]" and c = True
        and op' = "Executor_Op 9"]) (simp_all add: demo_raw_def)

subsection \<open>Posting and shutting down\<close>

text \<open>\<open>post_immediate_completion\<close> on every branch: a continuation, or any operation of a
  one-thread scheduler, posted from inside a run goes to the end of the innermost run's private
  queue and is counted privately, without touching shared state; every other operation goes to
  the end of the shared queue and is counted in the shared counter. Nothing else moves.\<close>

theorem post_immediate_completion_branches:
  "post_immediate_completion self op c s stk =
     (s', stk') \<Longrightarrow>
   (if (sch_one_thread s \<or> c) \<and> can_dispatch self stk
    then s' = s \<and>
      cs_contains self stk' = map_option
        (\<lambda>ti. \<lparr>private_op_queue = private_op_queue ti @ [op],
               private_outstanding_work = private_outstanding_work ti + 1\<rparr>) (cs_contains self stk) \<and>
      (\<forall>k. k \<noteq> self \<longrightarrow> cs_contains k stk' = cs_contains k stk)
    else stk' = stk \<and> sch_op_queue s' = sch_op_queue s @ [op] \<and>
      sch_outstanding_work s' = sch_outstanding_work s + 1 \<and> sch_stopped s' = sch_stopped s \<and>
      flag_is_set (sch_wakeup_event s'))"
  by (auto simp: post_immediate_completion_def can_dispatch_def cs.lookup_modify oq_push_def
      push_op_def work_started_def frame_simps Let_def split: if_splits option.splits)

theorem post_immediate_completion_branches_witness:
  "sch_op_queue (fst (post_immediate_completion 0 (Executor_Op 1) True demo_sched [])) =
     [Task_Operation, Executor_Op 7, Executor_Op 1]"
  using post_immediate_completion_branches
    [of 0 "Executor_Op 1" True demo_sched "[]"
        "fst (post_immediate_completion 0 (Executor_Op 1) True demo_sched [])"
        "snd (post_immediate_completion 0 (Executor_Op 1) True demo_sched [])"]
  by (simp add: can_dispatch_def demo_sched_eq)

text \<open>In a one-thread scheduler, \<open>post_deferred_completions\<close> called from a thread inside \<open>run\<close>
  splices the wrong way: the scheduler is untouched, the thread's private queue is emptied, and
  both the completed operations and what that queue held end up in the caller's \<open>ops\<close>, a local
  queue of \<open>cancel_ops\<close>, \<open>deregister_descriptor\<close> and \<open>perform_io\<close> that is then destroyed. None
  of them is ever run.\<close>

theorem deferred_completions_lost:
  assumes "sch_one_thread s" and "cs_contains self stk = Some ti"
    and "post_deferred_completions self ops s stk = (s', stk', ops')"
  shows "s' = s \<and> ops' = ops @ private_op_queue ti \<and>
    cs_contains self stk' = Some (ti\<lparr>private_op_queue := []\<rparr>)"
  using assms
  by (auto simp: post_deferred_completions_def oq_splice_def cs.lookup_modify)

theorem deferred_completions_lost_witness:
  "\<exists>s' stk'. post_deferred_completions 0 [Reactor_Op 1, Reactor_Op 2]
      (demo_raw\<lparr>sch_one_thread := True\<rparr>) [(0, fresh_info)] = (s', stk', [Reactor_Op 1, Reactor_Op 2]) \<and>
    sch_op_queue s' = []"
proof -
  obtain s' stk' ops' where eq: "post_deferred_completions 0 [Reactor_Op 1, Reactor_Op 2]
      (demo_raw\<lparr>sch_one_thread := True\<rparr>) [(0, fresh_info)] = (s', stk', ops')"
    by (metis prod_cases3)
  from deferred_completions_lost [OF _ _ this] eq show ?thesis by (simp add: demo_raw_def)
qed

text \<open>\<open>scheduler::shutdown\<close> returns: it destroys every queued operation once, in order, except
  its own marker, and leaves an empty queue and no reactor.\<close>

theorem shutdown_destroys_everything:
  "sched_shutdown s = Some (Inr (s\<lparr>sch_shutdown := True, sch_op_queue := [], sch_task := None\<rparr>,
     filter (\<lambda>op. op \<noteq> Task_Operation) (sch_op_queue s)))"
proof -
  have "fold (\<lambda>op destroyed. if op \<noteq> Task_Operation then destroyed @ [op] else destroyed) q d =
      d @ filter (\<lambda>op. op \<noteq> Task_Operation) q" for q d
    by (induction q arbitrary: d) auto
  then show ?thesis by (simp add: sched_shutdown_def oq_drain)
qed

end
