(* ===== verification/Ordered_Map.thy ===== *)
theory Ordered_Map
  imports Prelude "HOL-Library.Multiset"
begin

text \<open>
  What the program uses of \<open>std::map\<close>: \<open>find\<close>, assignment through \<open>operator[]\<close>, \<open>clear\<close> and
  iteration in the order of the keys. The registry of services keeps one from names to services,
  the reactor one from descriptors to descriptor objects.
\<close>

subsection \<open>The operations\<close>

type_synonym ('k, 'v) ordered_map = "('k \<times> 'v) list"

fun map_find :: "('k, 'v) ordered_map \<Rightarrow> 'k \<Rightarrow> 'v option" where
  "map_find [] k = None"
| "map_find ((k', v) # m) k = (if k = k' then Some v else map_find m k)"

definition map_assign :: "'k::linorder \<Rightarrow> 'v \<Rightarrow> ('k, 'v) ordered_map \<Rightarrow> ('k, 'v) ordered_map" where
  "map_assign fd d m = filter (\<lambda>(k, v). k < fd) m @ [(fd, d)] @ filter (\<lambda>(k, v). fd < k) m"

definition keys_sorted :: "('k::linorder, 'v) ordered_map \<Rightarrow> bool" where
  "keys_sorted m \<longleftrightarrow> sorted_wrt (<) (map fst m)"

subsection \<open>The interface\<close>

text \<open>What the users of a map rely on: lookup after an assignment, and that iterating visits every
  key once with the value lookup finds.\<close>

locale ordered_table =
  fixes inv :: "'m \<Rightarrow> bool"
    and none :: 'm
    and find :: "'m \<Rightarrow> 'k \<Rightarrow> 'v option"
    and assign :: "'k \<Rightarrow> 'v \<Rightarrow> 'm \<Rightarrow> 'm"
    and entries :: "'m \<Rightarrow> ('k \<times> 'v) list"
  assumes inv_none: "inv none"
    and find_none: "find none k = None"
    and inv_assign: "inv m \<Longrightarrow> inv (assign k v m)"
    and find_assign: "inv m \<Longrightarrow> find (assign k v m) k' = (if k' = k then Some v else find m k')"
    and visited: "inv m \<Longrightarrow> (k, v) \<in> set (entries m) \<longleftrightarrow> find m k = Some v"
    and visited_once: "inv m \<Longrightarrow> distinct (map fst (entries m))"
begin

lemma entries_none: "entries none = []"
  using visited [OF inv_none] find_none by (cases "entries none") auto

lemma entries_assign_set:
  "inv m \<Longrightarrow> set (entries (assign k v m)) = insert (k, v) {e \<in> set (entries m). fst e \<noteq> k}"
  using visited visited [OF inv_assign] find_assign by (auto split: if_splits)

text \<open>Assigning a key that was absent adds one entry and moves no other.\<close>

lemma entries_assign_new:
  assumes "inv m" "find m k = None"
  shows "mset (entries (assign k v m)) = add_mset (k, v) (mset (entries m))"
proof -
  have dist: "distinct (entries m)" "distinct (entries (assign k v m))"
    using visited_once assms(1) inv_assign distinct_map by blast+
  have "set (entries (assign k v m)) = insert (k, v) (set (entries m))"
    using entries_assign_set [OF assms(1)] visited assms by fastforce
  moreover have "(k, v) \<notin> set (entries m)" using visited assms by fastforce
  ultimately have "mset (entries (assign k v m)) = mset ((k, v) # entries m)"
    using dist set_eq_iff_mset_eq_distinct [of "entries (assign k v m)" "(k, v) # entries m"] by simp
  then show ?thesis by simp
qed

lemma assign_present:
  assumes "inv m"
  shows "find (assign k v m) k = Some v" "find m k' = Some v' \<Longrightarrow> k' \<noteq> k \<Longrightarrow> find (assign k v m) k' = Some v'"
  using find_assign [OF assms] by auto

end

subsection \<open>The map of the library\<close>

lemma map_find_notin: "k \<notin> fst ` set m \<Longrightarrow> map_find m k = None"
  by (induction m) auto

lemma map_find_iff: "distinct (map fst m) \<Longrightarrow> map_find m k = Some v \<longleftrightarrow> (k, v) \<in> set m"
proof (induction m)
  case (Cons e m)
  obtain k' v' where e: "e = (k', v')" by (cases e)
  with Cons show ?case by (auto intro: rev_image_eqI)
qed simp

lemma keys_sorted_distinct: "keys_sorted m \<Longrightarrow> distinct (map fst m)"
  by (simp add: keys_sorted_def strict_sorted_iff)

lemma map_find_filter:
  "map_find (filter (\<lambda>(x, v). P x) m) k = (if P k then map_find m k else None)"
  by (induction m) auto

lemma map_find_append:
  "map_find (m @ m') k = (case map_find m k of None \<Rightarrow> map_find m' k | Some v \<Rightarrow> Some v)"
  by (induction m) auto

lemma map_assign_set: "set (map_assign k v m) = insert (k, v) {e \<in> set m. fst e \<noteq> k}"
  by (auto simp: map_assign_def)

lemma map_assign_sorted: "keys_sorted m \<Longrightarrow> keys_sorted (map_assign k v m)"
  by (auto simp: keys_sorted_def map_assign_def sorted_wrt_append sorted_wrt_map
      intro!: sorted_wrt_filter)

interpretation stdmap: ordered_table keys_sorted "[]" map_find map_assign "\<lambda>m. m"
proof unfold_locales
  fix m :: "('k::linorder, 'v) ordered_map" and k k' v
  assume inv: "keys_sorted m"
  show "keys_sorted (map_assign k v m)" using inv by (rule map_assign_sorted)
  show "map_find (map_assign k v m) k' = (if k' = k then Some v else map_find m k')"
    by (auto simp: map_assign_def map_find_append map_find_filter split: option.split)
  show "((k, v) \<in> set m) = (map_find m k = Some v)"
    using map_find_iff [OF keys_sorted_distinct [OF inv]] by simp
  show "distinct (map fst m)" by (rule keys_sorted_distinct [OF inv])
qed (simp_all add: keys_sorted_def)

end
