(* ===== verification/Reactor.thy ===== *)
theory Reactor
  imports Scheduler Ordered_Map "HOL-Library.Multiset"
begin

text \<open>
  \<^verbatim>\<open>epoll_reactor.hpp\<close>, \<^verbatim>\<open>epoll_reactor.cc\<close> and \<^verbatim>\<open>reactor_op.hpp\<close>: the descriptors registered with
  epoll, the operations waiting on each of them, and how they are started, performed, cancelled
  and handed to the scheduler.

  The kernel and the operations' own \<open>perform\<close> functions are parameters, over a state \<open>'io\<close> of the
  outside: \<open>epoll_ctl\<close> takes the command, the descriptor and the event mask and returns 0 or the
  error number; \<open>perform\<close> takes an operation and its \<open>ec_\<close> and returns its status and new \<open>ec_\<close>;
  what \<open>epoll_wait\<close> reported is an argument of \<open>reactor_run\<close>.
\<close>

subsection \<open>State\<close>

text \<open>The indices of the arrays of a descriptor: \<open>connect_op\<close> is the same index as \<open>write_op\<close>.\<close>

datatype op_type = Read_Op | Write_Op | Except_Op

definition all_op_types :: "op_type list" where
  "all_op_types = [Read_Op, Write_Op, Except_Op]"

datatype status = Not_Done | Done | Done_And_Exhausted

definition EPOLLIN :: uint32 where "EPOLLIN = 0x001"
definition EPOLLPRI :: uint32 where "EPOLLPRI = 0x002"
definition EPOLLOUT :: uint32 where "EPOLLOUT = 0x004"
definition EPOLLERR :: uint32 where "EPOLLERR = 0x008"
definition EPOLLHUP :: uint32 where "EPOLLHUP = 0x010"
definition EPOLLET :: uint32 where "EPOLLET = 0x80000000"

lemmas epoll_flags = EPOLLIN_def EPOLLPRI_def EPOLLOUT_def EPOLLERR_def EPOLLHUP_def EPOLLET_def

text \<open>\<open>ds_task_result\<close> is the \<open>task_result_\<close> a descriptor has as an operation: its ready events.\<close>

record descriptor_state =
  ds_descriptor :: int
  ds_registered_events :: uint32
  ds_op_queue :: "op_type \<Rightarrow> nat op_queue"
  ds_try_speculative :: "op_type \<Rightarrow> bool"
  ds_shutdown :: bool
  ds_task_result :: uint32

text \<open>
  The reactor. \<open>descriptor_state\<close> objects live at positions of \<open>rx_heap\<close>, None once deleted;
  \<open>rx_registered\<close> is the map from descriptors to them, \<open>rx_ec\<close> the \<open>ec_\<close> of every operation.
\<close>

record 'io reactor =
  rx_shutdown :: bool
  rx_registered :: "(int \<times> nat) list"
  rx_heap :: "descriptor_state option list"
  rx_ec :: "nat \<Rightarrow> error_code"
  rx_io :: 'io

datatype ctl = Ctl_Add | Ctl_Mod | Ctl_Del

type_synonym 'io epoll_ctl = "ctl \<Rightarrow> int \<Rightarrow> uint32 \<Rightarrow> 'io \<Rightarrow> error_code \<times> 'io"
type_synonym 'io perform = "nat \<Rightarrow> error_code \<Rightarrow> 'io \<Rightarrow> status \<times> error_code \<times> 'io"

text \<open>The state an operation of the reactor runs in: reactor, scheduler and the calling thread.\<close>

type_synonym 'io rstate = "'io reactor \<times> scheduler \<times> thread_stack"

definition deref :: "'io reactor \<Rightarrow> nat \<Rightarrow> descriptor_state option" where
  "deref rx d = (if d < length (rx_heap rx) then rx_heap rx ! d else None)"

definition write_ds :: "nat \<Rightarrow> descriptor_state \<Rightarrow> 'io reactor \<Rightarrow> 'io reactor" where
  "write_ds d ds rx = rx\<lparr>rx_heap := (rx_heap rx)[d := Some ds]\<rparr>"

definition set_ec :: "nat \<Rightarrow> error_code \<Rightarrow> 'io reactor \<Rightarrow> 'io reactor" where
  "set_ec op ec rx = rx\<lparr>rx_ec := (rx_ec rx)(op := ec)\<rparr>"

definition call_ctl :: "'io epoll_ctl \<Rightarrow> ctl \<Rightarrow> int \<Rightarrow> uint32 \<Rightarrow> 'io reactor \<Rightarrow> error_code \<times> 'io reactor" where
  "call_ctl epoll_ctl c fd ev rx = (let (e, io) = epoll_ctl c fd ev (rx_io rx) in (e, rx\<lparr>rx_io := io\<rparr>))"

definition call_perform :: "'io perform \<Rightarrow> nat \<Rightarrow> 'io reactor \<Rightarrow> status \<times> 'io reactor" where
  "call_perform perform op rx =
     (let (st, ec, io) = perform op (rx_ec rx op) (rx_io rx)
      in (st, set_ec op ec (rx\<lparr>rx_io := io\<rparr>)))"

subsection \<open>Registering descriptors\<close>

definition initial_events :: uint32 where
  "initial_events = EPOLLIN OR EPOLLERR OR EPOLLHUP OR EPOLLPRI OR EPOLLET"

definition fresh_descriptor :: "int \<Rightarrow> descriptor_state" where
  "fresh_descriptor fd =
     \<lparr>ds_descriptor = fd, ds_registered_events = initial_events, ds_op_queue = (\<lambda>_. []),
      ds_try_speculative = (\<lambda>_. True), ds_shutdown = False, ds_task_result = 0\<rparr>"

text \<open>Both return the result code, the new \<open>descriptor_data\<close> and the reactor.\<close>

definition register_descriptor ::
    "'io epoll_ctl \<Rightarrow> int \<Rightarrow> 'io reactor \<Rightarrow> error_code \<times> nat \<times> 'io reactor" where
  "register_descriptor epoll_ctl fd rx =
     (let d = length (rx_heap rx);
          rx1 = rx\<lparr>rx_heap := rx_heap rx @ [Some (fresh_descriptor fd)],
                   rx_registered := map_assign fd d (rx_registered rx)\<rparr>;
          (e, rx2) = call_ctl epoll_ctl Ctl_Add fd initial_events rx1
      in if e \<noteq> 0
         then if e = make_error_code operation_not_permitted
              then (0, d, write_ds d ((fresh_descriptor fd)\<lparr>ds_registered_events := 0\<rparr>) rx2)
              else (e, d, rx2)
         else (0, d, rx2))"

definition register_internal_descriptor ::
    "'io epoll_ctl \<Rightarrow> op_type \<Rightarrow> int \<Rightarrow> nat \<Rightarrow> 'io reactor \<Rightarrow> error_code \<times> nat \<times> 'io reactor" where
  "register_internal_descriptor epoll_ctl ot fd op rx =
     (let d = length (rx_heap rx);
          ds = fresh_descriptor fd;
          ds1 = ds\<lparr>ds_op_queue := (ds_op_queue ds)(ot := oq_push (ds_op_queue ds ot) op)\<rparr>;
          rx1 = rx\<lparr>rx_heap := rx_heap rx @ [Some ds1],
                   rx_registered := map_assign fd d (rx_registered rx)\<rparr>;
          (e, rx2) = call_ctl epoll_ctl Ctl_Add fd initial_events rx1
      in if e \<noteq> 0 then (e, d, rx2) else (0, d, rx2))"

subsection \<open>Starting operations\<close>

definition reactor_post_immediate :: "nat \<Rightarrow> nat \<Rightarrow> bool \<Rightarrow> 'io rstate \<Rightarrow> 'io rstate" where
  "reactor_post_immediate self op is_continuation st =
     (case st of (rx, s, stk) \<Rightarrow>
        (rx, post_immediate_completion self (Reactor_Op op) is_continuation s stk))"

definition fail_op :: "nat \<Rightarrow> nat \<Rightarrow> bool \<Rightarrow> error_code \<Rightarrow> 'io rstate \<Rightarrow> 'io rstate" where
  "fail_op self op is_continuation ec st =
     (case st of (rx, s, stk) \<Rightarrow> reactor_post_immediate self op is_continuation (set_ec op ec rx, s, stk))"

text \<open>The last two statements of \<open>start_op\<close>: queue the operation and count it.\<close>

definition enqueue_op :: "op_type \<Rightarrow> nat \<Rightarrow> nat \<Rightarrow> descriptor_state \<Rightarrow> 'io rstate \<Rightarrow> 'io rstate" where
  "enqueue_op ot op d ds st =
     (case st of (rx, s, stk) \<Rightarrow>
        (write_ds d (ds\<lparr>ds_op_queue := (ds_op_queue ds)(ot := oq_push (ds_op_queue ds ot) op)\<rparr>) rx,
         work_started s, stk))"

text \<open>From the test of \<open>registered_events_\<close> on, when speculation is allowed and did not finish.\<close>

definition start_after_speculation ::
    "'io epoll_ctl \<Rightarrow> nat \<Rightarrow> op_type \<Rightarrow> int \<Rightarrow> nat \<Rightarrow> bool \<Rightarrow> nat \<Rightarrow> descriptor_state \<Rightarrow> 'io rstate \<Rightarrow> 'io rstate"
where
  "start_after_speculation epoll_ctl self ot fd op is_continuation d ds st =
     (case st of (rx, s, stk) \<Rightarrow>
        if ds_registered_events ds = 0
        then fail_op self op is_continuation (make_error_code not_supported) st
        else if ot = Write_Op \<and> ds_registered_events ds AND EPOLLOUT = 0
        then (let ev = ds_registered_events ds OR EPOLLOUT;
                  (e, rx1) = call_ctl epoll_ctl Ctl_Mod fd ev rx
              in if e = 0
                 then enqueue_op ot op d
                        (ds\<lparr>ds_registered_events := ds_registered_events ds OR ev\<rparr>) (rx1, s, stk)
                 else fail_op self op is_continuation e (rx1, s, stk))
        else enqueue_op ot op d ds st)"

definition start_op ::
    "'io perform \<Rightarrow> 'io epoll_ctl \<Rightarrow> nat \<Rightarrow> op_type \<Rightarrow> int \<Rightarrow> nat option \<Rightarrow> nat \<Rightarrow> bool \<Rightarrow> bool \<Rightarrow>
     'io rstate \<Rightarrow> fault + 'io rstate"
where
  "start_op perform epoll_ctl self ot fd descriptor_data op is_continuation allow_speculative st =
     (case st of (rx, s, stk) \<Rightarrow>
      (case descriptor_data of
         None \<Rightarrow> Inr (fail_op self op is_continuation (make_error_code bad_file_descriptor) st)
       | Some d \<Rightarrow>
        (case deref rx d of
           None \<Rightarrow> Inl Undefined_Behaviour
         | Some ds \<Rightarrow>
            if ds_shutdown ds then Inr (reactor_post_immediate self op is_continuation st)
            else if oq_empty (ds_op_queue ds ot) then
              if allow_speculative \<and> (ot \<noteq> Read_Op \<or> oq_empty (ds_op_queue ds Except_Op)) then
                if ds_try_speculative ds ot then
                  (let (status, rx1) = call_perform perform op rx
                   in if status \<noteq> Not_Done
                      then Inr (reactor_post_immediate self op is_continuation
                        (if status = Done_And_Exhausted \<and> ds_registered_events ds \<noteq> 0
                         then write_ds d (ds\<lparr>ds_try_speculative := (ds_try_speculative ds)(ot := False)\<rparr>) rx1
                         else rx1, s, stk))
                      else Inr (start_after_speculation epoll_ctl self ot fd op is_continuation d ds (rx1, s, stk)))
                else Inr (start_after_speculation epoll_ctl self ot fd op is_continuation d ds st)
              else if ds_registered_events ds = 0
              then Inr (fail_op self op is_continuation (make_error_code not_supported) st)
              else
                (let ds1 = (if ot = Write_Op
                            then ds\<lparr>ds_registered_events := ds_registered_events ds AND EPOLLOUT\<rparr> else ds);
                     (e, rx1) = call_ctl epoll_ctl Ctl_Mod fd (ds_registered_events ds1 OR EPOLLOUT) rx
                 in Inr (enqueue_op ot op d ds1 (rx1, s, stk)))
            else Inr (enqueue_op ot op d ds st))))"

subsection \<open>Cancelling and deregistering\<close>

text \<open>
  The loops that empty a descriptor's queues into \<open>ops\<close>, clearing each operation's \<open>ec_\<close>:
  \<open>for (i...) while (op = op_queue_[i].front()) { op->ec_ = error_code(); pop; ops.push(op); }\<close>.
\<close>

definition take_queue ::
    "op_type \<Rightarrow> descriptor_state \<times> (nat \<Rightarrow> error_code) \<times> op_ref op_queue \<Rightarrow>
     (descriptor_state \<times> (nat \<Rightarrow> error_code) \<times> op_ref op_queue) option" where
  "take_queue ot acc =
     (case acc of (ds, ec, ops) \<Rightarrow>
        (case drain oq_front oq_pop (\<lambda>op (ec, ops). (ec(op := no_error), oq_push ops (Reactor_Op op)))
                (ds_op_queue ds ot) (ec, ops) of
           Some (Inr (q, ec', ops')) \<Rightarrow> Some (ds\<lparr>ds_op_queue := (ds_op_queue ds)(ot := q)\<rparr>, ec', ops')
         | _ \<Rightarrow> None))"

definition take_all_queues ::
    "descriptor_state \<Rightarrow> (nat \<Rightarrow> error_code) \<Rightarrow>
     (descriptor_state \<times> (nat \<Rightarrow> error_code) \<times> op_ref op_queue) option" where
  "take_all_queues ds ec =
     fold (\<lambda>ot acc. Option.bind acc (take_queue ot)) all_op_types (Some (ds, ec, []))"

text \<open>None: does not return. The last component is what the local \<open>ops\<close> holds when destroyed.\<close>

definition cancel_ops ::
    "nat \<Rightarrow> nat option \<Rightarrow> 'io rstate \<Rightarrow> (fault + 'io rstate \<times> op_ref op_queue) option" where
  "cancel_ops self descriptor_data st =
     (case st of (rx, s, stk) \<Rightarrow>
      (case descriptor_data of
         None \<Rightarrow> Some (Inr (st, []))
       | Some d \<Rightarrow>
        (case deref rx d of
           None \<Rightarrow> Some (Inl Undefined_Behaviour)
         | Some ds \<Rightarrow>
            (case take_all_queues ds (rx_ec rx) of
               None \<Rightarrow> None
             | Some (ds1, ec, ops) \<Rightarrow>
                 (case post_deferred_completions self ops s stk of
                    (s', stk', ops') \<Rightarrow>
                      Some (Inr ((write_ds d ds1 (rx\<lparr>rx_ec := ec\<rparr>), s', stk'), ops')))))))"

text \<open>The first component is the new value of the reference \<open>descriptor_data\<close>.\<close>

definition deregister_descriptor ::
    "'io epoll_ctl \<Rightarrow> nat \<Rightarrow> int \<Rightarrow> nat option \<Rightarrow> bool \<Rightarrow> 'io rstate \<Rightarrow>
     (fault + nat option \<times> 'io rstate \<times> op_ref op_queue) option" where
  "deregister_descriptor epoll_ctl self fd descriptor_data closing st =
     (case st of (rx, s, stk) \<Rightarrow>
      (case descriptor_data of
         None \<Rightarrow> Some (Inr (None, st, []))
       | Some d \<Rightarrow>
        (case deref rx d of
           None \<Rightarrow> Some (Inl Undefined_Behaviour)
         | Some ds \<Rightarrow>
            if \<not> ds_shutdown ds then
              (let rx1 = (if \<not> closing \<and> ds_registered_events ds \<noteq> 0
                          then snd (call_ctl epoll_ctl Ctl_Del fd 0 rx) else rx)
               in case take_all_queues ds (rx_ec rx1) of
                    None \<Rightarrow> None
                  | Some (ds1, ec, ops) \<Rightarrow>
                      (case post_deferred_completions self ops s stk of
                         (s', stk', ops') \<Rightarrow>
                           Some (Inr (Some d,
                             (write_ds d (ds1\<lparr>ds_descriptor := -1, ds_shutdown := True\<rparr>)
                                (rx1\<lparr>rx_ec := ec\<rparr>), s', stk'), ops'))))
            else Some (Inr (None, st, [])))))"

text \<open>
  \<open>ops.push(descriptor_data->op_queue_[i])\<close> for every \<open>i\<close>, with queues of different element types.
\<close>

definition push_all_queues :: "descriptor_state \<Rightarrow> op_ref op_queue \<Rightarrow> (descriptor_state \<times> op_ref op_queue) option" where
  "push_all_queues ds ops =
     fold (\<lambda>ot acc. Option.bind acc (\<lambda>(ds, ops).
             map_option (\<lambda>(ops', q). (ds\<lparr>ds_op_queue := (ds_op_queue ds)(ot := q)\<rparr>, ops'))
               (oq_push_from Reactor_Op ops (ds_op_queue ds ot))))
          all_op_types (Some (ds, ops))"

definition deregister_internal_descriptor ::
    "'io epoll_ctl \<Rightarrow> nat \<Rightarrow> int \<Rightarrow> nat option \<Rightarrow> 'io rstate \<Rightarrow>
     (fault + nat option \<times> 'io rstate \<times> op_ref op_queue) option" where
  "deregister_internal_descriptor epoll_ctl self fd descriptor_data st =
     (case st of (rx, s, stk) \<Rightarrow>
      (case descriptor_data of
         None \<Rightarrow> Some (Inr (None, st, []))
       | Some d \<Rightarrow>
        (case deref rx d of
           None \<Rightarrow> Some (Inl Undefined_Behaviour)
         | Some ds \<Rightarrow>
            if \<not> ds_shutdown ds then
              (let rx1 = snd (call_ctl epoll_ctl Ctl_Del fd 0 rx)
               in case push_all_queues ds [] of
                    None \<Rightarrow> None
                  | Some (ds1, ops) \<Rightarrow>
                      (case post_deferred_completions self ops s stk of
                         (s', stk', ops') \<Rightarrow>
                           Some (Inr (Some d,
                             (write_ds d (ds1\<lparr>ds_descriptor := -1, ds_shutdown := True\<rparr>) rx1, s', stk'), ops'))))
            else Some (Inr (None, st, [])))))"

text \<open>\<open>shutdown\<close>: every registered descriptor's queues are pushed to \<open>ops\<close> and the object deleted.\<close>

fun shutdown_descriptors ::
    "(int \<times> nat) list \<Rightarrow> 'io reactor \<times> op_ref op_queue \<Rightarrow> (fault + 'io reactor \<times> op_ref op_queue) option" where
  "shutdown_descriptors [] acc = Some (Inr acc)"
| "shutdown_descriptors ((fd, d) # rest) (rx, ops) =
     (case deref rx d of
        None \<Rightarrow> Some (Inl Undefined_Behaviour)
      | Some ds \<Rightarrow>
          (case push_all_queues ds ops of
             None \<Rightarrow> None
           | Some (ds1, ops') \<Rightarrow>
               shutdown_descriptors rest (rx\<lparr>rx_heap := (rx_heap rx)[d := None]\<rparr>, ops')))"

definition reactor_shutdown :: "'io reactor \<Rightarrow> (fault + 'io reactor \<times> op_ref op_queue) option" where
  "reactor_shutdown rx = shutdown_descriptors (rx_registered rx) (rx\<lparr>rx_shutdown := True\<rparr>, [])"

subsection \<open>Waiting for events\<close>

text \<open>\<open>timeout\<close>: the argument of \<open>epoll_wait\<close> computed from \<open>usec\<close> (C division of a positive number).\<close>

definition run_timeout :: "int \<Rightarrow> int" where
  "run_timeout usec = (if usec \<noteq> 0 then (if usec < 0 then -1 else (usec - 1) div 1000 + 1) else 0)"

text \<open>What an event's \<open>data.ptr\<close> points to.\<close>

datatype event_ptr = Interrupter | Descriptor nat

text \<open>
  The loop over the reported events. A descriptor not yet in \<open>ops\<close> has its ready events set and is
  pushed; one that is has the events added.
\<close>

fun reactor_run ::
    "(event_ptr \<times> uint32) list \<Rightarrow> 'io reactor \<Rightarrow> op_ref op_queue \<Rightarrow> fault + 'io reactor \<times> op_ref op_queue"
where
  "reactor_run [] rx ops = Inr (rx, ops)"
| "reactor_run ((Interrupter, ev) # events) rx ops = reactor_run events rx ops"
| "reactor_run ((Descriptor d, ev) # events) rx ops =
     (case deref rx d of
        None \<Rightarrow> Inl Undefined_Behaviour
      | Some ds \<Rightarrow>
          if \<not> oq_is_enqueued ops (Descriptor_State d)
          then reactor_run events (write_ds d (ds\<lparr>ds_task_result := ev\<rparr>) rx)
                 (oq_push ops (Descriptor_State d))
          else reactor_run events
                 (write_ds d (ds\<lparr>ds_task_result := ds_task_result ds OR ev\<rparr>) rx) ops)"

subsection \<open>Performing operations\<close>

definition flag_of :: "op_type \<Rightarrow> uint32" where
  "flag_of ot = (case ot of Read_Op \<Rightarrow> EPOLLIN | Write_Op \<Rightarrow> EPOLLOUT | Except_Op \<Rightarrow> EPOLLPRI)"

text \<open>
  The inner loop of \<open>perform_io\<close> over one queue: what is left of the queue, the operations moved to
  \<open>io_cleanup.ops_\<close>, whether the loop ended on an exhausted operation, and the reactor.
\<close>

fun perform_queue ::
    "'io perform \<Rightarrow> nat op_queue \<Rightarrow> nat list \<Rightarrow> 'io reactor \<Rightarrow> nat op_queue \<times> nat list \<times> bool \<times> 'io reactor"
where
  "perform_queue perform [] ops rx = ([], ops, False, rx)"
| "perform_queue perform (op # q) ops rx =
     (case call_perform perform op rx of (status, rx1) \<Rightarrow>
        if status \<noteq> Not_Done
        then if status = Done_And_Exhausted then (q, ops @ [op], True, rx1)
             else perform_queue perform q (ops @ [op]) rx1
        else (op # q, ops, False, rx1))"

definition perform_one_type ::
    "'io perform \<Rightarrow> uint32 \<Rightarrow> op_type \<Rightarrow> descriptor_state \<times> nat list \<times> 'io reactor \<Rightarrow>
     descriptor_state \<times> nat list \<times> 'io reactor"
where
  "perform_one_type perform events ot acc =
     (case acc of (ds, ops, rx) \<Rightarrow>
        if events AND (flag_of ot OR EPOLLERR OR EPOLLHUP) \<noteq> 0
        then (case perform_queue perform (ds_op_queue ds ot) ops rx of
                (q, ops', exhausted, rx') \<Rightarrow>
                  (ds\<lparr>ds_op_queue := (ds_op_queue ds)(ot := q),
                      ds_try_speculative := (ds_try_speculative ds)(ot := \<not> exhausted)\<rparr>, ops', rx'))
        else acc)"

definition perform_all_types ::
    "'io perform \<Rightarrow> uint32 \<Rightarrow> descriptor_state \<Rightarrow> 'io reactor \<Rightarrow> descriptor_state \<times> nat list \<times> 'io reactor"
where
  "perform_all_types perform events ds rx =
     fold (perform_one_type perform events) (rev all_op_types) (ds, [], rx)"

text \<open>
  \<open>perform_io\<close> with the destructor of \<open>io_cleanup\<close>. It returns the first operation, which
  \<open>do_complete\<close> completes, and what the local queue holds when destroyed. The unconditional
  \<open>io_cleanup.ops_.pop()\<close> is undefined when no operation was done.
\<close>

definition perform_io ::
    "'io perform \<Rightarrow> nat \<Rightarrow> nat \<Rightarrow> uint32 \<Rightarrow> 'io rstate \<Rightarrow> fault + nat \<times> 'io rstate \<times> op_ref op_queue"
where
  "perform_io perform self d events st =
     (case st of (rx, s, stk) \<Rightarrow>
      (case deref rx d of
         None \<Rightarrow> Inl Undefined_Behaviour
       | Some ds \<Rightarrow>
          (case perform_all_types perform events ds rx of (ds', done_ops, rx') \<Rightarrow>
            (case oq_pop done_ops of
               Inl e \<Rightarrow> Inl e
             | Inr rest \<Rightarrow>
                 if \<not> oq_empty rest
                 then (case post_deferred_completions self (map Reactor_Op rest) s stk of
                         (s', stk', ops') \<Rightarrow> Inr (hd done_ops, (write_ds d ds' rx', s', stk'), ops'))
                 else Inr (hd done_ops, (write_ds d ds' rx', s, stk), [])))))"

text \<open>\<open>do_complete\<close>: with an owner, perform and tell which operation to complete; without, nothing.\<close>

definition do_complete ::
    "'io perform \<Rightarrow> nat \<Rightarrow> bool \<Rightarrow> nat \<Rightarrow> size_t \<Rightarrow> 'io rstate \<Rightarrow>
     fault + nat option \<times> 'io rstate \<times> op_ref op_queue"
where
  "do_complete perform self owner d bytes_transferred st =
     (if owner
      then (case perform_io perform self d (ucast bytes_transferred) st of
              Inl e \<Rightarrow> Inl e
            | Inr (op, st', ops') \<Rightarrow> Inr (Some op, st', ops'))
      else Inr (None, st, []))"

subsection \<open>Pending operations\<close>

definition ds_pending :: "descriptor_state \<Rightarrow> nat multiset" where
  "ds_pending ds = mset (ds_op_queue ds Read_Op) + mset (ds_op_queue ds Write_Op) +
     mset (ds_op_queue ds Except_Op)"

definition slot_pending :: "descriptor_state option \<Rightarrow> nat multiset" where
  "slot_pending slot = (case slot of None \<Rightarrow> {#} | Some ds \<Rightarrow> ds_pending ds)"

text \<open>The operations waiting in all the descriptors of a reactor.\<close>

definition pending :: "'io reactor \<Rightarrow> nat multiset" where
  "pending rx = sum_list (map slot_pending (rx_heap rx))"

lemma deref_Some: "deref rx d = Some ds \<longleftrightarrow> d < length (rx_heap rx) \<and> rx_heap rx ! d = Some ds"
  by (simp add: deref_def)

lemma pending_write_ds:
  assumes "deref rx d = Some ds"
  shows "pending (write_ds d ds' rx) + ds_pending ds = pending rx + ds_pending ds'"
proof -
  have d: "d < length (rx_heap rx)" "rx_heap rx ! d = Some ds" using assms by (simp_all add: deref_Some)
  show ?thesis
    using sum_list_map_update_nat [OF d(1), of slot_pending "Some ds'"] d(2)
    by (simp add: pending_def write_ds_def slot_pending_def)
qed

lemma pending_write_more:
  assumes "deref rx d = Some ds" "ds_pending ds' = ds_pending ds + m"
  shows "pending (write_ds d ds' rx) = pending rx + m"
  using pending_write_ds [OF assms(1), of ds'] assms(2) by simp

lemma pending_write_less:
  assumes "deref rx d = Some ds" "ds_pending ds = ds_pending ds' + m"
  shows "pending rx = pending (write_ds d ds' rx) + m"
  using pending_write_ds [OF assms(1), of ds'] assms(2)
  by (simp add: ac_simps)

lemma heap_frame [frame_simps, simp]:
  "rx_heap (set_ec op ec rx) = rx_heap rx"
  "rx_heap (snd (call_ctl epoll_ctl c fd ev rx)) = rx_heap rx"
  "rx_heap (snd (call_perform perform op rx)) = rx_heap rx"
  by (simp_all add: set_ec_def call_ctl_def call_perform_def split: prod.splits)

lemma heap_kept:
  "call_ctl epoll_ctl c fd ev rx = (e, rx') \<Longrightarrow> rx_heap rx' = rx_heap rx"
  "call_perform perform op rx = (status, rx') \<Longrightarrow> rx_heap rx' = rx_heap rx"
  by (metis heap_frame snd_conv)+

lemma same_heap:
  assumes "rx_heap rx' = rx_heap rx"
  shows "pending rx' = pending rx" "deref rx' d = deref rx d"
  using assms by (simp_all add: pending_def deref_def)

lemma ds_pending_push:
  "ds_pending (ds\<lparr>ds_op_queue := (ds_op_queue ds)(ot := oq_push (ds_op_queue ds ot) op)\<rparr>) =
     ds_pending ds + {#op#}"
  by (cases ot) (simp_all add: ds_pending_def oq_push_def)

lemma ds_pending_fields [simp]:
  "ds_pending (ds\<lparr>ds_registered_events := e\<rparr>) = ds_pending ds"
  "ds_pending (ds\<lparr>ds_try_speculative := ts\<rparr>) = ds_pending ds"
  "ds_pending (ds\<lparr>ds_task_result := r\<rparr>) = ds_pending ds"
  "ds_pending (ds\<lparr>ds_descriptor := i, ds_shutdown := b\<rparr>) = ds_pending ds"
  by (simp_all add: ds_pending_def)

subsection \<open>Outcomes of the operations\<close>

lemma enqueue_op_pending:
  assumes "deref rx d = Some ds" "ds_pending ds1 = ds_pending ds"
    and "enqueue_op ot op d ds1 (rx, s, stk) = (rx', s', stk')"
  shows "pending rx' = add_mset op (pending rx) \<and> s' = work_started s \<and> stk' = stk"
  using assms pending_write_more [OF assms(1)]
  by (auto simp: enqueue_op_def ds_pending_push)

lemma fail_op_outcome:
  "fail_op self op c ec (rx, s, stk) = (rx', s', stk') \<Longrightarrow>
   pending rx' = pending rx \<and> (s', stk') = post_immediate_completion self (Reactor_Op op) c s stk"
  by (auto simp: fail_op_def reactor_post_immediate_def set_ec_def pending_def)

text \<open>A start either posts the operation for completion or leaves it pending and counted.\<close>

definition posted :: "nat \<Rightarrow> nat \<Rightarrow> bool \<Rightarrow> 'io rstate \<Rightarrow> 'io rstate \<Rightarrow> bool" where
  "posted self op c st st' \<longleftrightarrow>
     (case st of (rx, s, stk) \<Rightarrow> case st' of (rx', s', stk') \<Rightarrow>
        pending rx' = pending rx \<and>
        (s', stk') = post_immediate_completion self (Reactor_Op op) c s stk)"

definition left_pending :: "nat \<Rightarrow> 'io rstate \<Rightarrow> 'io rstate \<Rightarrow> bool" where
  "left_pending op st st' \<longleftrightarrow>
     (case st of (rx, s, stk) \<Rightarrow> case st' of (rx', s', stk') \<Rightarrow>
        pending rx' = add_mset op (pending rx) \<and> s' = work_started s \<and> stk' = stk)"

lemma fail_op_posted: "posted self op c (rx, s, stk) (fail_op self op c ec (rx, s, stk))"
  using fail_op_outcome by (cases "fail_op self op c ec (rx, s, stk)") (simp add: posted_def)

lemma post_posted:
  "pending rx' = pending rx \<Longrightarrow>
   posted self op c (rx, s, stk) (reactor_post_immediate self op c (rx', s, stk))"
  by (simp add: posted_def reactor_post_immediate_def split: prod.split)

lemma enqueue_left_pending:
  assumes "deref rx d = Some ds" "ds_pending ds1 = ds_pending ds"
  shows "left_pending op (rx, s, stk) (enqueue_op ot op d ds1 (rx, s, stk))"
  using enqueue_op_pending [OF assms]
  by (cases "enqueue_op ot op d ds1 (rx, s, stk)") (simp add: left_pending_def)

lemma outcome_same_heap:
  assumes "rx_heap rx1 = rx_heap rx"
  shows "posted self op c (rx1, s, stk) st' = posted self op c (rx, s, stk) st'"
    "left_pending op (rx1, s, stk) st' = left_pending op (rx, s, stk) st'"
  using same_heap(1) [OF assms] by (simp_all add: posted_def left_pending_def)

lemma start_after_speculation_outcome:
  assumes ds: "deref rx d = Some ds"
  shows "posted self op c (rx, s, stk) (start_after_speculation epoll_ctl self ot fd op c d ds (rx, s, stk)) \<or>
    left_pending op (rx, s, stk) (start_after_speculation epoll_ctl self ot fd op c d ds (rx, s, stk))"
proof -
  let ?ev = "ds_registered_events ds OR EPOLLOUT"
  obtain e rx1 where ctl: "call_ctl epoll_ctl Ctl_Mod fd ?ev rx = (e, rx1)"
    by (cases "call_ctl epoll_ctl Ctl_Mod fd ?ev rx")
  have heap: "rx_heap rx1 = rx_heap rx" using heap_kept(1) [OF ctl] .
  have ds1: "deref rx1 d = Some ds" using ds same_heap(2) [OF heap] by simp
  let ?ds = "ds\<lparr>ds_registered_events := ds_registered_events ds OR ?ev\<rparr>"
  have "left_pending op (rx1, s, stk) (enqueue_op ot op d ?ds (rx1, s, stk))"
    using enqueue_left_pending [OF ds1] by simp
  moreover have "left_pending op (rx, s, stk) (enqueue_op ot op d ds (rx, s, stk))"
    using enqueue_left_pending [OF ds] by simp
  moreover have "posted self op c (rx1, s, stk) (fail_op self op c e (rx1, s, stk))"
    "posted self op c (rx, s, stk) (fail_op self op c (make_error_code not_supported) (rx, s, stk))"
    by (rule fail_op_posted)+
  ultimately show ?thesis
    by (auto simp: start_after_speculation_def ctl outcome_same_heap [OF heap])
qed

lemma start_op_outcome:
  assumes "start_op perform epoll_ctl self ot fd data op c spec (rx, s, stk) = Inr st'"
  shows "posted self op c (rx, s, stk) st' \<or> left_pending op (rx, s, stk) st'"
proof (cases data)
  case None
  with assms show ?thesis by (auto simp: start_op_def fail_op_posted)
next
  case (Some d)
  with assms obtain ds where ds: "deref rx d = Some ds"
    by (auto simp: start_op_def split: option.splits)
  obtain status rx1 where pf: "call_perform perform op rx = (status, rx1)"
    by (cases "call_perform perform op rx")
  have heap: "rx_heap rx1 = rx_heap rx" using heap_kept(2) [OF pf] .
  have ds1: "deref rx1 d = Some ds" using ds same_heap(2) [OF heap] by simp
  let ?ds = "ds\<lparr>ds_try_speculative := (ds_try_speculative ds)(ot := False)\<rparr>"
  have "pending (write_ds d ?ds rx1) = pending rx"
    using pending_write_more [OF ds1, of ?ds "{#}"] same_heap(1) [OF heap] by simp
  then have performed: "posted self op c (rx, s, stk) (reactor_post_immediate self op c
      (if status = Done_And_Exhausted \<and> ds_registered_events ds \<noteq> 0 then write_ds d ?ds rx1 else rx1, s, stk))"
    using same_heap(1) [OF heap] by (intro post_posted) simp
  let ?spec = "start_after_speculation epoll_ctl self ot fd op c d ds"
  have after: "posted self op c (rx, s, stk) (?spec (rx1, s, stk)) \<or> left_pending op (rx, s, stk) (?spec (rx1, s, stk))"
    "posted self op c (rx, s, stk) (?spec (rx, s, stk)) \<or> left_pending op (rx, s, stk) (?spec (rx, s, stk))"
    using start_after_speculation_outcome [OF ds1] start_after_speculation_outcome [OF ds]
    by (auto simp: outcome_same_heap [OF heap])
  have blind: "left_pending op (rx, s, stk) st'"
    if "(case call_ctl epoll_ctl Ctl_Mod fd ev rx of (e, rx2) \<Rightarrow> Inr (enqueue_op ot' op d dw (rx2, s, stk))) = Inr st'"
      and dw: "ds_pending dw = ds_pending ds" for ev dw ot'
  proof -
    obtain e rx2 where ctl: "call_ctl epoll_ctl Ctl_Mod fd ev rx = (e, rx2)"
      by (cases "call_ctl epoll_ctl Ctl_Mod fd ev rx")
    have heap2: "rx_heap rx2 = rx_heap rx" using heap_kept(1) [OF ctl] .
    have "deref rx2 d = Some ds" using ds same_heap(2) [OF heap2] by simp
    from enqueue_left_pending [OF this dw, of op s stk ot'] that(1) show ?thesis
      by (simp add: ctl outcome_same_heap(2) [OF heap2])
  qed
  have queued: "left_pending op (rx, s, stk) (enqueue_op ot op d ds (rx, s, stk))"
    using enqueue_left_pending [OF ds] by simp
  from assms Some ds performed after queued show ?thesis
    by (simp add: start_op_def pf Let_def fail_op_posted post_posted split: if_split_asm)
      (auto simp: fail_op_posted post_posted dest!: blind)
qed

lemma take_queue_eq:
  "take_queue ot (ds, ec, ops) =
     Some (ds\<lparr>ds_op_queue := (ds_op_queue ds)(ot := [])\<rparr>,
       (\<lambda>x. if x \<in> set (ds_op_queue ds ot) then no_error else ec x),
       ops @ map Reactor_Op (ds_op_queue ds ot))"
proof -
  have "fold (\<lambda>op (ec, ops). (ec(op := no_error), oq_push ops (Reactor_Op op))) q (ec, ops) =
      ((\<lambda>x. if x \<in> set q then no_error else ec x), ops @ map Reactor_Op q)" for q ec ops
    by (induction q arbitrary: ec ops) (auto simp: oq_push_def)
  then show ?thesis by (simp add: take_queue_def oq_drain)
qed

definition queued_ops :: "descriptor_state \<Rightarrow> nat list" where
  "queued_ops ds = ds_op_queue ds Read_Op @ ds_op_queue ds Write_Op @ ds_op_queue ds Except_Op"

lemma mset_queued_ops: "mset (queued_ops ds) = ds_pending ds"
  by (simp add: queued_ops_def ds_pending_def)

lemma all_op_types_upd: "f(Read_Op := x, Write_Op := x, Except_Op := x) = (\<lambda>_. x)"
proof
  fix ot show "(f(Read_Op := x, Write_Op := x, Except_Op := x)) ot = x" by (cases ot) simp_all
qed

lemma take_all_queues_eq:
  "take_all_queues ds ec =
     Some (ds\<lparr>ds_op_queue := (\<lambda>_. [])\<rparr>,
       (\<lambda>x. if x \<in> set (queued_ops ds) then no_error else ec x), map Reactor_Op (queued_ops ds))"
  by (auto simp: take_all_queues_def all_op_types_def take_queue_eq queued_ops_def all_op_types_upd fun_eq_iff)

lemma push_all_queues_eq:
  "push_all_queues ds ops = (if queued_ops ds = [] then Some (ds, ops) else None)"
proof (cases "queued_ops ds = []")
  case True
  then have "ds_op_queue ds = (\<lambda>_. [])"
    by (auto simp: queued_ops_def fun_eq_iff) (metis op_type.exhaust)
  then have "ds\<lparr>ds_op_queue := (\<lambda>_. [])\<rparr> = ds" by (cases ds) simp
  with \<open>ds_op_queue ds = (\<lambda>_. [])\<close> True show ?thesis
    by (simp add: push_all_queues_def all_op_types_def fun_upd_idem)
next
  case False
  have stuck: "oq_push_from Reactor_Op ops (ds_op_queue ds ot) =
      (if ds_op_queue ds ot = [] then Some (ops, []) else None)" for ot ops ds
    by (cases "ds_op_queue ds ot") (simp_all add: oq_push_from_not_returning)
  from False show ?thesis
    by (auto simp: push_all_queues_def all_op_types_def stuck queued_ops_def split: if_splits)
qed

lemma perform_queue_prefix:
  "perform_queue perform q ops rx = (q', ops', ex, rx') \<Longrightarrow>
   \<exists>dn. q = dn @ q' \<and> ops' = ops @ dn \<and> rx_heap rx' = rx_heap rx"
proof (induction perform q ops rx rule: perform_queue.induct)
  case (1 perform ops rx)
  then show ?case by simp
next
  case (2 perform op q ops rx)
  obtain status rx1 where pf: "call_perform perform op rx = (status, rx1)"
    by (cases "call_perform perform op rx")
  with 2 heap_kept(2) [OF pf] show ?case by (fastforce split: if_splits)
qed

lemma perform_one_type_split:
  assumes "perform_one_type perform events ot (ds, ops, rx) = (ds', ops', rx')"
  shows "\<exists>dn. ds_op_queue ds = (ds_op_queue ds')(ot := dn @ ds_op_queue ds' ot) \<and> ops' = ops @ dn \<and>
    rx_heap rx' = rx_heap rx \<and> (events AND (flag_of ot OR EPOLLERR OR EPOLLHUP) = 0 \<longrightarrow> dn = [])"
proof (cases "events AND (flag_of ot OR EPOLLERR OR EPOLLHUP) = 0")
  case True
  with assms show ?thesis by (simp add: perform_one_type_def)
next
  case False
  obtain q' ops1 ex rx1 where pq: "perform_queue perform (ds_op_queue ds ot) ops rx = (q', ops1, ex, rx1)"
    by (metis prod_cases4)
  from perform_queue_prefix [OF this] False assms pq show ?thesis
    by (auto simp: perform_one_type_def fun_eq_iff)
qed

text \<open>Per type, a prefix of the queue is performed; exceptional first, reads last.\<close>

lemma perform_all_types_split:
  assumes "perform_all_types perform events ds rx = (ds', ops, rx')"
  shows "\<exists>x w r. ops = x @ w @ r \<and> ds_op_queue ds Except_Op = x @ ds_op_queue ds' Except_Op \<and>
    ds_op_queue ds Write_Op = w @ ds_op_queue ds' Write_Op \<and>
    ds_op_queue ds Read_Op = r @ ds_op_queue ds' Read_Op \<and> rx_heap rx' = rx_heap rx"
proof -
  obtain ds1 ops1 rx1 where 1: "perform_one_type perform events Except_Op (ds, [], rx) = (ds1, ops1, rx1)"
    by (metis prod_cases3)
  obtain ds2 ops2 rx2 where 2: "perform_one_type perform events Write_Op (ds1, ops1, rx1) = (ds2, ops2, rx2)"
    by (metis prod_cases3)
  have 3: "perform_one_type perform events Read_Op (ds2, ops2, rx2) = (ds', ops, rx')"
    using assms by (simp add: perform_all_types_def all_op_types_def 1 2)
  from perform_one_type_split [OF 1] perform_one_type_split [OF 2] perform_one_type_split [OF 3]
  show ?thesis by auto
qed

lemma perform_all_types_pending:
  assumes "perform_all_types perform events ds rx = (ds', ops, rx')"
  shows "ds_pending ds = ds_pending ds' + mset ops" "rx_heap rx' = rx_heap rx"
  using perform_all_types_split [OF assms] by (auto simp: ds_pending_def)

text \<open>What \<open>perform_io\<close> returns, and what it leaves behind.\<close>

lemma perform_io_outcome:
  assumes "perform_io perform self d events (rx, s, stk) = Inr (op, (rx', s', stk'), lost)"
  shows "\<exists>rest. pending rx = pending rx' + mset (op # rest) \<and>
    (s', stk', lost) = (if rest = [] then (s, stk, [])
      else post_deferred_completions self (map Reactor_Op rest) s stk)"
proof -
  obtain ds where ds: "deref rx d = Some ds"
    using assms by (auto simp: perform_io_def split: option.splits)
  obtain ds' ops rx1 where all: "perform_all_types perform events ds rx = (ds', ops, rx1)"
    by (metis prod_cases3)
  obtain rest where rest: "ops = op # rest" and rx': "rx' = write_ds d ds' rx1"
      and out: "(s', stk', lost) = (if rest = [] then (s, stk, [])
        else post_deferred_completions self (map Reactor_Op rest) s stk)"
    using assms ds all
    by (cases ops) (auto simp: perform_io_def oq_empty_def split: if_splits prod.splits)
  note pend = perform_all_types_pending [OF all]
  have "deref rx1 d = Some ds" using ds same_heap(2) [OF pend(2)] by simp
  from pending_write_less [OF this pend(1)] have "pending rx = pending rx' + mset (op # rest)"
    using same_heap(1) [OF pend(2)] rest rx' by simp
  with out show ?thesis by blast
qed

end
