(* ===== verification/Reactor_Properties.thy ===== *)
theory Reactor_Properties
  imports Threads Reactor
begin

text \<open>
  What the reactor promises: each started operation is completed or left pending, never both;
  cancellation and deregistration hand every pending operation to the scheduler; events reach
  their descriptors; performing takes operations in order. Calls that give up a descriptor's lock before they
  turn to the scheduler are also given in two halves. Its operations simulate the steps that
  Threads allows a thread, with the operations pending in the descriptors as \<open>sh_pending\<close>.
\<close>

subsection \<open>Concrete reactors for the witnesses\<close>

definition demo_rx :: "unit reactor" where
  "demo_rx = \<lparr>rx_shutdown = False, rx_registered = [], rx_heap = [], rx_ec = (\<lambda>_. 0), rx_io = ()\<rparr>"

definition demo_s :: scheduler where
  "demo_s = \<lparr>sch_one_thread = False, sch_wakeup_event = \<lparr>ev_state = 0\<rparr>, sch_task = None,
     sch_task_interrupted = False, sch_outstanding_work = 0, sch_op_queue = [], sch_stopped = False,
     sch_shutdown = False, sch_concurrency_hint = 0, sch_effects = []\<rparr>"

definition ctl_ok :: "unit epoll_ctl" where
  "ctl_ok c fd ev io = (0, io)"

definition perform_even :: "unit perform" where
  "perform_even op ec io = ((if even op then Done else Not_Done), ec, io)"

text \<open>Descriptor 4 with reads 2, 4 and 5 and the write 6 waiting.\<close>

definition demo_ds :: descriptor_state where
  "demo_ds = (fresh_descriptor 4)\<lparr>ds_op_queue := (\<lambda>_. [])(Read_Op := [2, 4, 5], Write_Op := [6])\<rparr>"

definition demo_rx4 :: "unit reactor" where
  "demo_rx4 = demo_rx\<lparr>rx_registered := [(4, 0)], rx_heap := [Some demo_ds]\<rparr>"

lemma demo_deref [simp]: "deref demo_rx4 0 = Some demo_ds" "deref demo_rx d = None"
  by (simp_all add: deref_def demo_rx4_def demo_rx_def)

lemma demo_perform [simp]: "call_perform perform_even op rx = (if even op then Done else Not_Done, rx)"
  by (simp add: call_perform_def perform_even_def set_ec_def)

lemma demo_pending: "pending demo_rx4 = {#2, 4, 5, 6#}"
  by (simp add: pending_def demo_rx4_def slot_pending_def ds_pending_def demo_ds_def)

subsection \<open>Starting operations\<close>

text \<open>C23. Starting an operation settles it exactly once: either it is posted for completion, the
  descriptors' queues unchanged, or it is added to a queue and counted as outstanding work,
  the scheduler's queue unchanged.\<close>

theorem start_op_settles_once:
  assumes "start_op perform epoll_ctl self ot fd data op c spec (rx, s, stk) = Inr (rx', s', stk')"
  shows "pending rx' = pending rx \<and>
      (s', stk') = post_immediate_completion self (Reactor_Op op) c s stk \<or>
    pending rx' = add_mset op (pending rx) \<and> s' = work_started s \<and> stk' = stk"
  using start_op_outcome [OF assms] by (auto simp: posted_def left_pending_def)

theorem start_op_settles_once_witness:
  "\<exists>rx' s' stk'. start_op perform_even ctl_ok 0 Read_Op 4 (Some 0) 7 False True (demo_rx4, demo_s, []) =
      Inr (rx', s', stk') \<and>
    (pending rx' = {#2, 4, 5, 6#} \<and>
      (s', stk') = post_immediate_completion 0 (Reactor_Op 7) False demo_s [] \<or>
     pending rx' = {#2, 4, 5, 6, 7#} \<and> s' = work_started demo_s \<and> stk' = [])"
proof -
  obtain rx' s' stk' where eq: "start_op perform_even ctl_ok 0 Read_Op 4 (Some 0) 7 False True
      (demo_rx4, demo_s, []) = Inr (rx', s', stk')"
    by (simp add: start_op_def demo_ds_def fresh_descriptor_def enqueue_op_def oq_empty_def)
  from start_op_settles_once [OF eq] eq show ?thesis by (auto simp: demo_pending add_mset_commute)
qed

text \<open>The error paths of \<open>start_op\<close>: without descriptor data the operation is posted with
  \<open>EBADF\<close>; on a descriptor that was shut down it is posted with its \<open>ec_\<close> as it was, without being
  performed; on one epoll cannot watch it is posted with \<open>ENOTSUP\<close> unless speculation finishes it
  or it queues behind another.\<close>

theorem start_op_error_paths:
  "start_op perform epoll_ctl self ot fd None op c spec (rx, s, stk) =
     Inr (rx\<lparr>rx_ec := (rx_ec rx)(op := make_error_code bad_file_descriptor)\<rparr>,
       post_immediate_completion self (Reactor_Op op) c s stk) \<and>
   (deref rx d = Some ds \<and> ds_shutdown ds \<longrightarrow>
     start_op perform epoll_ctl self ot fd (Some d) op c spec (rx, s, stk) =
       Inr (rx, post_immediate_completion self (Reactor_Op op) c s stk)) \<and>
   (deref rx d = Some ds \<and> \<not> ds_shutdown ds \<and> ds_registered_events ds = 0 \<and>
      ds_op_queue ds ot = [] \<and> \<not> (spec \<and> ds_try_speculative ds ot) \<longrightarrow>
     start_op perform epoll_ctl self ot fd (Some d) op c spec (rx, s, stk) =
       Inr (rx\<lparr>rx_ec := (rx_ec rx)(op := make_error_code not_supported)\<rparr>,
         post_immediate_completion self (Reactor_Op op) c s stk))"
  by (auto simp: start_op_def fail_op_def reactor_post_immediate_def set_ec_def oq_empty_def
      start_after_speculation_def)

theorem start_op_error_paths_witness:
  "rx_ec (fst (projr (start_op perform_even ctl_ok 0 Write_Op 4 (Some 0) 8 False False
      (demo_rx\<lparr>rx_heap := [Some ((fresh_descriptor 4)\<lparr>ds_registered_events := 0\<rparr>)]\<rparr>, demo_s, [])))) 8 = 95 \<and>
   start_op perform_even ctl_ok 0 Write_Op 4 (Some 0) 8 False True
      (demo_rx\<lparr>rx_heap := [Some ((fresh_descriptor 4)\<lparr>ds_shutdown := True\<rparr>)]\<rparr>, demo_s, []) =
     Inr (demo_rx\<lparr>rx_heap := [Some ((fresh_descriptor 4)\<lparr>ds_shutdown := True\<rparr>)]\<rparr>,
       post_immediate_completion 0 (Reactor_Op 8) False demo_s [])"
proof -
  let ?unwatched = "(fresh_descriptor 4)\<lparr>ds_registered_events := 0\<rparr>"
  let ?shut = "(fresh_descriptor 4)\<lparr>ds_shutdown := True\<rparr>"
  note paths = start_op_error_paths [of perform_even ctl_ok 0 _ 4 8 False _ _ demo_s "[]" 0]
  show ?thesis
    using paths [of Write_Op False "demo_rx\<lparr>rx_heap := [Some ?unwatched]\<rparr>" ?unwatched]
      paths [of Write_Op True "demo_rx\<lparr>rx_heap := [Some ?shut]\<rparr>" ?shut]
    by (simp add: deref_def fresh_descriptor_def)
qed

text \<open>A write started without speculation on an idle descriptor makes the reactor forget what
  the descriptor was registered for: \<open>registered_events_ &= EPOLLOUT\<close> leaves 0 for a descriptor
  registered as \<open>register_descriptor\<close> does. The next operation that finds its queue empty and is
  not finished by speculation then fails with \<open>ENOTSUP\<close>.\<close>

theorem blind_write_drops_registration:
  assumes "deref rx d = Some ds" and "\<not> ds_shutdown ds" and "ds_op_queue ds Write_Op = []"
    and "ds_registered_events ds = initial_events"
  shows "\<exists>rx1 st1. start_op perform ctl self Write_Op fd (Some d) op c False (rx, s, stk) = Inr (rx1, st1) \<and>
    (\<exists>rx2 st2. start_op perform ctl self Read_Op fd (Some d) op' c' False (rx1, st1) = Inr (rx2, st2) \<and>
      (ds_op_queue ds Read_Op = [] \<longrightarrow> rx_ec rx2 op' = make_error_code not_supported))"
proof -
  have zero: "initial_events AND EPOLLOUT = 0" "initial_events \<noteq> 0"
    by (simp_all add: initial_events_def epoll_flags)
  obtain e rx0 where ctl: "call_ctl ctl Ctl_Mod fd EPOLLOUT rx = (e, rx0)"
    by (cases "call_ctl ctl Ctl_Mod fd EPOLLOUT rx")
  have d: "d < length (rx_heap rx0)" "rx_heap rx0 = rx_heap rx"
    using heap_kept(1) [OF ctl] assms(1) by (simp_all add: deref_Some)
  let ?ds = "ds\<lparr>ds_registered_events := 0, ds_op_queue := (ds_op_queue ds)(Write_Op := [op])\<rparr>"
  have 1: "start_op perform ctl self Write_Op fd (Some d) op c False (rx, s, stk) =
      Inr (write_ds d ?ds rx0, work_started s, stk)"
    using assms zero by (simp add: start_op_def oq_empty_def oq_push_def ctl enqueue_op_def)
  have there: "deref (write_ds d ?ds rx0) d = Some ?ds" using d by (simp add: deref_def write_ds_def)
  show ?thesis
  proof (cases "ds_op_queue ds Read_Op = []")
    case True
    with 1 there assms(2) show ?thesis
      by (simp add: start_op_def oq_empty_def fail_op_def reactor_post_immediate_def set_ec_def
          split: prod.split)
  next
    case False
    with 1 there assms(2) show ?thesis
      by (simp add: start_op_def oq_empty_def enqueue_op_def)
  qed
qed

theorem blind_write_drops_registration_witness:
  "\<exists>rx1 st1 rx2 st2. start_op perform_even ctl_ok 0 Write_Op 4 (Some 0) 1 False False
      (demo_rx\<lparr>rx_heap := [Some (fresh_descriptor 4)]\<rparr>, demo_s, []) = Inr (rx1, st1) \<and>
    start_op perform_even ctl_ok 0 Read_Op 4 (Some 0) 3 False False (rx1, st1) = Inr (rx2, st2) \<and>
    rx_ec rx2 3 = 95"
  using blind_write_drops_registration [of "demo_rx\<lparr>rx_heap := [Some (fresh_descriptor 4)]\<rparr>" 0
      "fresh_descriptor 4" perform_even ctl_ok 0 4 1 False demo_s "[]" 3 False]
  by (auto simp: deref_def fresh_descriptor_def)

subsection \<open>Cancelling and deregistering\<close>

text \<open>C24. In a scheduler for several threads \<open>cancel_ops\<close> returns with every operation of the
  descriptor at the end of the scheduler's queue, reads first, then writes, then exceptional ones,
  each in the order it was started; the queues are empty, nothing is dropped and the work count is
  unchanged. Each operation's \<open>ec_\<close> reads success.\<close>

theorem cancel_ops_posts_everything:
  assumes "deref rx d = Some ds" and "\<not> sch_one_thread s"
  shows "\<exists>rx' s'. cancel_ops self (Some d) (rx, s, stk) = Some (Inr ((rx', s', stk), [])) \<and>
    deref rx' d = Some (ds\<lparr>ds_op_queue := (\<lambda>_. [])\<rparr>) \<and>
    sch_op_queue s' = sch_op_queue s @ map Reactor_Op
      (ds_op_queue ds Read_Op @ ds_op_queue ds Write_Op @ ds_op_queue ds Except_Op) \<and>
    sch_outstanding_work s' = sch_outstanding_work s \<and>
    (\<forall>op. op \<in># ds_pending ds \<longrightarrow> rx_ec rx' op = no_error) \<and>
    pending rx = pending rx' + ds_pending ds"
proof -
  let ?ds = "ds\<lparr>ds_op_queue := (\<lambda>_. [])\<rparr>"
  let ?rx = "rx\<lparr>rx_ec := \<lambda>x. if x \<in> set (queued_ops ds) then no_error else rx_ec rx x\<rparr>"
  obtain s' where post: "post_deferred_completions self (map Reactor_Op (queued_ops ds)) s stk = (s', stk, [])"
      and s': "sch_op_queue s' = sch_op_queue s @ map Reactor_Op (queued_ops ds)"
        "sch_outstanding_work s' = sch_outstanding_work s"
    using assms(2)
    by (auto simp: post_deferred_completions_def oq_splice_def oq_empty_def frame_simps Let_def)
  have "deref ?rx d = Some ds" using assms(1) by (simp add: deref_Some)
  from pending_write_less [OF this, of ?ds "ds_pending ds"] have "pending ?rx = pending (write_ds d ?ds ?rx) + ds_pending ds"
    by (simp add: ds_pending_def)
  then have pend: "pending rx = pending (write_ds d ?ds ?rx) + ds_pending ds"
    by (simp add: pending_def)
  have "cancel_ops self (Some d) (rx, s, stk) = Some (Inr ((write_ds d ?ds ?rx, s', stk), []))"
    using assms(1) post by (simp add: cancel_ops_def take_all_queues_eq)
  moreover have "deref (write_ds d ?ds ?rx) d = Some ?ds"
    using assms(1) by (auto simp: deref_Some write_ds_def)
  moreover have "rx_ec (write_ds d ?ds ?rx) op = no_error" if "op \<in># ds_pending ds" for op
    using that by (simp add: write_ds_def mset_queued_ops [symmetric])
  ultimately show ?thesis using pend s' by (auto simp: queued_ops_def)
qed

theorem cancel_ops_posts_everything_witness:
  "\<exists>rx' s'. cancel_ops 0 (Some 0) (demo_rx4, demo_s, []) = Some (Inr ((rx', s', []), [])) \<and>
     sch_op_queue s' = map Reactor_Op [2, 4, 5, 6] \<and> pending rx' = {#}"
  using cancel_ops_posts_everything [of demo_rx4 0 demo_ds demo_s 0 "[]"]
  by (auto simp: demo_pending demo_ds_def ds_pending_def demo_s_def)

text \<open>C35. Deregistering a descriptor hands its operations over as \<open>cancel_ops\<close> does and shuts it
  down: whatever is started on it afterwards is posted at once, never performed and never left
  pending; a second deregistration only clears the caller's pointer.\<close>

theorem deregistered_descriptor_is_closed:
  assumes "deref rx d = Some ds" and "\<not> ds_shutdown ds" and "\<not> sch_one_thread s"
  shows "\<exists>rx' s'. deregister_descriptor ctl self fd (Some d) closing (rx, s, stk) =
      Some (Inr (Some d, (rx', s', stk), [])) \<and>
    sch_op_queue s' = sch_op_queue s @ map Reactor_Op (queued_ops ds) \<and>
    pending rx = pending rx' + ds_pending ds \<and>
    (\<forall>perform ot op c spec s1 stk1. start_op perform ctl self ot fd (Some d) op c spec (rx', s1, stk1) =
       Inr (rx', post_immediate_completion self (Reactor_Op op) c s1 stk1)) \<and>
    deregister_descriptor ctl self fd (Some d) closing (rx', s', stk) =
      Some (Inr (None, (rx', s', stk), []))"
proof -
  define rx1 where "rx1 = (if \<not> closing \<and> ds_registered_events ds \<noteq> 0
    then snd (call_ctl ctl Ctl_Del fd 0 rx) else rx)"
  define rx2 where "rx2 = rx1\<lparr>rx_ec := \<lambda>x. if x \<in> set (queued_ops ds) then no_error else rx_ec rx1 x\<rparr>"
  let ?ds = "ds\<lparr>ds_op_queue := (\<lambda>_. []), ds_descriptor := -1, ds_shutdown := True\<rparr>"
  have heap: "rx_heap rx2 = rx_heap rx" by (simp add: rx2_def rx1_def)
  note same = same_heap [OF heap]
  obtain s' where post: "post_deferred_completions self (map Reactor_Op (queued_ops ds)) s stk = (s', stk, [])"
      and s': "sch_op_queue s' = sch_op_queue s @ map Reactor_Op (queued_ops ds)"
    using assms(3)
    by (auto simp: post_deferred_completions_def oq_splice_def oq_empty_def frame_simps Let_def)
  have there: "deref (write_ds d ?ds rx2) d = Some ?ds"
    using assms(1) heap by (auto simp: deref_Some write_ds_def)
  have "pending rx = pending (write_ds d ?ds rx2) + ds_pending ds"
    using pending_write_less [of rx2 d ds ?ds "ds_pending ds"] assms(1) same by (simp add: ds_pending_def)
  moreover have "deregister_descriptor ctl self fd (Some d) closing (rx, s, stk) =
      Some (Inr (Some d, (write_ds d ?ds rx2, s', stk), []))"
    using assms post
    by (simp add: deregister_descriptor_def take_all_queues_eq rx2_def [symmetric] rx1_def [symmetric])
  ultimately show ?thesis
    using s' there
    by (intro exI [of _ "write_ds d ?ds rx2"] exI [of _ s'])
       (simp add: start_op_def reactor_post_immediate_def deregister_descriptor_def)
qed

theorem deregistered_descriptor_is_closed_witness:
  "\<exists>rx' s'. deregister_descriptor ctl_ok 0 4 (Some 0) False (demo_rx4, demo_s, []) =
      Some (Inr (Some 0, (rx', s', []), [])) \<and>
    sch_op_queue s' = map Reactor_Op [2, 4, 5, 6] \<and>
    start_op perform_even ctl_ok 0 Read_Op 4 (Some 0) 8 False True (rx', s', []) =
      Inr (rx', post_immediate_completion 0 (Reactor_Op 8) False s' [])"
proof -
  have "\<not> ds_shutdown demo_ds" "\<not> sch_one_thread demo_s"
    by (simp_all add: demo_ds_def fresh_descriptor_def demo_s_def)
  from deregistered_descriptor_is_closed [OF demo_deref(1) this, of ctl_ok 0 4 False "[]"]
  show ?thesis by (auto simp: queued_ops_def demo_ds_def demo_s_def)
qed

text \<open>\<open>deregister_internal_descriptor\<close> returns exactly when no operation is waiting on the
  descriptor: pushing a queue that is not empty onto \<open>ops\<close> never ends, with the descriptor's mutex
  held. A descriptor that \<open>register_internal_descriptor\<close> made has an operation waiting.\<close>

theorem internal_deregistration_returns_iff_idle:
  assumes "deref rx d = Some ds" and "\<not> ds_shutdown ds"
  shows "(deregister_internal_descriptor ctl self fd (Some d) (rx, s, stk) = None \<longleftrightarrow> ds_pending ds \<noteq> {#}) \<and>
    (register_internal_descriptor ctl ot fd' op rx = (0, d', rx') \<longrightarrow>
      deregister_internal_descriptor ctl self fd' (Some d') (rx', s, stk) = None)"
proof -
  have stuck: "deregister_internal_descriptor ctl self fd (Some d) (rx, s, stk) = None \<longleftrightarrow> ds_pending ds \<noteq> {#}"
    if "deref rx d = Some ds" "\<not> ds_shutdown ds" for rx d ds fd
    using that mset_queued_ops [of ds]
    by (auto simp: deregister_internal_descriptor_def push_all_queues_eq Let_def split: prod.splits)
  have "deregister_internal_descriptor ctl self fd' (Some d') (rx', s, stk) = None"
    if reg: "register_internal_descriptor ctl ot fd' op rx = (0, d', rx')"
  proof -
    let ?ds = "(fresh_descriptor fd')\<lparr>ds_op_queue := (\<lambda>_. [])(ot := [op])\<rparr>"
    have "rx_heap rx' = rx_heap rx @ [Some ?ds] \<and> d' = length (rx_heap rx)"
      using reg heap_kept(1)
      by (fastforce simp: register_internal_descriptor_def Let_def fresh_descriptor_def oq_push_def
          split: prod.splits if_splits)
    then have "deref rx' d' = Some ?ds" by (simp add: deref_def)
    from stuck [OF this] show ?thesis
      by (cases ot) (simp_all add: ds_pending_def fresh_descriptor_def)
  qed
  with stuck [OF assms] show ?thesis by blast
qed

theorem internal_deregistration_returns_iff_idle_witness:
  "deregister_internal_descriptor ctl_ok 0 4 (Some 0) (demo_rx4, demo_s, []) = None \<and>
   (\<exists>d rx. register_internal_descriptor ctl_ok Read_Op 9 1 demo_rx4 = (0, d, rx) \<and>
     deregister_internal_descriptor ctl_ok 0 9 (Some d) (rx, demo_s, []) = None)"
proof -
  have "\<not> ds_shutdown demo_ds" "ds_pending demo_ds \<noteq> {#}"
    by (simp_all add: demo_ds_def fresh_descriptor_def ds_pending_def)
  moreover obtain d rx where "register_internal_descriptor ctl_ok Read_Op 9 1 demo_rx4 = (0, d, rx)"
    by (simp add: register_internal_descriptor_def call_ctl_def ctl_ok_def Let_def)
  ultimately show ?thesis
    using internal_deregistration_returns_iff_idle [OF demo_deref(1), of ctl_ok 0 4 demo_s "[]"] by blast
qed

subsection \<open>The registered descriptors\<close>

text \<open>
  The map is in order of the descriptors, no object is registered twice, and every registered
  object is alive. Objects are only deleted by \<open>shutdown\<close>.
\<close>

definition registered_ok :: "'io reactor \<Rightarrow> bool" where
  "registered_ok rx \<longleftrightarrow>
     keys_sorted (rx_registered rx) \<and> distinct (map snd (rx_registered rx)) \<and>
     list_all (\<lambda>(fd, d). deref rx d \<noteq> None) (rx_registered rx)"

text \<open>What the operations other than \<open>shutdown\<close> do to the objects and the map.\<close>

definition grows :: "'io reactor \<Rightarrow> 'io reactor \<Rightarrow> bool" where
  "grows rx rx' \<longleftrightarrow> rx_registered rx' = rx_registered rx \<and> (\<forall>d. deref rx d \<noteq> None \<longrightarrow> deref rx' d \<noteq> None)"

lemma registered_ok_grows: "registered_ok rx \<Longrightarrow> grows rx rx' \<Longrightarrow> registered_ok rx'"
  by (auto simp: registered_ok_def grows_def list_all_iff)

lemma grows_refl: "grows rx rx"
  by (simp add: grows_def)

lemma grows_trans: "grows rx rx1 \<Longrightarrow> grows rx1 rx2 \<Longrightarrow> grows rx rx2"
  by (simp add: grows_def)

lemma grows_same: "rx_heap rx' = rx_heap rx \<Longrightarrow> rx_registered rx' = rx_registered rx \<Longrightarrow> grows rx rx'"
  by (simp add: grows_def deref_def)

lemma grows_write_ds: "grows rx (write_ds d ds rx)"
proof -
  have "(rx_heap rx)[d := Some ds] ! e \<noteq> None" if "rx_heap rx ! e \<noteq> None" "e < length (rx_heap rx)" for e
    using that by (cases "d = e") simp_all
  then show ?thesis by (simp add: grows_def deref_def write_ds_def)
qed

lemma grows_field: "grows rx (set_ec op ec rx)" "grows rx (snd (call_ctl ctl c fd ev rx))"
  "grows rx (snd (call_perform perform op rx))" "grows rx (rx\<lparr>rx_ec := f\<rparr>)"
  by (auto intro!: grows_same simp: set_ec_def call_ctl_def call_perform_def split: prod.splits)

lemmas grows_intros = grows_refl grows_write_ds grows_field grows_trans [OF _ grows_write_ds]
  grows_trans [OF grows_field(2)] grows_trans [OF grows_field(4) grows_write_ds]

lemma grows_ctl: "call_ctl ctl c fd ev rx = (e, rx') \<Longrightarrow> grows rx rx'"
  using grows_field(2) [of rx ctl c fd ev] by simp

lemma grows_call_perform: "call_perform perform op rx = (status, rx') \<Longrightarrow> grows rx rx'"
  using grows_field(3) [of rx perform op] by simp

lemma map_assign_values:
  assumes "distinct (map snd m)" "d \<notin> set (map snd m)"
  shows "distinct (map snd (map_assign fd d m))"
proof -
  have "distinct m" using assms(1) by (simp add: distinct_map)
  moreover have "inj_on snd (set m)" using assms(1) by (simp add: distinct_map)
  ultimately have "distinct (map snd (filter P m))" for P
    by (simp add: distinct_map inj_on_subset)
  moreover have "set (map snd (filter (\<lambda>(k, v). k < fd) m)) \<inter> set (map snd (filter (\<lambda>(k, v). fd < k) m)) = {}"
    using \<open>inj_on snd (set m)\<close> by (fastforce dest: inj_onD)
  ultimately show ?thesis using assms(2) by (auto simp: map_assign_def)
qed

lemma registered_ok_new:
  assumes "registered_ok rx"
    and "rx_heap rx' = rx_heap rx @ [Some ds]"
    and "rx_registered rx' = map_assign fd (length (rx_heap rx)) (rx_registered rx)"
  shows "registered_ok rx'"
proof -
  have live: "deref rx d \<noteq> None \<Longrightarrow> deref rx' d \<noteq> None" "deref rx' (length (rx_heap rx)) \<noteq> None" for d
    using assms(2) by (auto simp: deref_def nth_append)
  have "length (rx_heap rx) \<notin> set (map snd (rx_registered rx))"
    using assms(1) by (auto simp: registered_ok_def list_all_iff deref_def)
  with assms(1,3) live map_assign_sorted map_assign_values show ?thesis
    by (fastforce simp: registered_ok_def list_all_iff map_assign_set)
qed

lemma register_grows:
  "register_descriptor ctl fd rx = (e, d, rx') \<Longrightarrow> registered_ok rx \<Longrightarrow> registered_ok rx'"
  "register_internal_descriptor ctl ot fd op rx = (e, d, rx') \<Longrightarrow> registered_ok rx \<Longrightarrow> registered_ok rx'"
proof -
  have new: "registered_ok rx2" if "registered_ok rx"
    and "call_ctl ctl Ctl_Add fd ev (rx\<lparr>rx_heap := rx_heap rx @ [Some ds],
        rx_registered := map_assign fd (length (rx_heap rx)) (rx_registered rx)\<rparr>) = (e, rx2)" for ev ds rx2 e
    by (rule registered_ok_grows [OF registered_ok_new [OF that(1), where ds = ds and fd = fd] grows_ctl [OF that(2)]])
      simp_all
  show "register_descriptor ctl fd rx = (e, d, rx') \<Longrightarrow> registered_ok rx \<Longrightarrow> registered_ok rx'"
    by (auto simp: register_descriptor_def Let_def split: prod.splits if_splits
        intro: new registered_ok_grows [OF _ grows_write_ds])
  show "register_internal_descriptor ctl ot fd op rx = (e, d, rx') \<Longrightarrow> registered_ok rx \<Longrightarrow> registered_ok rx'"
    by (auto simp: register_internal_descriptor_def Let_def split: prod.splits if_splits intro: new)
qed

lemma enqueue_op_grows: "enqueue_op ot op d ds (rx, s, stk) = (rx', st) \<Longrightarrow> grows rx rx'"
  by (auto simp: enqueue_op_def grows_write_ds)

lemma fail_op_grows: "fail_op self op c ec (rx, s, stk) = (rx', st) \<Longrightarrow> grows rx rx'"
  by (auto simp: fail_op_def reactor_post_immediate_def grows_field)

lemma start_after_speculation_grows:
  "start_after_speculation ctl self ot fd op c d ds (rx, s, stk) = (rx', st) \<Longrightarrow> grows rx rx'"
  by (auto simp: start_after_speculation_def Let_def split: if_splits prod.splits
      dest!: enqueue_op_grows fail_op_grows grows_ctl intro: grows_trans)

lemma start_op_grows:
  "start_op perform ctl self ot fd data op c spec (rx, s, stk) = Inr (rx', st) \<Longrightarrow> grows rx rx'"
  by (auto simp: start_op_def Let_def reactor_post_immediate_def split: if_splits prod.splits option.splits
      dest!: enqueue_op_grows fail_op_grows grows_ctl start_after_speculation_grows grows_call_perform
      intro: grows_trans grows_refl grows_write_ds)


lemma cancel_ops_grows:
  "cancel_ops self data (rx, s, stk) = Some (Inr ((rx', st), lost)) \<Longrightarrow> grows rx rx'"
  by (auto simp: cancel_ops_def take_all_queues_eq split: option.splits prod.splits
      intro: grows_intros)

lemma deregister_descriptor_grows:
  assumes "deregister_descriptor ctl self fd data closing (rx, s, stk) = Some (Inr (data', (rx', st), lost))"
  shows "grows rx rx'"
  using assms
  by (auto simp: deregister_descriptor_def take_all_queues_eq Let_def split: option.splits prod.splits if_splits
      intro: grows_intros)

lemma deregister_internal_grows:
  assumes "deregister_internal_descriptor ctl self fd data (rx, s, stk) = Some (Inr (data', (rx', st), lost))"
  shows "grows rx rx'"
  using assms
  by (auto simp: deregister_internal_descriptor_def push_all_queues_eq Let_def
      split: option.splits prod.splits if_splits intro: grows_intros)

lemma perform_queue_grows:
  "perform_queue perform q ops rx = (q', ops', ex, rx') \<Longrightarrow> grows rx rx'"
proof (induction perform q ops rx rule: perform_queue.induct)
  case (1 perform ops rx)
  then show ?case by (simp add: grows_refl)
next
  case (2 perform op q ops rx)
  obtain status rx1 where pf: "call_perform perform op rx = (status, rx1)"
    by (cases "call_perform perform op rx")
  with 2 grows_call_perform [OF pf] show ?case by (auto split: if_splits intro: grows_trans)
qed

lemma perform_one_type_grows:
  "perform_one_type perform events ot (ds, ops, rx) = (ds', ops', rx') \<Longrightarrow> grows rx rx'"
  by (auto simp: perform_one_type_def grows_refl split: if_splits prod.splits dest: perform_queue_grows)

lemma perform_io_grows:
  assumes "perform_io perform self d events (rx, s, stk) = Inr (op, (rx', st), lost)"
  shows "grows rx rx'"
proof -
  obtain ds ds' ops rx1 where all: "perform_all_types perform events ds rx = (ds', ops, rx1)"
      and rx': "rx' = write_ds d ds' rx1"
    using assms by (auto simp: perform_io_def split: option.splits prod.splits sum.splits if_splits)
  obtain ds1 ops1 rxa where 1: "perform_one_type perform events Except_Op (ds, [], rx) = (ds1, ops1, rxa)"
    by (metis prod_cases3)
  obtain ds2 ops2 rxb where 2: "perform_one_type perform events Write_Op (ds1, ops1, rxa) = (ds2, ops2, rxb)"
    by (metis prod_cases3)
  have 3: "perform_one_type perform events Read_Op (ds2, ops2, rxb) = (ds', ops, rx1)"
    using all by (simp add: perform_all_types_def all_op_types_def 1 2)
  have "grows rx rx1"
    using grows_trans [OF grows_trans [OF 1 [THEN perform_one_type_grows] 2 [THEN perform_one_type_grows]]
        3 [THEN perform_one_type_grows]] .
  then show ?thesis unfolding rx' by (rule grows_trans [OF _ grows_write_ds])
qed

lemma reactor_run_grows:
  "reactor_run events rx ops = Inr (rx', ops') \<Longrightarrow> grows rx rx'"
  by (induction events rx ops rule: reactor_run.induct)
     (auto simp: grows_refl split: option.splits if_splits intro: grows_trans [OF grows_write_ds])

text \<open>Every operation on the reactor short of its shutdown.\<close>

inductive reactor_step :: "'io perform \<Rightarrow> 'io epoll_ctl \<Rightarrow> 'io reactor \<Rightarrow> 'io reactor \<Rightarrow> bool"
  for perform ctl
where
  reg: "register_descriptor ctl fd rx = (e, d, rx') \<Longrightarrow> reactor_step perform ctl rx rx'"
| reg_internal: "register_internal_descriptor ctl ot fd op rx = (e, d, rx') \<Longrightarrow> reactor_step perform ctl rx rx'"
| start: "start_op perform ctl self ot fd data op c spec (rx, s, stk) = Inr (rx', st) \<Longrightarrow>
    reactor_step perform ctl rx rx'"
| cancel: "cancel_ops self data (rx, s, stk) = Some (Inr ((rx', st), lost)) \<Longrightarrow> reactor_step perform ctl rx rx'"
| dereg: "deregister_descriptor ctl self fd data closing (rx, s, stk) = Some (Inr (data', (rx', st), lost)) \<Longrightarrow>
    reactor_step perform ctl rx rx'"
| dereg_internal: "deregister_internal_descriptor ctl self fd data (rx, s, stk) =
      Some (Inr (data', (rx', st), lost)) \<Longrightarrow> reactor_step perform ctl rx rx'"
| io: "perform_io perform self d events (rx, s, stk) = Inr (op, (rx', st), lost) \<Longrightarrow> reactor_step perform ctl rx rx'"
| events: "reactor_run evs rx ops = Inr (rx', ops') \<Longrightarrow> reactor_step perform ctl rx rx'"

lemma reactor_step_ok: "reactor_step perform ctl rx rx' \<Longrightarrow> registered_ok rx \<Longrightarrow> registered_ok rx'"
proof (induction rule: reactor_step.induct)
  case reg
  then show ?case using register_grows(1) by blast
next
  case reg_internal
  then show ?case using register_grows(2) by blast
qed (erule registered_ok_grows, erule start_op_grows cancel_ops_grows deregister_descriptor_grows
       deregister_internal_grows perform_io_grows reactor_run_grows)+

text \<open>C25. Whatever sequence of operations a reactor that starts empty goes through, its map stays
  sorted by descriptor, names no descriptor object twice and only live ones: no later operation
  on a registered object touches freed memory.\<close>

theorem registered_descriptors_stay_alive:
  assumes "(reactor_step perform ctl)\<^sup>*\<^sup>* rx0 rx" and "rx_registered rx0 = []"
  shows "sorted_wrt (<) (map fst (rx_registered rx)) \<and> distinct (map snd (rx_registered rx)) \<and>
    (\<forall>(fd, d) \<in> set (rx_registered rx). \<exists>ds. deref rx d = Some ds)"
proof -
  have "registered_ok rx"
    using assms(1)
    by (induction rule: rtranclp_induct) (auto simp: registered_ok_def keys_sorted_def assms(2) dest: reactor_step_ok)
  then show ?thesis by (auto simp: registered_ok_def list_all_iff keys_sorted_def)
qed

theorem registered_descriptors_stay_alive_witness:
  "\<exists>rx. (reactor_step perform_even ctl_ok)\<^sup>*\<^sup>* demo_rx rx \<and> rx_registered rx = [(4, 0)] \<and>
     (\<forall>(fd, d) \<in> set (rx_registered rx). \<exists>ds. deref rx d = Some ds)"
proof -
  let ?rx = "demo_rx\<lparr>rx_heap := [Some (fresh_descriptor 4)], rx_registered := [(4, 0)]\<rparr>"
  have "register_descriptor ctl_ok 4 demo_rx = (0, 0, ?rx)"
    by (simp add: register_descriptor_def demo_rx_def call_ctl_def ctl_ok_def map_assign_def)
  then have run: "(reactor_step perform_even ctl_ok)\<^sup>*\<^sup>* demo_rx ?rx"
    by (blast intro: reactor_step.reg)
  from registered_descriptors_stay_alive [OF this] have "\<forall>(fd, d) \<in> set (rx_registered ?rx). \<exists>ds. deref ?rx d = Some ds"
    by (simp add: demo_rx_def)
  with run show ?thesis by (intro exI [of _ ?rx]) simp
qed

lemma shutdown_descriptors_eq:
  assumes "list_all (\<lambda>(fd, d). deref rx d \<noteq> None) m" "distinct (map snd m)"
  shows "shutdown_descriptors m (rx, ops) =
    (if \<forall>(fd, d) \<in> set m. \<forall>ds. deref rx d = Some ds \<longrightarrow> ds_pending ds = {#}
     then Some (Inr (rx\<lparr>rx_heap := map (\<lambda>i. if i \<in> snd ` set m then None else rx_heap rx ! i)
            [0..<length (rx_heap rx)]\<rparr>, ops)) else None)"
  using assms
proof (induction m arbitrary: rx)
  case Nil
  show ?case by (simp add: map_nth)
next
  case (Cons e m)
  obtain fd d where e: "e = (fd, d)" by (cases e)
  with Cons.prems obtain ds where ds: "deref rx d = Some ds" by auto
  let ?rx = "rx\<lparr>rx_heap := (rx_heap rx)[d := None]\<rparr>"
  have d: "d < length (rx_heap rx)" "d \<notin> snd ` set m" using ds Cons.prems e by (auto simp: deref_Some)
  have others: "deref ?rx x = deref rx x" if "x \<in> snd ` set m" for x
    using that d by (cases "x = d") (simp_all add: deref_def)
  have "list_all (\<lambda>(fd, d). deref ?rx d \<noteq> None) m"
    using Cons.prems others by (force simp: list_all_iff)
  note IH = Cons.IH [OF this]
  have same: "(\<forall>(fd, d) \<in> set m. \<forall>ds. deref ?rx d = Some ds \<longrightarrow> ds_pending ds = {#}) \<longleftrightarrow>
      (\<forall>(fd, d) \<in> set m. \<forall>ds. deref rx d = Some ds \<longrightarrow> ds_pending ds = {#})"
    using others by (force simp: image_iff)
  have heap: "map (\<lambda>i. if i \<in> snd ` set m then None else (rx_heap rx)[d := None] ! i) [0..<length (rx_heap rx)] =
      map (\<lambda>i. if i \<in> snd ` set (e # m) then None else rx_heap rx ! i) [0..<length (rx_heap rx)]"
    using d by (auto simp: e nth_list_update)
  have "queued_ops ds = [] \<longleftrightarrow> ds_pending ds = {#}" by (simp flip: mset_queued_ops)
  with IH same heap Cons.prems ds show ?case by (simp add: e push_all_queues_eq)
qed

text \<open>C37. \<open>shutdown\<close> of a reactor with the map as the operations keep it returns exactly when no
  operation is waiting on a registered descriptor; then it deletes every registered object and
  abandons nothing. With an operation waiting, its loop pushes that queue for ever.\<close>

theorem shutdown_returns_iff_idle:
  assumes "registered_ok rx"
  shows "reactor_shutdown rx =
    (if \<forall>(fd, d) \<in> set (rx_registered rx). \<forall>ds. deref rx d = Some ds \<longrightarrow> ds_pending ds = {#}
     then Some (Inr (rx\<lparr>rx_shutdown := True,
        rx_heap := map (\<lambda>i. if i \<in> snd ` set (rx_registered rx) then None else rx_heap rx ! i)
          [0..<length (rx_heap rx)]\<rparr>, [])) else None)"
proof -
  let ?rx = "rx\<lparr>rx_shutdown := True\<rparr>"
  have same: "deref ?rx d = deref rx d" for d by (simp add: deref_def)
  have "list_all (\<lambda>(fd, d). deref ?rx d \<noteq> None) (rx_registered rx)" "distinct (map snd (rx_registered rx))"
    using assms by (simp_all add: registered_ok_def same)
  from shutdown_descriptors_eq [OF this, of "[]"] show ?thesis
    by (simp add: reactor_shutdown_def same)
qed

theorem shutdown_returns_iff_idle_witness:
  "reactor_shutdown demo_rx4 = None \<and>
   reactor_shutdown (demo_rx\<lparr>rx_registered := [(4, 0)], rx_heap := [Some (fresh_descriptor 4)]\<rparr>) \<noteq> None"
proof -
  have "registered_ok demo_rx4" by (simp add: registered_ok_def keys_sorted_def deref_def demo_rx4_def)
  moreover have "registered_ok (demo_rx\<lparr>rx_registered := [(4, 0)], rx_heap := [Some (fresh_descriptor 4)]\<rparr>)"
    by (simp add: registered_ok_def keys_sorted_def deref_def)
  ultimately show ?thesis
    using shutdown_returns_iff_idle [of demo_rx4]
      shutdown_returns_iff_idle [of "demo_rx\<lparr>rx_registered := [(4, 0)], rx_heap := [Some (fresh_descriptor 4)]\<rparr>"]
    by (auto simp: demo_rx4_def deref_def ds_pending_def demo_ds_def fresh_descriptor_def)
qed


subsection \<open>Waiting for events\<close>

text \<open>The descriptors a list of reported events names, and all the events reported for one.\<close>

definition ready :: "(event_ptr \<times> uint32) list \<Rightarrow> nat list" where
  "ready events = concat (map (\<lambda>(p, ev). case p of Interrupter \<Rightarrow> [] | Descriptor d \<Rightarrow> [d]) events)"

fun events_for :: "nat \<Rightarrow> (event_ptr \<times> uint32) list \<Rightarrow> uint32" where
  "events_for d [] = 0"
| "events_for d ((p, ev) # events) = (if p = Descriptor d then ev OR events_for d events else events_for d events)"

text \<open>The elements of a list, each at its first position.\<close>

definition firsts :: "'a list \<Rightarrow> 'a list" where
  "firsts xs = rev (remdups (rev xs))"

lemma firsts_simps [simp]:
  "firsts [] = []"
  "firsts (x # xs) = x # filter (\<lambda>y. y \<noteq> x) (firsts xs)"
proof -
  have "remdups (ys @ [x]) = filter (\<lambda>y. y \<noteq> x) (remdups ys) @ [x]" for ys x
    by (induction ys) auto
  then show "firsts (x # xs) = x # filter (\<lambda>y. y \<noteq> x) (firsts xs)"
    by (simp add: firsts_def rev_filter)
qed (simp add: firsts_def)

lemma set_firsts [simp]: "set (firsts xs) = set xs" and distinct_firsts [simp]: "distinct (firsts xs)"
  by (simp_all add: firsts_def)

lemma ready_simps [simp]:
  "ready [] = []" "ready ((Interrupter, ev) # events) = ready events"
  "ready ((Descriptor d, ev) # events) = d # ready events"
  by (simp_all add: ready_def)

lemma events_for_unready: "d \<notin> set (ready events) \<Longrightarrow> events_for d events = 0"
proof (induction events)
  case (Cons e events)
  then show ?case by (cases e rule: prod.exhaust; cases "fst e") auto
qed simp

lemma deref_write_ds:
  "deref (write_ds d ds rx) e = (if e = d \<and> d < length (rx_heap rx) then Some ds else deref rx e)"
  by (auto simp: deref_def write_ds_def)

lemma reactor_run_outcome:
  assumes "list_all (\<lambda>d. deref rx d \<noteq> None) (ready events)"
  shows "\<exists>rx'. reactor_run events rx ops =
      Inr (rx', ops @ map Descriptor_State
        (filter (\<lambda>d. Descriptor_State d \<notin> set ops) (firsts (ready events)))) \<and>
    pending rx' = pending rx \<and>
    (\<forall>d. deref rx' d = map_option (\<lambda>ds. ds\<lparr>ds_task_result :=
       (if Descriptor_State d \<in> set ops then ds_task_result ds OR events_for d events
        else if d \<in> set (ready events) then events_for d events else ds_task_result ds)\<rparr>) (deref rx d))"
  using assms
proof (induction events rx ops rule: reactor_run.induct)
  case (1 rx ops)
  show ?case by (auto intro!: map_option_idI [symmetric])
next
  case (2 ev events rx ops)
  then show ?case by (simp cong: if_cong)
next
  case (3 d ev events rx ops)
  then obtain ds where ds: "deref rx d = Some ds" by auto
  then have len: "d < length (rx_heap rx)" by (simp add: deref_Some)
  show ?case
  proof (cases "Descriptor_State d \<in> set ops")
    case True
    let ?rx = "write_ds d (ds\<lparr>ds_task_result := ds_task_result ds OR ev\<rparr>) rx"
    have live: "list_all (\<lambda>d. deref ?rx d \<noteq> None) (ready events)"
      using 3(3) by (auto simp: list_all_iff deref_write_ds)
    from 3(2) [OF ds _ live] True obtain rx' where
      run: "reactor_run events ?rx ops = Inr (rx', ops @ map Descriptor_State
        (filter (\<lambda>d. Descriptor_State d \<notin> set ops) (firsts (ready events))))"
      and pend: "pending rx' = pending ?rx"
      and refs: "\<And>e. deref rx' e = map_option (\<lambda>ds. ds\<lparr>ds_task_result :=
         (if Descriptor_State e \<in> set ops then ds_task_result ds OR events_for e events
          else if e \<in> set (ready events) then events_for e events else ds_task_result ds)\<rparr>) (deref ?rx e)"
      by auto
    have "pending ?rx = pending rx" using pending_write_more [OF ds, of _ "{#}"] by simp
    moreover have "filter (\<lambda>e. e \<noteq> d \<and> Descriptor_State e \<notin> set ops) (firsts (ready events)) =
        filter (\<lambda>e. Descriptor_State e \<notin> set ops) (firsts (ready events))"
      using True by (intro filter_cong) auto
    ultimately show ?thesis
      using True ds len run pend refs
      by (auto simp: deref_write_ds or.assoc conj_commute cong: if_cong)
  next
    case False
    let ?rx = "write_ds d (ds\<lparr>ds_task_result := ev\<rparr>) rx"
    have live: "list_all (\<lambda>d. deref ?rx d \<noteq> None) (ready events)"
      using 3(3) by (auto simp: list_all_iff deref_write_ds)
    from 3(1) [OF ds _ live] False obtain rx' where
      run: "reactor_run events ?rx (oq_push ops (Descriptor_State d)) = Inr (rx',
        oq_push ops (Descriptor_State d) @ map Descriptor_State
        (filter (\<lambda>e. Descriptor_State e \<notin> set (oq_push ops (Descriptor_State d))) (firsts (ready events))))"
      and pend: "pending rx' = pending ?rx"
      and refs: "\<And>e. deref rx' e = map_option (\<lambda>ds. ds\<lparr>ds_task_result :=
         (if Descriptor_State e \<in> set (oq_push ops (Descriptor_State d)) then ds_task_result ds OR events_for e events
          else if e \<in> set (ready events) then events_for e events else ds_task_result ds)\<rparr>) (deref ?rx e)"
      by auto
    have "pending ?rx = pending rx" using pending_write_more [OF ds, of _ "{#}"] by simp
    then show ?thesis
      using False ds len run pend refs
      by (auto simp: oq_push_def deref_write_ds conj_commute cong: if_cong)
  qed
qed

text \<open>\<open>epoll_reactor::run\<close> on what \<open>epoll_wait\<close> reported for live descriptors, into an empty
  queue: every reported descriptor is queued once, at its first report, with all the events
  reported for it as its \<open>task_result_\<close>; the others keep theirs; the interrupter's event adds
  nothing; no waiting operation is touched.\<close>

theorem reported_descriptors_queued_once:
  assumes "\<And>d. d \<in> set (ready events) \<Longrightarrow> deref rx d \<noteq> None"
  shows "\<exists>rx'. reactor_run events rx [] = Inr (rx', map Descriptor_State (firsts (ready events))) \<and>
    pending rx' = pending rx \<and>
    (\<forall>d. deref rx' d = map_option (\<lambda>ds. if d \<in> set (ready events)
       then ds\<lparr>ds_task_result := events_for d events\<rparr> else ds) (deref rx d))"
proof -
  have "list_all (\<lambda>d. deref rx d \<noteq> None) (ready events)" using assms by (simp add: list_all_iff)
  from reactor_run_outcome [OF this, of "[]"] obtain rx' where
    run: "reactor_run events rx [] = Inr (rx', map Descriptor_State (firsts (ready events)))" "pending rx' = pending rx"
    and refs: "\<And>d. deref rx' d = map_option (\<lambda>ds. ds\<lparr>ds_task_result :=
       (if d \<in> set (ready events) then events_for d events else ds_task_result ds)\<rparr>) (deref rx d)"
    by auto
  have "deref rx' d = map_option (\<lambda>ds. if d \<in> set (ready events)
      then ds\<lparr>ds_task_result := events_for d events\<rparr> else ds) (deref rx d)" for d
    unfolding refs by (auto intro!: option.map_cong0)
  with run show ?thesis by blast
qed

theorem reported_descriptors_queued_once_witness:
  "\<exists>rx'. reactor_run [(Descriptor 0, EPOLLIN), (Interrupter, EPOLLIN), (Descriptor 0, EPOLLOUT)] demo_rx4 [] =
      Inr (rx', [Descriptor_State 0]) \<and>
    map_option ds_task_result (deref rx' 0) = Some 5"
  using reported_descriptors_queued_once
    [of "[(Descriptor 0, EPOLLIN), (Interrupter, EPOLLIN), (Descriptor 0, EPOLLOUT)]" demo_rx4]
  by (auto simp: epoll_flags)

text \<open>The timeout given to \<open>epoll_wait\<close> is the least number of milliseconds not below the
  requested microseconds; a negative request waits for ever (-1) and 0 polls.\<close>

theorem run_timeout_rounds_up:
  "(usec < 0 \<longrightarrow> run_timeout usec = -1) \<and> (usec = 0 \<longrightarrow> run_timeout usec = 0) \<and>
   (0 \<le> usec \<longrightarrow> usec \<le> 1000 * run_timeout usec \<and> (\<forall>ms. usec \<le> 1000 * ms \<longrightarrow> run_timeout usec \<le> ms))"
  by (auto simp: run_timeout_def)

theorem run_timeout_rounds_up_witness: "run_timeout 1001 = 2 \<and> 1001 \<le> 1000 * run_timeout 1001"
  using run_timeout_rounds_up [of 1001] by (simp add: run_timeout_def)

subsection \<open>Performing operations\<close>

text \<open>C26. When \<open>perform_io\<close> returns, it has taken a prefix of each of the descriptor's queues,
  exceptional operations before writes before reads, at least one in all; the first is returned to
  be completed by the caller and the rest, in order, are handed to the scheduler. The other
  descriptors and the other operations stay as they were.\<close>

theorem perform_io_takes_prefixes:
  assumes "perform_io perform self d events (rx, s, stk) = Inr (op, (rx', s', stk'), lost)"
  shows "\<exists>ds ds' x w r rest. deref rx d = Some ds \<and> deref rx' d = Some ds' \<and> x @ w @ r = op # rest \<and>
    ds_op_queue ds Except_Op = x @ ds_op_queue ds' Except_Op \<and>
    ds_op_queue ds Write_Op = w @ ds_op_queue ds' Write_Op \<and>
    ds_op_queue ds Read_Op = r @ ds_op_queue ds' Read_Op \<and>
    (\<forall>e. e \<noteq> d \<longrightarrow> deref rx' e = deref rx e) \<and>
    (s', stk', lost) = (if rest = [] then (s, stk, [])
      else post_deferred_completions self (map Reactor_Op rest) s stk)"
proof -
  obtain ds where ds: "deref rx d = Some ds"
    using assms by (auto simp: perform_io_def split: option.splits)
  obtain ds' ops rx1 where all: "perform_all_types perform events ds rx = (ds', ops, rx1)"
    by (metis prod_cases3)
  from assms ds all have res: "ops \<noteq> []" "op = hd ops" "rx' = write_ds d ds' rx1"
      "(s', stk', lost) = (if tl ops = [] then (s, stk, [])
        else post_deferred_completions self (map Reactor_Op (tl ops)) s stk)"
    by (cases ops; auto simp: perform_io_def oq_empty_def split: if_splits prod.splits)+
  from perform_all_types_split [OF all] obtain x w r where q: "ops = x @ w @ r"
      "ds_op_queue ds Except_Op = x @ ds_op_queue ds' Except_Op"
      "ds_op_queue ds Write_Op = w @ ds_op_queue ds' Write_Op"
      "ds_op_queue ds Read_Op = r @ ds_op_queue ds' Read_Op" and heap: "rx_heap rx1 = rx_heap rx"
    by blast
  have "deref rx' d = Some ds'" "\<forall>e. e \<noteq> d \<longrightarrow> deref rx' e = deref rx e"
    using ds heap by (auto simp: res(3) deref_write_ds same_heap(2) [OF heap] deref_Some)
  then show ?thesis
    using ds q res by (intro exI [of _ ds] exI [of _ ds'] exI [of _ x] exI [of _ w] exI [of _ r] exI [of _ "tl ops"]) simp
qed

theorem perform_io_takes_prefixes_witness:
  "\<exists>rx' s' ds'. perform_io perform_even 0 0 (EPOLLIN OR EPOLLOUT) (demo_rx4, demo_s, []) =
      Inr (6, (rx', s', []), []) \<and> deref rx' 0 = Some ds' \<and> ds_op_queue ds' Read_Op = [5]"
proof -
  let ?ds = "demo_ds\<lparr>ds_op_queue := (\<lambda>_. [])(Read_Op := [5])\<rparr>"
  have "perform_all_types perform_even (EPOLLIN OR EPOLLOUT) demo_ds demo_rx4 = (?ds, [6, 2, 4], demo_rx4)"
    by (simp add: perform_all_types_def all_op_types_def perform_one_type_def flag_of_def epoll_flags
        demo_ds_def fresh_descriptor_def fun_eq_iff)
  then obtain s' where eq: "perform_io perform_even 0 0 (EPOLLIN OR EPOLLOUT) (demo_rx4, demo_s, []) =
      Inr (6, (write_ds 0 ?ds demo_rx4, s', []), [])"
    by (simp add: perform_io_def oq_empty_def post_deferred_completions_def demo_s_def oq_pop_def
        oq_splice_def Let_def)
  from perform_io_takes_prefixes [OF eq] eq show ?thesis by (auto simp: deref_write_ds)
qed

text \<open>If no operation can be finished (every queue the events select is empty, or its first
  operation is not done), \<open>perform_io\<close> pops an empty queue, which is undefined behaviour; the
  \<open>compensating_work_started\<close> of its clean-up is never reached.\<close>

theorem perform_io_without_completion_undefined:
  assumes "deref rx d = Some ds"
    and "\<And>ot. events AND (flag_of ot OR EPOLLERR OR EPOLLHUP) = 0 \<or> ds_op_queue ds ot = [] \<or>
      (\<forall>ec io. fst (perform (hd (ds_op_queue ds ot)) ec io) = Not_Done)"
  shows "perform_io perform self d events (rx, s, stk) = Inl Undefined_Behaviour"
proof -
  have queue: "\<exists>rx'. perform_queue perform (ds_op_queue ds ot) ops rx = (ds_op_queue ds ot, ops, False, rx')"
    if "ds_op_queue ds ot = [] \<or> (\<forall>ec io. fst (perform (hd (ds_op_queue ds ot)) ec io) = Not_Done)"
    for ot ops and rx :: "'a reactor"
  proof (cases "ds_op_queue ds ot")
    case (Cons op q)
    with that have "fst (call_perform perform op rx) = Not_Done"
      by (simp add: call_perform_def split: prod.split) (metis fst_conv)
    with Cons show ?thesis by (cases "call_perform perform op rx") simp
  qed simp
  have one: "\<exists>e' rx'. perform_one_type perform events ot (e, ops, rx) = (e', ops, rx') \<and>
      ds_op_queue e' = ds_op_queue ds" if "ds_op_queue e = ds_op_queue ds" for ot e ops and rx :: "'a reactor"
    using assms(2) [of ot] queue [of ot ops rx] that
    by (auto simp: perform_one_type_def fun_eq_iff)
  obtain ds1 rx1 where 1: "perform_one_type perform events Except_Op (ds, [], rx) = (ds1, [], rx1)"
      "ds_op_queue ds1 = ds_op_queue ds" using one by blast
  obtain ds2 rx2 where 2: "perform_one_type perform events Write_Op (ds1, [], rx1) = (ds2, [], rx2)"
      "ds_op_queue ds2 = ds_op_queue ds" using one [OF 1(2)] by blast
  obtain ds3 rx3 where "perform_one_type perform events Read_Op (ds2, [], rx2) = (ds3, [], rx3)"
    using one [OF 2(2)] by blast
  with 1 2 have "perform_all_types perform events ds rx = (ds3, [], rx3)"
    by (simp add: perform_all_types_def all_op_types_def)
  with assms(1) show ?thesis by (simp add: perform_io_def)
qed

theorem perform_io_without_completion_undefined_witness:
  "perform_io perform_even 0 0 EPOLLPRI (demo_rx4, demo_s, []) = Inl Undefined_Behaviour"
proof (rule perform_io_without_completion_undefined [OF demo_deref(1)])
  fix ot show "EPOLLPRI AND (flag_of ot OR EPOLLERR OR EPOLLHUP) = 0 \<or> ds_op_queue demo_ds ot = [] \<or>
      (\<forall>ec io. fst (perform_even (hd (ds_op_queue demo_ds ot)) ec io) = Not_Done)"
    by (cases ot) (simp_all add: flag_of_def epoll_flags demo_ds_def)
qed


subsection \<open>Lemmas for the refinement\<close>

lemma sh_same: "sh_pending sh = P \<Longrightarrow> sh\<lparr>sh_sched := s, sh_pending := P\<rparr> = sh\<lparr>sh_sched := s\<rparr>"
  "sh_pending sh = P \<Longrightarrow> sh\<lparr>sh_pending := P\<rparr> = sh"
  by auto

lemma taken_queues:
  assumes "deref rx d = Some ds" "rx_heap rx1 = rx_heap rx" "ds_pending ds1 = {#}"
  shows "pending rx = pending (write_ds d ds1 rx1) + mset (queued_ops ds)"
  using pending_write_less [of rx1 d ds ds1 "ds_pending ds"] same_heap [OF assms(2)] assms(1,3)
  by (simp add: mset_queued_ops)

subsection \<open>The two halves of a call\<close>

text \<open>\<open>perform_io\<close> up to the end of \<open>lock\<close>: the operations in \<open>io_cleanup.ops_\<close> and the reactor.\<close>

definition perform_locked ::
    "'io perform \<Rightarrow> nat \<Rightarrow> uint32 \<Rightarrow> 'io reactor \<Rightarrow> fault + nat list \<times> 'io reactor" where
  "perform_locked perform d events rx =
     (case deref rx d of
        None \<Rightarrow> Inl Undefined_Behaviour
      | Some ds \<Rightarrow>
          (case perform_all_types perform events ds rx of
             (ds', done_ops, rx') \<Rightarrow> Inr (done_ops, write_ds d ds' rx')))"

text \<open>The destructor of \<open>io_cleanup\<close>, with the first operation taken out.\<close>

definition perform_posts ::
    "nat \<Rightarrow> nat list \<Rightarrow> scheduler \<Rightarrow> thread_stack \<Rightarrow> scheduler \<times> thread_stack \<times> op_ref op_queue" where
  "perform_posts self rest s stk =
     (if rest = [] then (s, stk, [])
      else post_deferred_completions self (map Reactor_Op rest) s stk)"

text \<open>
  \<open>cancel_ops\<close> and \<open>deregister_descriptor\<close> up to \<open>lock.unlock()\<close>: the operations in \<open>ops\<close>, None when
  the call returns without posting.
\<close>

definition cancel_locked ::
    "nat option \<Rightarrow> 'io reactor \<Rightarrow> (fault + op_ref op_queue option \<times> 'io reactor) option" where
  "cancel_locked descriptor_data rx =
     (case descriptor_data of
        None \<Rightarrow> Some (Inr (None, rx))
      | Some d \<Rightarrow>
          (case deref rx d of
             None \<Rightarrow> Some (Inl Undefined_Behaviour)
           | Some ds \<Rightarrow>
               (case take_all_queues ds (rx_ec rx) of
                  None \<Rightarrow> None
                | Some (ds1, ec, ops) \<Rightarrow> Some (Inr (Some ops, write_ds d ds1 (rx\<lparr>rx_ec := ec\<rparr>))))))"

definition deregister_locked ::
    "'io epoll_ctl \<Rightarrow> int \<Rightarrow> nat option \<Rightarrow> bool \<Rightarrow> 'io reactor \<Rightarrow>
     (fault + op_ref op_queue option \<times> 'io reactor) option" where
  "deregister_locked ctl fd descriptor_data closing rx =
     (case descriptor_data of
        None \<Rightarrow> Some (Inr (None, rx))
      | Some d \<Rightarrow>
          (case deref rx d of
             None \<Rightarrow> Some (Inl Undefined_Behaviour)
           | Some ds \<Rightarrow>
               if ds_shutdown ds then Some (Inr (None, rx))
               else (let rx1 = (if \<not> closing \<and> ds_registered_events ds \<noteq> 0
                                then snd (call_ctl ctl Ctl_Del fd 0 rx) else rx)
                     in case take_all_queues ds (rx_ec rx1) of
                          None \<Rightarrow> None
                        | Some (ds1, ec, ops) \<Rightarrow>
                            Some (Inr (Some ops,
                              write_ds d (ds1\<lparr>ds_descriptor := -1, ds_shutdown := True\<rparr>) (rx1\<lparr>rx_ec := ec\<rparr>))))))"

text \<open>The two halves make up the calls of Reactor.\<close>

lemma perform_io_halves:
  "perform_io perform self d events (rx, s, stk) =
     (case perform_locked perform d events rx of
        Inl e \<Rightarrow> Inl e
      | Inr ([], rx') \<Rightarrow> Inl Undefined_Behaviour
      | Inr (op # rest, rx') \<Rightarrow>
          (case perform_posts self rest s stk of (s', stk', lost) \<Rightarrow> Inr (op, (rx', s', stk'), lost)))"
  by (auto simp: perform_io_def perform_locked_def perform_posts_def oq_empty_def split: option.splits prod.splits list.splits)

lemma cancel_ops_halves:
  "cancel_ops self data (rx, s, stk) =
     (case cancel_locked data rx of
        None \<Rightarrow> None
      | Some (Inl e) \<Rightarrow> Some (Inl e)
      | Some (Inr (None, rx')) \<Rightarrow> Some (Inr ((rx', s, stk), []))
      | Some (Inr (Some ops, rx')) \<Rightarrow>
          (case post_deferred_completions self ops s stk of
             (s', stk', lost) \<Rightarrow> Some (Inr ((rx', s', stk'), lost))))"
  by (auto simp: cancel_ops_def cancel_locked_def split: option.splits)

lemma deregister_descriptor_halves:
  "deregister_descriptor ctl self fd data closing (rx, s, stk) =
     (case deregister_locked ctl fd data closing rx of
        None \<Rightarrow> None
      | Some (Inl e) \<Rightarrow> Some (Inl e)
      | Some (Inr (None, rx')) \<Rightarrow> Some (Inr (None, (rx', s, stk), []))
      | Some (Inr (Some ops, rx')) \<Rightarrow>
          (case post_deferred_completions self ops s stk of
             (s', stk', lost) \<Rightarrow> Some (Inr (data, (rx', s', stk'), lost))))"
  by (auto simp: deregister_descriptor_def deregister_locked_def Let_def split: option.splits prod.splits)

lemma cancel_locked_pending:
  assumes "cancel_locked data rx = Some (Inr (Some ops, rx'))"
  shows "\<exists>q. ops = map Reactor_Op q \<and> pending rx = pending rx' + mset q"
proof -
  obtain d ds where ds: "data = Some d" "deref rx d = Some ds"
    using assms by (auto simp: cancel_locked_def split: option.splits)
  let ?rx = "rx\<lparr>rx_ec := \<lambda>x. if x \<in> set (queued_ops ds) then no_error else rx_ec rx x\<rparr>"
  have "pending rx = pending (write_ds d (ds\<lparr>ds_op_queue := \<lambda>_. []\<rparr>) ?rx) + mset (queued_ops ds)"
    by (rule taken_queues [OF ds(2)]) (simp_all add: ds_pending_def)
  with assms ds show ?thesis by (auto simp: cancel_locked_def take_all_queues_eq)
qed

lemma deregister_locked_pending:
  assumes "deregister_locked ctl fd data closing rx = Some (Inr (Some ops, rx'))"
  shows "\<exists>q. ops = map Reactor_Op q \<and> pending rx = pending rx' + mset q"
proof -
  obtain d ds where ds: "data = Some d" "deref rx d = Some ds" "\<not> ds_shutdown ds"
    using assms by (auto simp: deregister_locked_def split: option.splits if_splits)
  define rx1 where "rx1 = (if \<not> closing \<and> ds_registered_events ds \<noteq> 0
      then snd (call_ctl ctl Ctl_Del fd 0 rx) else rx)"
  let ?rx = "rx1\<lparr>rx_ec := \<lambda>x. if x \<in> set (queued_ops ds) then no_error else rx_ec rx1 x\<rparr>"
  let ?ds = "ds\<lparr>ds_op_queue := \<lambda>_. [], ds_descriptor := -1, ds_shutdown := True\<rparr>"
  have "pending rx = pending (write_ds d ?ds ?rx) + mset (queued_ops ds)"
    by (rule taken_queues [OF ds(2)]) (simp_all add: ds_pending_def rx1_def)
  with assms ds show ?thesis
    by (auto simp: deregister_locked_def take_all_queues_eq Let_def simp flip: rx1_def)
qed

lemma ops_of_queue: "map Reactor_Op q = map Reactor_Op r \<longleftrightarrow> q = r"
  by (rule inj_map_eq_map) (simp add: inj_def)

lemma cancel_takes:
  "cancel_locked data rx = Some (Inr (Some (map Reactor_Op q), rx')) \<Longrightarrow> pending rx = pending rx' + mset q"
  using cancel_locked_pending [of data rx "map Reactor_Op q" rx'] by (auto simp: ops_of_queue)

lemma deregister_takes:
  "deregister_locked ctl fd data closing rx = Some (Inr (Some (map Reactor_Op q), rx')) \<Longrightarrow>
   pending rx = pending rx' + mset q"
  using deregister_locked_pending [of ctl fd data closing rx "map Reactor_Op q" rx'] by (auto simp: ops_of_queue)

lemma perform_locked_pending:
  assumes "perform_locked perform d events rx = Inr (done_ops, rx')"
  shows "pending rx = pending rx' + mset done_ops"
proof -
  obtain ds ds' rx1 where ds: "deref rx d = Some ds"
      "perform_all_types perform events ds rx = (ds', done_ops, rx1)" "rx' = write_ds d ds' rx1"
    using assms by (auto simp: perform_locked_def split: option.splits prod.splits)
  note pend = perform_all_types_pending [OF ds(2)]
  have "deref rx1 d = Some ds" using ds(1) same_heap(2) [OF pend(2)] by simp
  from pending_write_less [OF this pend(1)] ds(3) same_heap(1) [OF pend(2)] show ?thesis by simp
qed

text \<open>What \<open>cancel_ops\<close> and \<open>deregister_descriptor\<close> come to: nothing, or handing operations over.\<close>

lemma cancel_ops_outcome:
  assumes "cancel_ops self data (rx, s, stk) = Some (Inr ((rx', s', stk'), lost))"
  shows "(rx', s', stk', lost) = (rx, s, stk, []) \<or>
    (\<exists>q. post_deferred_completions self (map Reactor_Op q) s stk = (s', stk', lost) \<and>
      pending rx = pending rx' + mset q)"
proof -
  have "rx1 = rx" if "cancel_locked data rx = Some (Inr (None, rx1))" for rx1
    using that by (auto simp: cancel_locked_def split: option.splits)
  with assms show ?thesis
    unfolding cancel_ops_halves
    by (fastforce split: option.splits sum.splits prod.splits dest: cancel_locked_pending)
qed

lemma deregister_descriptor_outcome:
  assumes "deregister_descriptor ctl self fd data closing (rx, s, stk) = Some (Inr (data', (rx', s', stk'), lost))"
  shows "(rx', s', stk', lost) = (rx, s, stk, []) \<or>
    (\<exists>q. post_deferred_completions self (map Reactor_Op q) s stk = (s', stk', lost) \<and>
      pending rx = pending rx' + mset q)"
proof -
  have "rx1 = rx" if "deregister_locked ctl fd data closing rx = Some (Inr (None, rx1))" for rx1
    using that by (auto simp: deregister_locked_def Let_def split: option.splits if_splits)
  with assms show ?thesis
    unfolding deregister_descriptor_halves
    by (fastforce split: option.splits sum.splits prod.splits dest: deregister_locked_pending)
qed

lemma register_pending: "register_descriptor ctl fd rx = (e, d, rx') \<Longrightarrow> pending rx' = pending rx"
proof -
  assume reg: "register_descriptor ctl fd rx = (e, d, rx')"
  let ?rx1 = "rx\<lparr>rx_heap := rx_heap rx @ [Some (fresh_descriptor fd)],
    rx_registered := map_assign fd (length (rx_heap rx)) (rx_registered rx)\<rparr>"
  obtain e1 rx2 where ctl: "call_ctl ctl Ctl_Add fd initial_events ?rx1 = (e1, rx2)" by force
  have heap: "rx_heap rx2 = rx_heap rx @ [Some (fresh_descriptor fd)]" using heap_kept(1) [OF ctl] by simp
  have none: "ds_pending (fresh_descriptor fd) = {#}" "ds_pending ((fresh_descriptor fd)\<lparr>ds_registered_events := 0\<rparr>) = {#}"
    by (simp_all add: ds_pending_def fresh_descriptor_def)
  have "pending rx2 = pending rx" by (simp add: pending_def heap slot_pending_def none)
  moreover have "pending (write_ds (length (rx_heap rx)) ((fresh_descriptor fd)\<lparr>ds_registered_events := 0\<rparr>) rx2) = pending rx"
    by (simp add: pending_def write_ds_def heap slot_pending_def none)
  ultimately show ?thesis using reg ctl by (auto simp: register_descriptor_def Let_def split: if_splits)
qed

lemma reactor_run_appends:
  "reactor_run events rx ops = Inr (rx', ops') \<Longrightarrow>
   \<exists>ds. ops' = ops @ map Descriptor_State ds \<and> pending rx' = pending rx"
proof (induction events rx ops rule: reactor_run.induct)
  case (3 d ev events rx ops)
  then obtain ds where ds: "deref rx d = Some ds" by (auto split: option.splits)
  have "pending (write_ds d (ds\<lparr>ds_task_result := r\<rparr>) rx) = pending rx" for r
    using pending_write_more [OF ds, of _ "{#}"] by simp
  with 3 ds show ?case
    by (fastforce simp: oq_push_def split: if_splits simp flip: list.map)
qed auto

subsection \<open>The reactor in the system of threads\<close>

text \<open>The operations of the reactor called by user code refine the steps the system of threads
  allows: with \<open>sh_pending\<close> read as what the descriptors hold, every \<open>start_op\<close>, \<open>cancel_ops\<close> and
  \<open>deregister_descriptor\<close> that returns is one step of the calling thread, or changes
  nothing at all (no descriptor data, or already deregistered).\<close>

theorem reactor_calls_refine_steps:
  assumes "may_call t" and "sh_pending sh = pending rx"
    and "start_op perform ctl self ot fd data op c spec (rx, sh_sched sh, th_stack t) = Inr (rx', s', stk') \<and>
        lost = [] \<or>
      cancel_ops self data (rx, sh_sched sh, th_stack t) = Some (Inr ((rx', s', stk'), lost)) \<or>
      deregister_descriptor ctl self fd data closing (rx, sh_sched sh, th_stack t) =
        Some (Inr (data', (rx', s', stk'), lost))"
  shows "local_step self sh t (sh\<lparr>sh_sched := s', sh_pending := pending rx'\<rparr>)
      (t\<lparr>th_stack := stk', th_leaked := th_leaked t @ lost\<rparr>) \<or>
    (rx', s', stk', lost) = (rx, sh_sched sh, th_stack t, [])"
proof -
  have post: ?thesis
    if "pending rx' = pending rx" "lost = []"
      "(s', stk') = post_immediate_completion self (Reactor_Op op) c (sh_sched sh) (th_stack t)"
    using local_step.call_post [OF assms(1), of "Reactor_Op op" self c sh s' stk'] that assms(2)
    by (simp add: sh_same)
  have leave: ?thesis
    if "pending rx' = add_mset op (pending rx)" "s' = work_started (sh_sched sh)" "stk' = th_stack t" "lost = []"
    using local_step.call_start_op [OF assms(1), of self sh op] that assms(2) by simp
  have hand: ?thesis
    if "post_deferred_completions self (map Reactor_Op q) (sh_sched sh) (th_stack t) = (s', stk', lost)"
      "pending rx = pending rx' + mset q" for q
    using local_step.call_cancel_ops [OF assms(1), of q sh self s' stk' lost] that assms(2) by simp
  from assms(3) show ?thesis
  proof (elim disjE conjE)
    assume "start_op perform ctl self ot fd data op c spec (rx, sh_sched sh, th_stack t) = Inr (rx', s', stk')"
      "lost = []"
    with start_op_outcome [OF this(1)] post leave show ?thesis
      by (auto simp: posted_def left_pending_def)
  next
    assume "cancel_ops self data (rx, sh_sched sh, th_stack t) = Some (Inr ((rx', s', stk'), lost))"
    from cancel_ops_outcome [OF this] hand show ?thesis by blast
  next
    assume "deregister_descriptor ctl self fd data closing (rx, sh_sched sh, th_stack t) =
        Some (Inr (data', (rx', s', stk'), lost))"
    from deregister_descriptor_outcome [OF this] hand show ?thesis by blast
  qed
qed

theorem reactor_calls_refine_steps_witness:
  "\<exists>rx' s'. cancel_ops 0 (Some 0) (demo_rx4, demo_s, []) = Some (Inr ((rx', s', []), [])) \<and>
     local_step 0 \<lparr>sh_sched = demo_s, sh_pending = {#2, 4, 5, 6#}, sh_guards = 0\<rparr> new_thread
       \<lparr>sh_sched = s', sh_pending = pending rx', sh_guards = 0\<rparr> new_thread"
proof -
  obtain ec s' where eq: "cancel_ops 0 (Some 0) (demo_rx4, demo_s, []) =
      Some (Inr ((write_ds 0 (demo_ds\<lparr>ds_op_queue := \<lambda>_. []\<rparr>) (demo_rx4\<lparr>rx_ec := ec\<rparr>), s', []), []))"
    by (simp add: cancel_ops_def take_all_queues_eq post_deferred_completions_def oq_splice_def demo_s_def
        queued_ops_def)
  let ?rx = "write_ds 0 (demo_ds\<lparr>ds_op_queue := \<lambda>_. []\<rparr>) (demo_rx4\<lparr>rx_ec := ec\<rparr>)"
  have "pending ?rx = {#}"
    by (simp add: pending_def write_ds_def demo_rx4_def slot_pending_def ds_pending_def)
  then have "?rx \<noteq> demo_rx4" using demo_pending by auto
  have "may_call new_thread" by (simp add: may_call_def new_thread_def)
  from reactor_calls_refine_steps [OF this, of "\<lparr>sh_sched = demo_s, sh_pending = {#2, 4, 5, 6#}, sh_guards = 0\<rparr>"
      demo_rx4 perform_even ctl_ok 0 Read_Op 0 "Some 0" 0 False False ?rx s' "[]" "[]"] eq \<open>?rx \<noteq> demo_rx4\<close>
  show ?thesis by (auto simp: demo_pending new_thread_def)
qed

text \<open>What a thread of \<open>run\<close> does with the reactor refines the steps of the system as well:
  waiting for events only fills the thread's private queue with descriptors, and completing a
  descriptor takes operations from the pending ones, runs the first next and hands the others
  over.\<close>

theorem reactor_turns_refine_steps:
  assumes "sh_pending sh = pending rx"
  shows "(th_pc t = In_Task n usec \<and>
      reactor_run events rx (private_op_queue (th_info self t)) = Inr (rx', ops') \<longrightarrow>
      local_step self sh t (sh\<lparr>sh_pending := pending rx'\<rparr>)
        (set_info self ((th_info self t)\<lparr>private_op_queue := ops'\<rparr>) (t\<lparr>th_pc := Task_Done n\<rparr>))) \<and>
    (th_pc t = In_Op n (Descriptor_State d) \<and>
      do_complete perform self True d bytes (rx, sh_sched sh, th_stack t) = Inr (Some op, (rx', s', stk'), lost) \<longrightarrow>
      local_step self sh t (sh\<lparr>sh_sched := s', sh_pending := pending rx'\<rparr>)
        (t\<lparr>th_pc := In_Op n (Reactor_Op op), th_stack := stk', th_leaked := th_leaked t @ lost\<rparr>))"
proof (intro conjI impI; elim conjE)
  assume pc: "th_pc t = In_Task n usec"
    and run: "reactor_run events rx (private_op_queue (th_info self t)) = Inr (rx', ops')"
  from reactor_run_appends [OF run] obtain ds where
    "ops' = private_op_queue (th_info self t) @ map Descriptor_State ds" "pending rx' = pending rx" by blast
  with local_step.task_run [OF pc, of _ self ds sh] assms
  show "local_step self sh t (sh\<lparr>sh_pending := pending rx'\<rparr>)
        (set_info self ((th_info self t)\<lparr>private_op_queue := ops'\<rparr>) (t\<lparr>th_pc := Task_Done n\<rparr>))"
    by (simp add: sh_same)
next
  assume pc: "th_pc t = In_Op n (Descriptor_State d)"
    and "do_complete perform self True d bytes (rx, sh_sched sh, th_stack t) = Inr (Some op, (rx', s', stk'), lost)"
  then have "perform_io perform self d (ucast bytes) (rx, sh_sched sh, th_stack t) = Inr (op, (rx', s', stk'), lost)"
    by (auto simp: do_complete_def split: sum.splits)
  from perform_io_outcome [OF this] obtain rest where
    taken: "pending rx = pending rx' + mset (op # rest)"
    and out: "(s', stk', lost) = (if rest = [] then (sh_sched sh, th_stack t, [])
      else post_deferred_completions self (map Reactor_Op rest) (sh_sched sh) (th_stack t))" by blast
  have "mset (op # rest) \<subseteq># sh_pending sh" "sh_pending sh - mset (op # rest) = pending rx'"
    using assms taken by simp_all
  with local_step.perform_io [OF pc this(1) out]
  show "local_step self sh t (sh\<lparr>sh_sched := s', sh_pending := pending rx'\<rparr>)
        (t\<lparr>th_pc := In_Op n (Reactor_Op op), th_stack := stk', th_leaked := th_leaked t @ lost\<rparr>)"
    by simp
qed

theorem reactor_turns_refine_steps_witness:
  "\<exists>rx' ops'. reactor_run [(Descriptor 0, EPOLLIN)] demo_rx4 [] = Inr (rx', ops') \<and>
    local_step 0 \<lparr>sh_sched = demo_s, sh_pending = {#2, 4, 5, 6#}, sh_guards = 0\<rparr>
      \<lparr>th_pc = In_Task 0 0, th_stack = [(0, fresh_info)], th_must_stop = False, th_leaked = []\<rparr>
      \<lparr>sh_sched = demo_s, sh_pending = pending rx', sh_guards = 0\<rparr>
      \<lparr>th_pc = Task_Done 0, th_stack = [(0, fresh_info\<lparr>private_op_queue := ops'\<rparr>)],
       th_must_stop = False, th_leaked = []\<rparr>"
proof -
  let ?t = "\<lparr>th_pc = In_Task 0 0, th_stack = [(0, fresh_info)], th_must_stop = False, th_leaked = []\<rparr>"
  let ?sh = "\<lparr>sh_sched = demo_s, sh_pending = {#2, 4, 5, 6#}, sh_guards = 0\<rparr>"
  obtain rx' ops' where run: "reactor_run [(Descriptor 0, EPOLLIN)] demo_rx4 [] = Inr (rx', ops')"
    by simp
  have "sh_pending ?sh = pending demo_rx4" by (simp add: demo_pending)
  from reactor_turns_refine_steps [OF this, of ?t 0 0 "[(Descriptor 0, EPOLLIN)]" 0 rx' ops'] run show ?thesis
    by (auto simp: th_info_def set_info_def)
qed

end
