(* ===== verification/Service_Registry.thy ===== *)
theory Service_Registry
  imports Ordered_Map "HOL-Library.List_Lexorder" "HOL-Library.Char_ord"
begin

text \<open>
  \<^verbatim>\<open>service_registry.hpp\<close>, \<^verbatim>\<open>service_registry.cc\<close>, \<^verbatim>\<open>service_registry_helpers.hpp\<close>,
  \<^verbatim>\<open>execution_context.hpp\<close> and \<^verbatim>\<open>execution_context.cc\<close>: the services of an execution context. A
  service is an object, named by a number, that belongs to a context; the registry maps the name
  of its type to it. \<open>use_service\<close> looks the service up, constructs one with the lock released when
  there is none, and looks again: its two critical sections are separate definitions, so that
  other threads can run between them.
\<close>

subsection \<open>State\<close>

text \<open>
  The registry with the heap its services live on: the context each object was built for, the
  objects alive, and the number of the next object. \<open>sr_shut_down\<close> lists the objects \<open>shutdown()\<close>
  was called on, in order.
\<close>

record registry =
  sr_owner :: nat
  sr_services :: "(string, nat) ordered_map"
  sr_context :: "nat \<Rightarrow> nat"
  sr_live :: "nat list"
  sr_next :: nat
  sr_shut_down :: "nat list"

text \<open>The constructor: an empty map for the given context.\<close>

definition registry_ctor :: "nat \<Rightarrow> registry" where
  "registry_ctor owner =
     \<lparr>sr_owner = owner, sr_services = [], sr_context = (\<lambda>_. 0), sr_live = [], sr_next = 0, sr_shut_down = []\<rparr>"

text \<open>\<open>new Service(context)\<close> and \<open>delete service\<close>.\<close>

definition new_service :: "nat \<Rightarrow> registry \<Rightarrow> nat \<times> registry" where
  "new_service ctx r =
     (sr_next r, r\<lparr>sr_context := (sr_context r)(sr_next r := ctx), sr_live := sr_next r # sr_live r,
                  sr_next := Suc (sr_next r)\<rparr>)"

definition delete_service :: "nat \<Rightarrow> registry \<Rightarrow> fault + registry" where
  "delete_service s r =
     (if s \<in> set (sr_live r) then Inr (r\<lparr>sr_live := remove1 s (sr_live r)\<rparr>) else Inl Undefined_Behaviour)"

subsection \<open>Finding and adding services\<close>

text \<open>The first critical section of \<open>use_service\<close>, and its second, which gives the object to the
  caller: the one registered meanwhile, the new one being deleted, or the new one.\<close>

definition use_service_lookup :: "string \<Rightarrow> registry \<Rightarrow> nat option" where
  "use_service_lookup key r = map_find (sr_services r) key"

definition use_service_install :: "string \<Rightarrow> nat \<Rightarrow> registry \<Rightarrow> fault + nat \<times> registry" where
  "use_service_install key new r =
     (case map_find (sr_services r) key of
        Some s \<Rightarrow> (case delete_service new r of Inl e \<Rightarrow> Inl e | Inr r' \<Rightarrow> Inr (s, r'))
      | None \<Rightarrow> Inr (new, r\<lparr>sr_services := map_assign key new (sr_services r)\<rparr>))"

text \<open>
  \<open>use_service\<close> as one call; \<open>construct\<close> is what happens while the lock is released: the service's
  constructor, and whatever other threads do to the registry meanwhile.
\<close>

definition use_service :: "string \<Rightarrow> (registry \<Rightarrow> nat \<times> registry) \<Rightarrow> registry \<Rightarrow> fault + nat \<times> registry" where
  "use_service key construct r =
     (case use_service_lookup key r of
        Some s \<Rightarrow> Inr (s, r)
      | None \<Rightarrow> (case construct r of (new, r') \<Rightarrow> use_service_install key new r'))"

definition has_service :: "string \<Rightarrow> registry \<Rightarrow> bool" where
  "has_service key r \<longleftrightarrow> map_find (sr_services r) key \<noteq> None"

definition add_service :: "string \<Rightarrow> nat \<Rightarrow> registry \<Rightarrow> fault + registry" where
  "add_service key new r =
     (if sr_owner r \<noteq> sr_context r new then Inl Assertion_Failed
      else if map_find (sr_services r) key \<noteq> None then Inl Assertion_Failed
      else Inr (r\<lparr>sr_services := map_assign key new (sr_services r)\<rparr>))"

text \<open>\<open>make_service\<close>: \<open>construct\<close> is the constructor with the forwarded arguments.\<close>

definition make_service :: "string \<Rightarrow> (registry \<Rightarrow> nat \<times> registry) \<Rightarrow> registry \<Rightarrow> fault + nat \<times> registry" where
  "make_service key construct r =
     (case construct r of (new, r') \<Rightarrow>
        (case add_service key new r' of Inl e \<Rightarrow> Inl e | Inr r'' \<Rightarrow> Inr (new, r'')))"

subsection \<open>The end of a context\<close>

text \<open>
  Both loops go through the map in the order of the keys. \<open>None\<close> is a \<open>shutdown()\<close> that does not
  return; a \<open>shutdown()\<close> does not touch the registry.
\<close>

fun shutdown_each :: "(nat \<Rightarrow> bool) \<Rightarrow> (string \<times> nat) list \<Rightarrow> registry \<Rightarrow> (fault + registry) option" where
  "shutdown_each ends [] r = Some (Inr r)"
| "shutdown_each ends ((key, s) # rest) r =
     (if s \<notin> set (sr_live r) then Some (Inl Undefined_Behaviour)
      else if \<not> ends s then None
      else shutdown_each ends rest (r\<lparr>sr_shut_down := sr_shut_down r @ [s]\<rparr>))"

definition shutdown_services :: "(nat \<Rightarrow> bool) \<Rightarrow> registry \<Rightarrow> (fault + registry) option" where
  "shutdown_services ends r = shutdown_each ends (sr_services r) r"

fun delete_each :: "(string \<times> nat) list \<Rightarrow> registry \<Rightarrow> fault + registry" where
  "delete_each [] r = Inr r"
| "delete_each ((key, s) # rest) r =
     (case delete_service s r of Inl e \<Rightarrow> Inl e | Inr r' \<Rightarrow> delete_each rest r')"

definition destroy_services :: "registry \<Rightarrow> fault + registry" where
  "destroy_services r =
     (case delete_each (sr_services r) r of Inl e \<Rightarrow> Inl e | Inr r' \<Rightarrow> Inr (r'\<lparr>sr_services := []\<rparr>))"

text \<open>The destructor of \<open>execution_context\<close>: \<open>shutdown()\<close>, then \<open>destroy()\<close>.\<close>

definition context_dtor :: "(nat \<Rightarrow> bool) \<Rightarrow> registry \<Rightarrow> (fault + registry) option" where
  "context_dtor ends r =
     (case shutdown_services ends r of
        None \<Rightarrow> None
      | Some (Inl e) \<Rightarrow> Some (Inl e)
      | Some (Inr r') \<Rightarrow> Some (destroy_services r'))"

text \<open>
  \<open>io_context\<close>: its constructor builds the scheduler and registers it under its type's name;
  \<open>use_service<scheduler>(io_context&)\<close> is the member \<open>impl_\<close>, without a lookup.
\<close>

definition scheduler_key :: string where
  "scheduler_key = ''scheduler''"

definition io_context_ctor :: "nat \<Rightarrow> fault + nat \<times> registry" where
  "io_context_ctor ctx =
     (case new_service ctx (registry_ctor ctx) of (impl, r) \<Rightarrow>
        (case add_service scheduler_key impl r of Inl e \<Rightarrow> Inl e | Inr r' \<Rightarrow> Inr (impl, r')))"

definition io_use_service ::
    "nat \<Rightarrow> string \<Rightarrow> (registry \<Rightarrow> nat \<times> registry) \<Rightarrow> registry \<Rightarrow> fault + nat \<times> registry" where
  "io_use_service impl key construct r =
     (if key = scheduler_key then Inr (impl, r) else use_service key construct r)"

lemmas registry_defs [op_defs] =
  registry_ctor_def new_service_def delete_service_def use_service_lookup_def use_service_install_def
  use_service_def has_service_def add_service_def make_service_def

subsection \<open>Threads using one registry\<close>

text \<open>
  A thread is the stack of its unfinished requests (a constructor may ask for other services) and
  the services it has got so far. \<open>Constructing\<close> is between the first critical section and the
  constructor's return, \<open>Constructed\<close> between that and the second one.
\<close>

datatype request = Constructing string | Constructed string nat

record requester =
  rq_frames :: "request list"
  rq_got :: "(string \<times> nat) list"

inductive request_step :: "registry \<Rightarrow> requester \<Rightarrow> registry \<Rightarrow> requester \<Rightarrow> bool" where
  hit: "use_service_lookup key r = Some s \<Longrightarrow>
    request_step r t r (t\<lparr>rq_got := (key, s) # rq_got t\<rparr>)"
| miss: "use_service_lookup key r = None \<Longrightarrow>
    request_step r t r (t\<lparr>rq_frames := Constructing key # rq_frames t\<rparr>)"
| construct: "rq_frames t = Constructing key # fs \<Longrightarrow> new_service (sr_owner r) r = (new, r') \<Longrightarrow>
    request_step r t r' (t\<lparr>rq_frames := Constructed key new # fs\<rparr>)"
| install: "rq_frames t = Constructed key new # fs \<Longrightarrow> use_service_install key new r = Inr (s, r') \<Longrightarrow>
    request_step r t r' (t\<lparr>rq_frames := fs, rq_got := (key, s) # rq_got t\<rparr>)"
| make: "make_service key (new_service ctx) r = Inr (s, r') \<Longrightarrow>
    request_step r t r' (t\<lparr>rq_got := (key, s) # rq_got t\<rparr>)"

inductive_cases request_stepE: "request_step r t r' t'"

inductive registry_step :: "registry \<times> requester list \<Rightarrow> registry \<times> requester list \<Rightarrow> bool" where
  "i < length ts \<Longrightarrow> request_step r (ts ! i) r' t' \<Longrightarrow> registry_step (r, ts) (r', ts[i := t'])"

definition started_registry :: "nat \<Rightarrow> nat \<Rightarrow> registry \<times> requester list" where
  "started_registry ctx n = (registry_ctor ctx, replicate n \<lparr>rq_frames = [], rq_got = []\<rparr>)"

subsection \<open>The invariant\<close>

fun frame_object :: "request \<Rightarrow> nat list" where
  "frame_object (Constructing key) = []"
| "frame_object (Constructed key new) = [new]"

definition objects_of :: "requester \<Rightarrow> nat multiset" where
  "objects_of t = mset (concat (map frame_object (rq_frames t)))"

text \<open>
  Every live object is registered under exactly one name or held by exactly one unfinished
  request, and what a thread has got is what the map says.
\<close>

definition registry_inv :: "registry \<Rightarrow> requester list \<Rightarrow> bool" where
  "registry_inv r ts \<longleftrightarrow>
     keys_sorted (sr_services r) \<and> distinct (sr_live r) \<and> (\<forall>s \<in> set (sr_live r). s < sr_next r) \<and>
     mset (sr_live r) = mset (map snd (sr_services r)) + sum_list (map objects_of ts) \<and>
     (\<forall>t \<in> set ts. \<forall>(key, s) \<in> set (rq_got t). map_find (sr_services r) key = Some s)"

lemma objects_of_simps [simp]:
  "objects_of (t\<lparr>rq_got := g\<rparr>) = objects_of t"
  "objects_of (t\<lparr>rq_frames := f # fs, rq_got := g\<rparr>) = mset (frame_object f) + objects_of (t\<lparr>rq_frames := fs\<rparr>)"
  "objects_of (t\<lparr>rq_frames := f # fs\<rparr>) = mset (frame_object f) + objects_of (t\<lparr>rq_frames := fs\<rparr>)"
  "objects_of (t\<lparr>rq_frames := fs, rq_got := g\<rparr>) = objects_of (t\<lparr>rq_frames := fs\<rparr>)"
  by (simp_all add: objects_of_def)

lemma objects_of_frames: "rq_frames t = fs \<Longrightarrow> objects_of (t\<lparr>rq_frames := fs\<rparr>) = objects_of t"
  by (simp add: objects_of_def)

lemma objects_of_cons:
  "rq_frames t = f # fs \<Longrightarrow> objects_of t = mset (frame_object f) + objects_of (t\<lparr>rq_frames := fs\<rparr>)"
  by (simp add: objects_of_def)

text \<open>How one thread's step changes what is live, registered and held.\<close>

lemma services_assign_new:
  assumes "keys_sorted m" "map_find m key = None"
  shows "mset (map snd (map_assign key s m)) = add_mset s (mset (map snd m))"
  using arg_cong [OF stdmap.entries_assign_new [OF assms, of s], of "image_mset snd"] by simp

lemma request_step_live:
  assumes step: "request_step r t r' t'"
    and inv: "keys_sorted (sr_services r)" "distinct (sr_live r)" "\<forall>s \<in> set (sr_live r). s < sr_next r"
    and bal: "mset (sr_live r) = mset (map snd (sr_services r)) + objects_of t + others"
  shows "keys_sorted (sr_services r') \<and> distinct (sr_live r') \<and> (\<forall>s \<in> set (sr_live r'). s < sr_next r') \<and>
    mset (sr_live r') = mset (map snd (sr_services r')) + objects_of t' + others"
  using step
proof cases
  case (hit key s)
  then show ?thesis using inv bal by simp
next
  case (miss key)
  then show ?thesis using inv bal by (simp add: objects_of_frames)
next
  case (construct key fs new)
  then show ?thesis
    using inv bal by (auto simp: new_service_def objects_of_cons less_Suc_eq)
next
  case (install key new fs s)
  have live: "new \<in> set (sr_live r)"
    using bal install by (auto simp: objects_of_cons simp flip: set_mset_mset)
  show ?thesis
  proof (cases "map_find (sr_services r) key")
    case None
    with install inv bal services_assign_new [OF inv(1) None, of new] show ?thesis
      by (auto simp: use_service_install_def objects_of_cons map_assign_sorted)
  next
    case (Some s')
    with install live have r': "r' = r\<lparr>sr_live := remove1 new (sr_live r)\<rparr>"
      by (auto simp: use_service_install_def delete_service_def)
    with install inv bal live show ?thesis by (auto simp: objects_of_cons dest: in_set_remove1 [THEN iffD1, rotated])
  qed
next
  case (make key ctx s)
  then have absent: "map_find (sr_services r) key = None"
    and r': "s = sr_next r" "sr_live r' = s # sr_live r" "sr_next r' = Suc (sr_next r)"
      "sr_services r' = map_assign key s (sr_services r)"
    by (auto simp: make_service_def add_service_def new_service_def split: if_splits)
  with make inv bal services_assign_new [OF inv(1) absent, of s] show ?thesis
    by (auto simp: map_assign_sorted less_Suc_eq)
qed

lemma request_step_got:
  assumes "request_step r t r' t'" "keys_sorted (sr_services r)"
  shows "(\<forall>k s. map_find (sr_services r) k = Some s \<longrightarrow> map_find (sr_services r') k = Some s) \<and>
    (\<forall>(k, s) \<in> set (rq_got t'). (k, s) \<in> set (rq_got t) \<or> map_find (sr_services r') k = Some s)"
  using assms
  by (cases rule: request_step.cases)
    (auto simp: registry_defs stdmap.find_assign split: option.splits sum.splits if_splits)

lemma registry_step_inv:
  assumes "registry_step (r, ts) (r', ts')" "registry_inv r ts"
  shows "registry_inv r' ts'"
proof -
  from assms(1) obtain i t' where i: "i < length ts" and step: "request_step r (ts ! i) r' t'"
      and ts': "ts' = ts[i := t']" by (auto elim: registry_step.cases)
  have mem: "ts ! i \<in> set ts" using i by simp
  obtain others where all: "sum_list (map objects_of ts) = objects_of (ts ! i) + others"
      and all': "sum_list (map objects_of ts') = objects_of t' + others"
    using sum_list_split_at [OF i, of objects_of] ts' by blast
  have "mset (sr_live r) = mset (map snd (sr_services r)) + objects_of (ts ! i) + others"
    using assms(2) all by (simp add: registry_inv_def ac_simps)
  from request_step_live [OF step _ _ _ this] assms(2) all'
  have live: "keys_sorted (sr_services r') \<and> distinct (sr_live r') \<and> (\<forall>s \<in> set (sr_live r'). s < sr_next r') \<and>
    mset (sr_live r') = mset (map snd (sr_services r')) + sum_list (map objects_of ts')"
    by (simp add: registry_inv_def ac_simps)
  have "\<forall>t \<in> set ts'. \<forall>(k, s) \<in> set (rq_got t). map_find (sr_services r') k = Some s"
  proof (intro ballI)
    fix t e assume t: "t \<in> set ts'" and e: "e \<in> set (rq_got t)"
    obtain k s where ks: "e = (k, s)" by (cases e)
    have sorted: "keys_sorted (sr_services r)"
      and before: "\<And>t k s. t \<in> set ts \<Longrightarrow> (k, s) \<in> set (rq_got t) \<Longrightarrow> map_find (sr_services r) k = Some s"
      using assms(2) by (auto simp: registry_inv_def)
    from request_step_got [OF step sorted]
    have kept: "map_find (sr_services r) k = Some s \<Longrightarrow> map_find (sr_services r') k = Some s"
      and new: "(k, s) \<in> set (rq_got t') \<Longrightarrow> (k, s) \<in> set (rq_got (ts ! i)) \<or> map_find (sr_services r') k = Some s"
      by auto
    have "t = t' \<or> t \<in> set ts" using t ts' set_update_subset_insert [of ts i t'] by auto
    then have "map_find (sr_services r') k = Some s"
      using before [OF mem] before [of t] kept new e ks by blast
    with ks show "case e of (k, s) \<Rightarrow> map_find (sr_services r') k = Some s" by simp
  qed
  with live show ?thesis by (simp add: registry_inv_def)
qed

lemma started_registry_inv: "started_registry ctx n = (r, ts) \<Longrightarrow> registry_inv r ts"
proof -
  have "sum_list (replicate n {#}) = {#}" by (induction n) auto
  then show "started_registry ctx n = (r, ts) \<Longrightarrow> registry_inv r ts"
    by (auto simp: started_registry_def registry_ctor_def registry_inv_def keys_sorted_def objects_of_def)
qed

lemma registry_run_inv:
  assumes "registry_step\<^sup>*\<^sup>* (started_registry ctx n) (r, ts)"
  shows "registry_inv r ts"
proof -
  have "case sy of (r, ts) \<Rightarrow> registry_inv r ts" if "registry_step\<^sup>*\<^sup>* (started_registry ctx n) sy" for sy
    using that
  proof (induction rule: rtranclp_induct)
    case base
    then show ?case using started_registry_inv by (auto split: prod.split)
  next
    case (step sy sy')
    then show ?case using registry_step_inv by (cases sy; cases sy') auto
  qed
  from this [OF assms] show ?thesis by simp
qed

end
