(* ===== verification/Service_Properties.thy ===== *)
theory Service_Properties
  imports Service_Registry
begin

text \<open>
  What an execution context promises about its services: one object per name whatever the threads
  do, no object lost or deleted twice, and an orderly end.
\<close>

subsection \<open>Sharing\<close>

lemma inv_registered_live:
  assumes "registry_inv r ts" "map_find (sr_services r) key = Some s"
  shows "s \<in> set (sr_live r)"
proof -
  have "(key, s) \<in> set (sr_services r)"
    using assms stdmap.visited [of "sr_services r" key s] by (simp add: registry_inv_def)
  then have "s \<in># mset (map snd (sr_services r))" by force
  then have "s \<in># mset (sr_live r)" using assms(1) by (simp add: registry_inv_def)
  then show ?thesis by simp
qed

lemma started_two_hits:
  "\<exists>r. registry_step\<^sup>*\<^sup>* (started_registry 3 2)
     (r, [\<lparr>rq_frames = [], rq_got = [(''epoll'', 0)]\<rparr>, \<lparr>rq_frames = [], rq_got = [(''epoll'', 0)]\<rparr>]) \<and>
     sr_services r = [(''epoll'', 0)] \<and> sr_live r = [0]"
proof -
  let ?idle = "\<lparr>rq_frames = [], rq_got = []\<rparr>"
  let ?got = "\<lparr>rq_frames = [], rq_got = [(''epoll'', 0)]\<rparr>"
  let ?r0 = "registry_ctor 3"
  let ?r1 = "snd (new_service 3 ?r0)"
  let ?r2 = "snd (new_service 3 ?r1)"
  let ?r3 = "?r2\<lparr>sr_services := [(''epoll'', 0)]\<rparr>"
  let ?r4 = "?r3\<lparr>sr_live := [0]\<rparr>"
  have start: "started_registry 3 2 = (?r0, [?idle, ?idle])"
    by (simp add: started_registry_def numeral_2_eq_2)
  have own: "sr_owner ?r0 = 3" "sr_owner ?r1 = 3" by (simp_all add: registry_defs)
  have "registry_step (?r0, [?idle, ?idle]) (?r0, [?idle\<lparr>rq_frames := [Constructing ''epoll'']\<rparr>, ?idle])"
    using registry_step.intros [of 0 "[?idle, ?idle]", OF _ request_step.miss [of "''epoll''" ?r0]]
    by (simp add: registry_defs)
  moreover have "registry_step (?r0, [?idle\<lparr>rq_frames := [Constructing ''epoll'']\<rparr>, ?idle])
      (?r0, [?idle\<lparr>rq_frames := [Constructing ''epoll'']\<rparr>, ?idle\<lparr>rq_frames := [Constructing ''epoll'']\<rparr>])"
    using registry_step.intros [of 1 "[?idle\<lparr>rq_frames := [Constructing ''epoll'']\<rparr>, ?idle]",
        OF _ request_step.miss [of "''epoll''" ?r0]]
    by (simp add: registry_defs)
  moreover have "registry_step
      (?r0, [?idle\<lparr>rq_frames := [Constructing ''epoll'']\<rparr>, ?idle\<lparr>rq_frames := [Constructing ''epoll'']\<rparr>])
      (?r1, [?idle\<lparr>rq_frames := [Constructed ''epoll'' 0]\<rparr>, ?idle\<lparr>rq_frames := [Constructing ''epoll'']\<rparr>])"
    using registry_step.intros [of 0 "[?idle\<lparr>rq_frames := [Constructing ''epoll'']\<rparr>,
          ?idle\<lparr>rq_frames := [Constructing ''epoll'']\<rparr>]",
        OF _ request_step.construct [of _ "''epoll''" "[]" ?r0 0 ?r1]]
    by (simp add: registry_defs)
  moreover have "registry_step
      (?r1, [?idle\<lparr>rq_frames := [Constructed ''epoll'' 0]\<rparr>, ?idle\<lparr>rq_frames := [Constructing ''epoll'']\<rparr>])
      (?r2, [?idle\<lparr>rq_frames := [Constructed ''epoll'' 0]\<rparr>, ?idle\<lparr>rq_frames := [Constructed ''epoll'' 1]\<rparr>])"
    using registry_step.intros [of 1 "[?idle\<lparr>rq_frames := [Constructed ''epoll'' 0]\<rparr>,
          ?idle\<lparr>rq_frames := [Constructing ''epoll'']\<rparr>]",
        OF _ request_step.construct [of _ "''epoll''" "[]" ?r1 1 ?r2]]
    by (simp add: registry_defs)
  moreover have "registry_step
      (?r2, [?idle\<lparr>rq_frames := [Constructed ''epoll'' 0]\<rparr>, ?idle\<lparr>rq_frames := [Constructed ''epoll'' 1]\<rparr>])
      (?r3, [?got, ?idle\<lparr>rq_frames := [Constructed ''epoll'' 1]\<rparr>])"
    using registry_step.intros [of 0 "[?idle\<lparr>rq_frames := [Constructed ''epoll'' 0]\<rparr>,
          ?idle\<lparr>rq_frames := [Constructed ''epoll'' 1]\<rparr>]",
        OF _ request_step.install [of _ "''epoll''" 0 "[]" ?r2 0 ?r3]]
    by (simp add: registry_defs map_assign_def)
  moreover have "registry_step (?r3, [?got, ?idle\<lparr>rq_frames := [Constructed ''epoll'' 1]\<rparr>]) (?r4, [?got, ?got])"
    using registry_step.intros [of 1 "[?got, ?idle\<lparr>rq_frames := [Constructed ''epoll'' 1]\<rparr>]",
        OF _ request_step.install [of _ "''epoll''" 1 "[]" ?r3 0 ?r4]]
    by (simp add: registry_defs)
  ultimately have "registry_step\<^sup>*\<^sup>* (started_registry 3 2) (?r4, [?got, ?got])"
    unfolding start by (meson converse_rtranclp_into_rtranclp rtranclp.rtrancl_refl)
  then show ?thesis by (intro exI [of _ ?r4]) simp
qed

text \<open>C21. Any number of threads ask one registry for services at the same time, each request
  looking up, constructing with the lock released and looking up again, constructors asking for
  further services. Whoever asks for a name gets the same object as everybody else; that object is
  alive and is the registered one.\<close>

theorem services_are_shared:
  assumes "registry_step\<^sup>*\<^sup>* (started_registry ctx n) (r, ts)"
    and "t \<in> set ts" and "t' \<in> set ts" and "(key, s) \<in> set (rq_got t)" and "(key, s') \<in> set (rq_got t')"
  shows "s = s' \<and> s \<in> set (sr_live r) \<and> map_find (sr_services r) key = Some s"
proof -
  have inv: "registry_inv r ts" by (rule registry_run_inv [OF assms(1)])
  then have "map_find (sr_services r) key = Some s" "map_find (sr_services r) key = Some s'"
    using assms(2-5) by (fastforce simp: registry_inv_def)+
  with inv_registered_live [OF inv] show ?thesis by simp
qed

theorem services_are_shared_witness:
  "\<exists>r ts. registry_step\<^sup>*\<^sup>* (started_registry 3 2) (r, ts) \<and> (''epoll'', 0) \<in> set (rq_got (ts ! 0)) \<and>
     (''epoll'', 0) \<in> set (rq_got (ts ! 1)) \<and> 0 \<in> set (sr_live r)"
proof -
  let ?got = "\<lparr>rq_frames = [], rq_got = [(''epoll'', 0)]\<rparr>"
  obtain r where run: "registry_step\<^sup>*\<^sup>* (started_registry 3 2) (r, [?got, ?got])"
    using started_two_hits by blast
  from services_are_shared [OF this, of ?got ?got "''epoll''" 0 0] have "0 \<in> set (sr_live r)" by simp
  with run show ?thesis by (intro exI [of _ r] exI [of _ "[?got, ?got]"]) simp
qed

text \<open>C39. Under any interleaving of requests for services no object is leaked: the live objects are,
  each once, the registered ones and those an unfinished request has just constructed. An object that
  lost the race to be registered is deleted.\<close>

theorem no_service_leaks:
  assumes "registry_step\<^sup>*\<^sup>* (started_registry ctx n) (r, ts)"
  shows "distinct (sr_live r) \<and>
    mset (sr_live r) = mset (map snd (sr_services r)) + sum_list (map objects_of ts)"
  using registry_run_inv [OF assms] by (simp add: registry_inv_def)

theorem no_service_leaks_witness:
  "\<exists>r ts. registry_step\<^sup>*\<^sup>* (started_registry 3 2) (r, ts) \<and> mset (sr_live r) = mset (map snd (sr_services r)) \<and>
     sr_services r = [(''epoll'', 0)]"
proof -
  let ?got = "\<lparr>rq_frames = [], rq_got = [(''epoll'', 0)]\<rparr>"
  obtain r where run: "registry_step\<^sup>*\<^sup>* (started_registry 3 2) (r, [?got, ?got])"
      and sv: "sr_services r = [(''epoll'', 0)]"
    using started_two_hits by blast
  from no_service_leaks [OF run] run sv show ?thesis by (auto simp: objects_of_def)
qed

subsection \<open>Adding\<close>

text \<open>\<open>add_service\<close> asserts that the service belongs to the registry's context and that its name
  is free; it changes nothing when it fails. After it succeeds, \<open>has_service\<close> holds and
  \<open>use_service\<close> returns that object without constructing anything, and every other name is as
  before.\<close>

theorem add_service_then_use:
  assumes "keys_sorted (sr_services r)"
  shows "add_service key s r =
    (if sr_context r s = sr_owner r \<and> \<not> has_service key r
     then Inr (r\<lparr>sr_services := map_assign key s (sr_services r)\<rparr>) else Inl Assertion_Failed) \<and>
    (add_service key s r = Inr r' \<longrightarrow>
       use_service key construct r' = Inr (s, r') \<and> has_service key r' \<and>
       (\<forall>k. k \<noteq> key \<longrightarrow> use_service_lookup k r' = use_service_lookup k r))"
  using assms by (auto simp: registry_defs stdmap.find_assign)

theorem add_service_then_use_witness:
  "add_service ''a'' 0 (registry_ctor 7) = Inl Assertion_Failed \<and>
   (\<exists>r'. add_service ''a'' 0 (registry_ctor 0) = Inr r' \<and>
      use_service ''a'' (\<lambda>r. (9, r)) r' = Inr (0, r') \<and> has_service ''a'' r')"
  using add_service_then_use [of "registry_ctor 7" "''a''" 0 _ undefined]
    add_service_then_use [of "registry_ctor 0" "''a''" 0 "(registry_ctor 0)\<lparr>sr_services := [(''a'', 0)]\<rparr>" "\<lambda>r. (9, r)"]
  by (simp add: registry_ctor_def keys_sorted_def has_service_def map_assign_def)

text \<open>After the constructor of \<open>io_context\<close>, which cannot fail, the specialised
  \<open>use_service<scheduler>(io_context&)\<close> and the registry agree: both give the context's own
  scheduler, and adding another one fails.\<close>

theorem io_context_owns_its_scheduler:
  "\<exists>impl r. io_context_ctor ctx = Inr (impl, r) \<and>
     io_use_service impl scheduler_key construct r = use_service scheduler_key construct r \<and>
     use_service scheduler_key construct r = Inr (impl, r) \<and>
     add_service scheduler_key s r = Inl Assertion_Failed"
  by (simp add: io_context_ctor_def registry_defs map_assign_def io_use_service_def)

subsection \<open>The end of a context\<close>

lemma shutdown_each_all:
  "snd ` set m \<subseteq> set (sr_live r) \<Longrightarrow> \<forall>s \<in> snd ` set m. ends s \<Longrightarrow>
   shutdown_each ends m r = Some (Inr (r\<lparr>sr_shut_down := sr_shut_down r @ map snd m\<rparr>))"
  by (induction m arbitrary: r) auto

lemma shutdown_each_stuck:
  "snd ` set m \<subseteq> set (sr_live r) \<Longrightarrow> \<not> (\<forall>s \<in> snd ` set m. ends s) \<Longrightarrow> shutdown_each ends m r = None"
proof (induction m arbitrary: r)
  case (Cons e m)
  obtain k s where e: "e = (k, s)" by (cases e)
  have "ends s \<Longrightarrow> shutdown_each ends m (r\<lparr>sr_shut_down := sr_shut_down r @ [s]\<rparr>) = None"
    by (rule Cons.IH) (use Cons.prems e in auto)
  with Cons.prems e show ?case by auto
qed simp

lemma delete_each_all:
  "distinct (map snd m) \<Longrightarrow> snd ` set m \<subseteq> set (sr_live r) \<Longrightarrow> distinct (sr_live r) \<Longrightarrow>
   \<exists>r'. delete_each m r = Inr r' \<and> set (sr_live r') = set (sr_live r) - snd ` set m \<and>
     distinct (sr_live r') \<and> sr_shut_down r' = sr_shut_down r"
proof (induction m arbitrary: r)
  case (Cons e m)
  obtain k s where e: "e = (k, s)" by (cases e)
  let ?r = "r\<lparr>sr_live := remove1 s (sr_live r)\<rparr>"
  have "delete_service s r = Inr ?r" using Cons.prems e by (simp add: delete_service_def)
  moreover have "\<exists>r'. delete_each m ?r = Inr r' \<and> set (sr_live r') = set (sr_live ?r) - snd ` set m \<and>
      distinct (sr_live r') \<and> sr_shut_down r' = sr_shut_down ?r"
    by (rule Cons.IH) (use Cons.prems e in auto)
  ultimately show ?case using Cons.prems e by (auto simp: set_remove1_eq)
qed simp

lemma context_dtor_complete:
  assumes "registry_inv r ts" and "\<And>t. t \<in> set ts \<Longrightarrow> rq_frames t = []"
  shows "if \<forall>s \<in> snd ` set (sr_services r). ends s
    then \<exists>r'. context_dtor ends r = Some (Inr r') \<and> sr_live r' = [] \<and> sr_services r' = [] \<and>
      sr_shut_down r' = sr_shut_down r @ map snd (sr_services r)
    else context_dtor ends r = None"
proof -
  have "sum_list (map objects_of ts) = {#}" using assms(2) by (simp add: objects_of_def sum_list_0 cong: map_cong)
  with assms(1) have ms: "mset (sr_live r) = mset (map snd (sr_services r))" and d: "distinct (sr_live r)"
    by (simp_all add: registry_inv_def)
  then have live: "set (sr_live r) = snd ` set (sr_services r)" and ds: "distinct (map snd (sr_services r))"
    by (metis list.set_map set_mset_mset) (metis d ms mset_eq_imp_distinct_iff)
  show ?thesis
  proof (cases "\<forall>s \<in> snd ` set (sr_services r). ends s")
    case True
    let ?r = "r\<lparr>sr_shut_down := sr_shut_down r @ map snd (sr_services r)\<rparr>"
    have "shutdown_services ends r = Some (Inr ?r)"
      unfolding shutdown_services_def by (rule shutdown_each_all) (use True live in auto)
    moreover obtain r' where "delete_each (sr_services ?r) ?r = Inr r'" "set (sr_live r') = {}"
        "sr_shut_down r' = sr_shut_down ?r"
      using delete_each_all [of "sr_services ?r" ?r] ds live d by auto
    ultimately show ?thesis using True by (simp add: context_dtor_def destroy_services_def)
  next
    case False
    have "shutdown_services ends r = None"
      unfolding shutdown_services_def by (rule shutdown_each_stuck) (use False live in auto)
    then show ?thesis using False by (simp add: context_dtor_def)
  qed
qed

text \<open>C31. The destructor of an execution context all of whose requests are finished calls
  \<open>shutdown()\<close> on every service, once, in the order of their names, then deletes each once, and
  leaves no object and an empty map; it fails to return exactly when some service's \<open>shutdown()\<close>
  does.\<close>

theorem context_ends_in_order:
  assumes "registry_step\<^sup>*\<^sup>* (started_registry ctx n) (r, ts)" and "\<And>t. t \<in> set ts \<Longrightarrow> rq_frames t = []"
  shows "if \<forall>s \<in> snd ` set (sr_services r). ends s
    then \<exists>r'. context_dtor ends r = Some (Inr r') \<and> sr_live r' = [] \<and> sr_services r' = [] \<and>
      sr_shut_down r' = sr_shut_down r @ map snd (sr_services r)
    else context_dtor ends r = None"
  by (rule context_dtor_complete [OF registry_run_inv [OF assms(1)] assms(2)])

theorem context_ends_in_order_witness:
  "\<exists>r r'. registry_step\<^sup>*\<^sup>* (started_registry 3 2)
      (r, [\<lparr>rq_frames = [], rq_got = [(''epoll'', 0)]\<rparr>, \<lparr>rq_frames = [], rq_got = [(''epoll'', 0)]\<rparr>]) \<and>
     context_dtor (\<lambda>s. True) r = Some (Inr r') \<and> sr_live r' = []"
proof -
  let ?got = "\<lparr>rq_frames = [], rq_got = [(''epoll'', 0)]\<rparr>"
  obtain r where run: "registry_step\<^sup>*\<^sup>* (started_registry 3 2) (r, [?got, ?got])"
    using started_two_hits by blast
  from context_ends_in_order [OF run, of "\<lambda>s. True"] run show ?thesis by auto
qed

end
