(* ===== verification/Byte_Order.thy ===== *)
theory Byte_Order
  imports Prelude
begin

unbundle bit_operations_syntax

text \<open>
  The byte order functions of \<^verbatim>\<open>socket_ops.cc\<close>. An integer in memory is the list of its bytes in
  the order of their addresses, on the little-endian hosts the library is built for. Each function
  has two bodies, chosen by \<open>BOOST_ASIO_WINDOWS_RUNTIME\<close>: one written byte by byte, and one that
  calls the C library, a parameter here.
\<close>

subsection \<open>Integers in memory\<close>

definition byte_at :: "nat \<Rightarrow> 'a::len word \<Rightarrow> byte" where
  "byte_at i x = ucast (drop_bit (8 * i) x)"

definition mem32 :: "uint32 \<Rightarrow> byte list" where
  "mem32 x = [byte_at 0 x, byte_at 1 x, byte_at 2 x, byte_at 3 x]"

definition mem16 :: "uint16 \<Rightarrow> byte list" where
  "mem16 x = [byte_at 0 x, byte_at 1 x]"

definition val32 :: "byte \<Rightarrow> byte \<Rightarrow> byte \<Rightarrow> byte \<Rightarrow> uint32" where
  "val32 a b c d = ucast a OR push_bit 8 (ucast b) OR push_bit 16 (ucast c) OR push_bit 24 (ucast d)"

definition val16 :: "byte \<Rightarrow> byte \<Rightarrow> uint16" where
  "val16 a b = ucast a OR push_bit 8 (ucast b)"

lemma bit_byte_at [simp]: "bit (byte_at i x) n \<longleftrightarrow> n < 8 \<and> bit x (8 * i + n)"
  by (auto simp: byte_at_def bit_simps add.commute)

lemma bit_val32 [simp]:
  "bit (val32 a b c d) n \<longleftrightarrow>
     (if n < 8 then bit a n else if n < 16 then bit b (n - 8)
      else if n < 24 then bit c (n - 16) else n < 32 \<and> bit d (n - 24))"
  using bit_imp_le_length [of a n] bit_imp_le_length [of b "n - 8"]
    bit_imp_le_length [of c "n - 16"] bit_imp_le_length [of d "n - 24"]
  by (auto simp: val32_def bit_simps not_less)

lemma bit_val16 [simp]:
  "bit (val16 a b) n \<longleftrightarrow> (if n < 8 then bit a n else n < 16 \<and> bit b (n - 8))"
  using bit_imp_le_length [of a n] bit_imp_le_length [of b "n - 8"]
  by (auto simp: val16_def bit_simps not_less)

lemma val32_bytes [simp]: "val32 (byte_at 0 x) (byte_at 1 x) (byte_at 2 x) (byte_at 3 x) = x"
proof (rule bit_word_eqI)
  fix n assume "n < LENGTH(32)"
  then show "bit (val32 (byte_at 0 x) (byte_at 1 x) (byte_at 2 x) (byte_at 3 x)) n = bit x n"
    by (auto simp: not_less)
qed

lemma val16_bytes [simp]: "val16 (byte_at 0 x) (byte_at 1 x) = x"
  by (rule bit_word_eqI) (auto simp: not_less)

lemma bytes_val32 [simp]:
  "byte_at 0 (val32 a b c d) = a" "byte_at 1 (val32 a b c d) = b"
  "byte_at 2 (val32 a b c d) = c" "byte_at 3 (val32 a b c d) = d"
  by (rule bit_word_eqI; simp del: One_nat_def)+

lemma bytes_val16 [simp]: "byte_at 0 (val16 a b) = a" "byte_at 1 (val16 a b) = b"
  by (rule bit_word_eqI; simp del: One_nat_def)+

text \<open>An integer is determined by its memory.\<close>

lemma mem32_inject: "mem32 x = mem32 y \<longleftrightarrow> x = y"
  by (auto simp: mem32_def simp del: One_nat_def) (metis val32_bytes)

lemma mem16_inject: "mem16 x = mem16 y \<longleftrightarrow> x = y"
  by (auto simp: mem16_def simp del: One_nat_def) (metis val16_bytes)

subsection \<open>The functions\<close>

definition network_to_host_long :: "bool \<Rightarrow> (uint32 \<Rightarrow> uint32) \<Rightarrow> uint32 \<Rightarrow> uint32" where
  "network_to_host_long windows_runtime ntohl v =
     (if windows_runtime
      then push_bit 24 (ucast (byte_at 0 v)) OR push_bit 16 (ucast (byte_at 1 v)) OR
           push_bit 8 (ucast (byte_at 2 v)) OR ucast (byte_at 3 v)
      else ntohl v)"

definition host_to_network_long :: "bool \<Rightarrow> (uint32 \<Rightarrow> uint32) \<Rightarrow> uint32 \<Rightarrow> uint32" where
  "host_to_network_long windows_runtime htonl v =
     (if windows_runtime
      then val32 (ucast (drop_bit 24 v AND 0xFF)) (ucast (drop_bit 16 v AND 0xFF))
                 (ucast (drop_bit 8 v AND 0xFF)) (ucast (v AND 0xFF))
      else htonl v)"

definition network_to_host_short :: "bool \<Rightarrow> (uint16 \<Rightarrow> uint16) \<Rightarrow> uint16 \<Rightarrow> uint16" where
  "network_to_host_short windows_runtime ntohs v =
     (if windows_runtime
      then push_bit 8 (ucast (byte_at 0 v)) OR ucast (byte_at 1 v)
      else ntohs v)"

definition host_to_network_short :: "bool \<Rightarrow> (uint16 \<Rightarrow> uint16) \<Rightarrow> uint16 \<Rightarrow> uint16" where
  "host_to_network_short windows_runtime htons v =
     (if windows_runtime
      then val16 (ucast (drop_bit 8 v AND 0xFF)) (ucast (v AND 0xFF))
      else htons v)"

text \<open>What the manual says of the C library's functions: they exchange the bytes of the host for
  those of the network, most significant first.\<close>

definition swaps32 :: "(uint32 \<Rightarrow> uint32) \<Rightarrow> bool" where
  "swaps32 f \<longleftrightarrow> (\<forall>x. mem32 (f x) = rev (mem32 x))"

definition swaps16 :: "(uint16 \<Rightarrow> uint16) \<Rightarrow> bool" where
  "swaps16 f \<longleftrightarrow> (\<forall>x. mem16 (f x) = rev (mem16 x))"

definition swap32 :: "uint32 \<Rightarrow> uint32" where
  "swap32 x = val32 (byte_at 3 x) (byte_at 2 x) (byte_at 1 x) (byte_at 0 x)"

definition swap16 :: "uint16 \<Rightarrow> uint16" where
  "swap16 x = val16 (byte_at 1 x) (byte_at 0 x)"

lemma swap_mem [simp]: "mem32 (swap32 x) = rev (mem32 x)" "mem16 (swap16 y) = rev (mem16 y)"
  by (simp_all add: mem32_def mem16_def swap32_def swap16_def del: One_nat_def)

lemma swaps32_iff: "swaps32 f \<longleftrightarrow> f = swap32"
  by (auto simp: swaps32_def fun_eq_iff mem32_inject simp flip: swap_mem)

lemma swaps16_iff: "swaps16 f \<longleftrightarrow> f = swap16"
  by (auto simp: swaps16_def fun_eq_iff mem16_inject simp flip: swap_mem)

lemma low_byte: "ucast (drop_bit (8 * i) v AND 0xFF) = byte_at i v" for v :: "'a::len word"
proof -
  have eq: "(0xFF :: 'a word) = mask 8" by (simp add: mask_eq_exp_minus_1)
  show ?thesis unfolding eq
    by (intro bit_word_eqI) (auto simp: bit_simps add.commute simp del: mask_numeral dest: bit_imp_le_length)
qed

lemma windows_bodies:
  "network_to_host_long True f v = swap32 v" "host_to_network_long True f v = swap32 v"
  "network_to_host_short True g w = swap16 w" "host_to_network_short True g w = swap16 w"
  using low_byte [of 0 v] low_byte [of 1 v] low_byte [of 2 v] low_byte [of 3 v] low_byte [of 0 w] low_byte [of 1 w]
  by (simp_all add: network_to_host_long_def host_to_network_long_def network_to_host_short_def
      host_to_network_short_def swap32_def swap16_def val32_def val16_def ac_simps)

lemma swap_swap [simp]: "swap32 (swap32 x) = x" "swap16 (swap16 y) = y"
  by (simp_all add: swap32_def swap16_def del: One_nat_def)

text \<open>C38. On both builds the conversions are inverse to each other and, given that the C library's
  functions exchange the order of the bytes, the byte-by-byte bodies compute the same values: what
  goes out on one build is read back by the other.\<close>

theorem byte_order_round_trip:
  assumes "swaps32 ntohl" and "swaps32 htonl" and "swaps16 ntohs" and "swaps16 htons"
  shows "network_to_host_long b ntohl (host_to_network_long b' htonl x) = x \<and>
    host_to_network_long b htonl (network_to_host_long b' ntohl x) = x \<and>
    network_to_host_short b ntohs (host_to_network_short b' htons y) = y \<and>
    host_to_network_short b htons (network_to_host_short b' ntohs y) = y \<and>
    mem32 (host_to_network_long b htonl x) = rev (mem32 x) \<and>
    mem16 (host_to_network_short b htons y) = rev (mem16 y)"
proof -
  have "network_to_host_long b ntohl v = swap32 v" "host_to_network_long b htonl v = swap32 v"
    "network_to_host_short b ntohs w = swap16 w" "host_to_network_short b htons w = swap16 w" for b v w
    using assms windows_bodies
    by (cases b; simp add: swaps32_iff swaps16_iff network_to_host_long_def host_to_network_long_def
        network_to_host_short_def host_to_network_short_def)+
  then show ?thesis by simp
qed

theorem byte_order_round_trip_witness:
  "network_to_host_short True swap16 (host_to_network_short False swap16 8080) = 8080 \<and>
   mem16 (host_to_network_short True swap16 8080) = rev (mem16 8080)"
  using byte_order_round_trip [of swap32 swap32 swap16 swap16 True False 0 8080]
  by (simp add: swaps32_iff swaps16_iff)

end
