(* ===== verification/Socket_Ops.thy ===== *)
theory Socket_Ops
  imports Byte_Order
begin

text \<open>
  \<^verbatim>\<open>socket_ops.cc\<close>, \<^verbatim>\<open>socket_ops.hpp\<close> and \<^verbatim>\<open>socket_types.hpp\<close>: the thin layer over the socket calls of
  the operating system that turns \<open>errno\<close> into an \<open>std::error_code\<close>, and the loops that make the
  blocking and the non-blocking transfers. A system call is a parameter: a function of \<open>errno\<close> and
  of the rest of the outside world that gives its result and both of them afterwards.
\<close>

subsection \<open>Constants\<close>

definition user_set_non_blocking :: uint32 where "user_set_non_blocking = 1"
definition internal_non_blocking :: uint32 where "internal_non_blocking = 2"
definition non_blocking :: uint32 where
  "non_blocking = user_set_non_blocking OR internal_non_blocking"
definition enable_connection_aborted :: uint32 where "enable_connection_aborted = 4"
definition user_set_linger :: uint32 where "user_set_linger = 8"
definition stream_oriented :: uint32 where "stream_oriented = 16"
definition datagram_oriented :: uint32 where "datagram_oriented = 32"
definition possible_dup :: uint32 where "possible_dup = 64"

lemmas state_flags = user_set_non_blocking_def internal_non_blocking_def non_blocking_def
  enable_connection_aborted_def user_set_linger_def stream_oriented_def datagram_oriented_def
  possible_dup_def

definition invalid_socket :: int where "invalid_socket = -1"
definition socket_error_retval :: int where "socket_error_retval = -1"
definition max_addr_v6_str_len :: nat where "max_addr_v6_str_len = 256"
definition custom_socket_option_level :: uint32 where "custom_socket_option_level = 0xA5100000"
definition enable_connection_aborted_option :: uint32 where "enable_connection_aborted_option = 1"
definition always_fail_option :: uint32 where "always_fail_option = 2"

text \<open>Constants of the system headers (Linux).\<close>

definition SOL_SOCKET :: uint32 where "SOL_SOCKET = 1"
definition SO_SNDBUF :: uint32 where "SO_SNDBUF = 7"
definition SO_RCVBUF :: uint32 where "SO_RCVBUF = 8"
definition SO_LINGER :: uint32 where "SO_LINGER = 13"
definition MSG_NOSIGNAL :: uint32 where "MSG_NOSIGNAL = 0x4000"
definition O_NONBLOCK :: int where "O_NONBLOCK = 0x800"
definition AF_INET :: int where "AF_INET = 2"
definition AF_INET6 :: int where "AF_INET6 = 10"
definition POLLIN :: uint16 where "POLLIN = 1"
definition POLLPRI :: uint16 where "POLLPRI = 2"
definition POLLOUT :: uint16 where "POLLOUT = 4"
definition POLLERR :: uint16 where "POLLERR = 8"
definition POLLHUP :: uint16 where "POLLHUP = 16"

subsection \<open>System calls and errno\<close>

record 'os env =
  en_errno :: error_code
  en_os :: 'os

type_synonym ('os, 'r) syscall = "'os env \<Rightarrow> 'r \<times> 'os env"

definition clear_last_error :: "'os env \<Rightarrow> 'os env" where
  "clear_last_error env = env\<lparr>en_errno := 0\<rparr>"

definition clear_current_error :: "bool \<Rightarrow> error_code \<Rightarrow> error_code" where
  "clear_current_error flag ec = (if flag then no_error else ec)"

definition error_wrapper :: "'r \<Rightarrow> 'os env \<Rightarrow> 'r \<times> error_code" where
  "error_wrapper v env = (v, en_errno env)"

text \<open>\<open>clear_last_error(); r = error_wrapper(call, ec);\<close>\<close>

definition wrapped :: "('os, 'r) syscall \<Rightarrow> 'os env \<Rightarrow> 'r \<times> error_code \<times> 'os env" where
  "wrapped call env =
     (let (r, env1) = call (clear_last_error env); (v, ec) = error_wrapper r env1 in (v, ec, env1))"

text \<open>
  The calls with an address length: \<open>socklen_t\<close> has 32 bits, \<open>std::size_t\<close> 64. A pointer that may
  be null is an option.
\<close>

definition call_accept ::
    "(int \<Rightarrow> 'a \<Rightarrow> uint32 option \<Rightarrow> ('os, int \<times> 'a \<times> uint32) syscall) \<Rightarrow> int \<Rightarrow> 'a \<Rightarrow> size_t option \<Rightarrow>
     ('os, int \<times> 'a \<times> size_t option) syscall" where
  "call_accept sys sockfd addr addrlen env =
     (let len = (case addrlen of Some n \<Rightarrow> ucast n | None \<Rightarrow> 0);
          ((result, addr', len'), env') =
            sys sockfd addr (case addrlen of Some _ \<Rightarrow> Some len | None \<Rightarrow> None) env
      in ((result, addr', map_option (\<lambda>_. ucast len') addrlen), env'))"

definition call_bind ::
    "(int \<Rightarrow> 'a \<Rightarrow> uint32 \<Rightarrow> ('os, int) syscall) \<Rightarrow> int \<Rightarrow> 'a \<Rightarrow> size_t \<Rightarrow> ('os, int) syscall" where
  "call_bind sys sockfd addr addrlen = sys sockfd addr (ucast addrlen)"

definition call_connect ::
    "(int \<Rightarrow> 'a \<Rightarrow> uint32 \<Rightarrow> ('os, int) syscall) \<Rightarrow> int \<Rightarrow> 'a \<Rightarrow> size_t \<Rightarrow> ('os, int) syscall" where
  "call_connect sys sockfd addr addrlen = sys sockfd addr (ucast addrlen)"

definition call_setsockopt ::
    "(int \<Rightarrow> uint32 \<Rightarrow> uint32 \<Rightarrow> byte list \<Rightarrow> uint32 \<Rightarrow> ('os, int) syscall) \<Rightarrow>
     int \<Rightarrow> uint32 \<Rightarrow> uint32 \<Rightarrow> byte list \<Rightarrow> size_t \<Rightarrow> ('os, int) syscall" where
  "call_setsockopt sys sockfd level optname optval optlen =
     (let len = ucast optlen in sys sockfd level optname optval len)"

definition call_getsockopt ::
    "(int \<Rightarrow> uint32 \<Rightarrow> uint32 \<Rightarrow> byte list \<Rightarrow> uint32 \<Rightarrow> ('os, int \<times> byte list \<times> uint32) syscall) \<Rightarrow>
     int \<Rightarrow> uint32 \<Rightarrow> uint32 \<Rightarrow> byte list \<Rightarrow> size_t \<Rightarrow> ('os, int \<times> byte list \<times> size_t) syscall" where
  "call_getsockopt sys sockfd level optname optval optlen env =
     (let ((result, optval', len'), env') = sys sockfd level optname optval (ucast optlen) env
      in ((result, optval', ucast len'), env'))"

text \<open>\<open>call_getpeername\<close> and \<open>call_getsockname\<close>.\<close>

definition call_getname ::
    "(int \<Rightarrow> 'a \<Rightarrow> uint32 \<Rightarrow> ('os, int \<times> 'a \<times> uint32) syscall) \<Rightarrow> int \<Rightarrow> 'a \<Rightarrow> size_t \<Rightarrow>
     ('os, int \<times> 'a \<times> size_t) syscall" where
  "call_getname sys sockfd addr addrlen env =
     (let ((result, addr', len'), env') = sys sockfd addr (ucast addrlen) env
      in ((result, addr', ucast len'), env'))"

lemmas env_defs [op_defs] = clear_last_error_def clear_current_error_def error_wrapper_def wrapped_def

subsection \<open>The wrappers\<close>

definition so_socket :: "(int \<Rightarrow> int \<Rightarrow> int \<Rightarrow> ('os, int) syscall) \<Rightarrow> int \<Rightarrow> int \<Rightarrow> int \<Rightarrow> 'os env \<Rightarrow>
    int \<times> error_code \<times> 'os env" where
  "so_socket sys af typ protocol env =
     (let (sockfd, ec, env') = wrapped (sys af typ protocol) env
      in (sockfd, clear_current_error (sockfd \<noteq> invalid_socket) ec, env'))"

definition so_accept ::
    "(int \<Rightarrow> 'a \<Rightarrow> uint32 option \<Rightarrow> ('os, int \<times> 'a \<times> uint32) syscall) \<Rightarrow> int \<Rightarrow> 'a \<Rightarrow> size_t option \<Rightarrow>
     'os env \<Rightarrow> int \<times> 'a \<times> size_t option \<times> error_code \<times> 'os env" where
  "so_accept sys sockfd addr addrlen env =
     (if sockfd = invalid_socket
      then (socket_error_retval, addr, addrlen, make_error_code bad_file_descriptor, env)
      else let ((new_sockfd, addr', len'), ec, env') = wrapped (call_accept sys sockfd addr addrlen) env
           in (new_sockfd, addr', len', clear_current_error (new_sockfd \<noteq> invalid_socket) ec, env'))"

definition so_bind ::
    "(int \<Rightarrow> 'a \<Rightarrow> uint32 \<Rightarrow> ('os, int) syscall) \<Rightarrow> int \<Rightarrow> 'a \<Rightarrow> size_t \<Rightarrow> 'os env \<Rightarrow> int \<times> error_code \<times> 'os env"
where
  "so_bind sys sockfd addr addrlen env =
     (if sockfd = invalid_socket then (socket_error_retval, make_error_code bad_file_descriptor, env)
      else let (result, ec, env') = wrapped (call_bind sys sockfd addr addrlen) env
           in (result, clear_current_error (result = 0) ec, env'))"

definition so_shutdown :: "(int \<Rightarrow> int \<Rightarrow> ('os, int) syscall) \<Rightarrow> int \<Rightarrow> int \<Rightarrow> 'os env \<Rightarrow> int \<times> error_code \<times> 'os env"
where
  "so_shutdown sys sockfd how env =
     (if sockfd = invalid_socket then (socket_error_retval, make_error_code bad_file_descriptor, env)
      else let (result, ec, env') = wrapped (sys sockfd how) env
           in (result, clear_current_error (result = 0) ec, env'))"

definition so_connect ::
    "(int \<Rightarrow> 'a \<Rightarrow> uint32 \<Rightarrow> ('os, int) syscall) \<Rightarrow> int \<Rightarrow> 'a \<Rightarrow> size_t \<Rightarrow> 'os env \<Rightarrow> int \<times> error_code \<times> 'os env"
where
  "so_connect sys sockfd addr addrlen env =
     (if sockfd = invalid_socket then (socket_error_retval, make_error_code bad_file_descriptor, env)
      else let (result, ec, env') = wrapped (call_connect sys sockfd addr addrlen) env;
               ec1 = clear_current_error (result = 0) ec
           in (result, if result > 0 \<and> ec1 = make_error_code resource_unavailable_try_again
                       then make_error_code not_enough_memory else ec1, env'))"

definition so_listen :: "(int \<Rightarrow> int \<Rightarrow> ('os, int) syscall) \<Rightarrow> int \<Rightarrow> int \<Rightarrow> 'os env \<Rightarrow> int \<times> error_code \<times> 'os env"
where
  "so_listen sys sockfd backlog env =
     (if sockfd = invalid_socket then (socket_error_retval, make_error_code bad_file_descriptor, env)
      else let (result, ec, env') = wrapped (sys sockfd backlog) env
           in (result, clear_current_error (result = 0) ec, env'))"

definition so_getpeername ::
    "(int \<Rightarrow> 'a \<Rightarrow> uint32 \<Rightarrow> ('os, int \<times> 'a \<times> uint32) syscall) \<Rightarrow> int \<Rightarrow> 'a \<Rightarrow> size_t \<Rightarrow> bool \<Rightarrow> 'os env \<Rightarrow>
     int \<times> 'a \<times> size_t \<times> error_code \<times> 'os env" where
  "so_getpeername sys sockfd addr addrlen cached env =
     (if sockfd = invalid_socket
      then (socket_error_retval, addr, addrlen, make_error_code bad_file_descriptor, env)
      else let ((result, addr', len'), ec, env') = wrapped (call_getname sys sockfd addr addrlen) env
           in (result, addr', len', clear_current_error (result = 0) ec, env'))"

definition so_getsockname ::
    "(int \<Rightarrow> 'a \<Rightarrow> uint32 \<Rightarrow> ('os, int \<times> 'a \<times> uint32) syscall) \<Rightarrow> int \<Rightarrow> 'a \<Rightarrow> size_t \<Rightarrow> 'os env \<Rightarrow>
     int \<times> 'a \<times> size_t \<times> error_code \<times> 'os env" where
  "so_getsockname sys sockfd addr addrlen env =
     (if sockfd = invalid_socket
      then (socket_error_retval, addr, addrlen, make_error_code bad_file_descriptor, env)
      else let ((result, addr', len'), ec, env') = wrapped (call_getname sys sockfd addr addrlen) env
           in (result, addr', len', clear_current_error (result = 0) ec, env'))"

text \<open>\<open>close\<close> also returns the new value of \<open>state\<close>.\<close>

definition so_close ::
    "(int \<Rightarrow> ('os, int) syscall) \<Rightarrow> (int \<Rightarrow> ('os, int) syscall) \<Rightarrow> (int \<Rightarrow> int \<Rightarrow> ('os, int) syscall) \<Rightarrow>
     int \<Rightarrow> uint32 \<Rightarrow> bool \<Rightarrow> 'os env \<Rightarrow> int \<times> uint32 \<times> error_code \<times> 'os env" where
  "so_close sys_close get_flags set_flags sockfd state destruction env =
     (if sockfd = invalid_socket then (0, state, clear_current_error True no_error, env)
      else
        (let (result, ec, env1) = wrapped (sys_close sockfd) env
         in if result \<noteq> 0 \<and> (ec \<noteq> make_error_code operation_would_block \<or>
                              ec \<noteq> make_error_code resource_unavailable_try_again)
            then
              (let (flags, env2) = get_flags sockfd env1;
                   env3 = (if flags \<ge> 0
                           then snd (set_flags sockfd (flags AND NOT O_NONBLOCK) env2) else env2);
                   (result', ec', env4) = wrapped (sys_close sockfd) env3
               in (result', state AND NOT non_blocking, clear_current_error (result' = 0) ec', env4))
            else (result, state, clear_current_error (result = 0) ec, env1)))"

subsection \<open>Waiting for readiness\<close>

text \<open>\<open>poll_read\<close>, \<open>poll_write\<close> and \<open>poll_error\<close>; none of them reads its argument \<open>msec\<close>.\<close>

definition poll_fd ::
    "(int \<Rightarrow> uint16 \<Rightarrow> int \<Rightarrow> ('os, int) syscall) \<Rightarrow> uint16 \<Rightarrow> int \<Rightarrow> uint32 \<Rightarrow> 'os env \<Rightarrow>
     int \<times> error_code \<times> 'os env" where
  "poll_fd sys_poll events sockfd state env =
     (if sockfd = invalid_socket then (socket_error_retval, make_error_code bad_file_descriptor, env)
      else
        (let timeout = (if state AND user_set_non_blocking \<noteq> 0 then 0 else -1);
             (result, ec, env') = wrapped (sys_poll sockfd events timeout) env;
             ec1 = clear_current_error True ec
         in (result, if result = 0 \<and> state AND user_set_non_blocking \<noteq> 0
                     then make_error_code operation_would_block else ec1, env')))"

definition poll_read ::
    "(int \<Rightarrow> uint16 \<Rightarrow> int \<Rightarrow> ('os, int) syscall) \<Rightarrow> int \<Rightarrow> uint32 \<Rightarrow> int \<Rightarrow> 'os env \<Rightarrow> int \<times> error_code \<times> 'os env"
where
  "poll_read sys_poll sockfd state msec = poll_fd sys_poll POLLIN sockfd state"

definition poll_write ::
    "(int \<Rightarrow> uint16 \<Rightarrow> int \<Rightarrow> ('os, int) syscall) \<Rightarrow> int \<Rightarrow> uint32 \<Rightarrow> int \<Rightarrow> 'os env \<Rightarrow> int \<times> error_code \<times> 'os env"
where
  "poll_write sys_poll sockfd state msec = poll_fd sys_poll POLLOUT sockfd state"

definition poll_error ::
    "(int \<Rightarrow> uint16 \<Rightarrow> int \<Rightarrow> ('os, int) syscall) \<Rightarrow> int \<Rightarrow> uint32 \<Rightarrow> 'os env \<Rightarrow> int \<times> error_code \<times> 'os env"
where
  "poll_error sys_poll sockfd state = poll_fd sys_poll (POLLPRI OR POLLERR OR POLLHUP) sockfd state"

subsection \<open>Transfers\<close>

text \<open>
  \<open>recvmsg\<close> and \<open>sendmsg\<close> take the socket, the buffers, their number and the flags and return an
  \<open>ssize_t\<close>; the number goes through \<open>int\<close>, the result through \<open>std::size_t\<close>.
\<close>

type_synonym ('os, 'b) transfer = "int \<Rightarrow> 'b \<Rightarrow> size_t \<Rightarrow> uint32 \<Rightarrow> ('os, int) syscall"

definition iov_count :: "size_t \<Rightarrow> size_t" where
  "iov_count count = scast (ucast count :: uint32)"

definition so_recv :: "('os, 'b) transfer \<Rightarrow> int \<Rightarrow> 'b \<Rightarrow> size_t \<Rightarrow> uint32 \<Rightarrow> 'os env \<Rightarrow>
    size_t \<times> error_code \<times> 'os env" where
  "so_recv recvmsg sockfd bufs count flags env =
     (let (r, ec, env') = wrapped (recvmsg sockfd bufs (iov_count count) flags) env;
          result = word_of_int r
      in (result, clear_current_error (result = 0) ec, env'))"

definition so_send :: "('os, 'b) transfer \<Rightarrow> int \<Rightarrow> 'b \<Rightarrow> size_t \<Rightarrow> uint32 \<Rightarrow> 'os env \<Rightarrow>
    size_t \<times> error_code \<times> 'os env" where
  "so_send sendmsg sockfd bufs count flags env =
     (let (r, ec, env') = wrapped (sendmsg sockfd bufs (iov_count count) (flags OR MSG_NOSIGNAL)) env;
          result = word_of_int r
      in (result, clear_current_error (result = 0) ec, env'))"

text \<open>The loops. None: the loop goes on for ever.\<close>

partial_function (option) recv_loop ::
    "('os, 'b) transfer \<Rightarrow> (int \<Rightarrow> uint16 \<Rightarrow> int \<Rightarrow> ('os, int) syscall) \<Rightarrow> int \<Rightarrow> uint32 \<Rightarrow> 'b \<Rightarrow> size_t \<Rightarrow>
     uint32 \<Rightarrow> 'os env \<Rightarrow> (size_t \<times> error_code \<times> 'os env) option" where
  "recv_loop recvmsg sys_poll sockfd state bufs count flags env =
     (case so_recv recvmsg sockfd bufs count flags env of (r, ec, env1) \<Rightarrow>
        if sint r > 0 then Some (r, ec, env1)
        else if state AND stream_oriented \<noteq> 0 \<and> sint r = 0
        then Some (0, make_error_code invalid_seek, env1)
        else if state AND stream_oriented \<noteq> 0 \<and>
          (ec \<noteq> make_error_code operation_would_block \<or> ec \<noteq> make_error_code resource_unavailable_try_again)
        then Some (0, ec, env1)
        else (case poll_read sys_poll sockfd 0 (-1) env1 of (p, ec', env2) \<Rightarrow>
                if p < 0 then Some (0, ec', env2)
                else recv_loop recvmsg sys_poll sockfd state bufs count flags env2))"

definition sync_recv ::
    "('os, 'b) transfer \<Rightarrow> (int \<Rightarrow> uint16 \<Rightarrow> int \<Rightarrow> ('os, int) syscall) \<Rightarrow> int \<Rightarrow> uint32 \<Rightarrow> 'b \<Rightarrow> size_t \<Rightarrow>
     uint32 \<Rightarrow> bool \<Rightarrow> 'os env \<Rightarrow> (size_t \<times> error_code \<times> 'os env) option" where
  "sync_recv recvmsg sys_poll sockfd state bufs count flags all_empty env =
     (if sockfd = invalid_socket then Some (0, make_error_code bad_file_descriptor, env)
      else if all_empty \<and> state AND stream_oriented \<noteq> 0 then Some (0, no_error, env)
      else recv_loop recvmsg sys_poll sockfd state bufs count flags env)"

partial_function (option) send_loop ::
    "('os, 'b) transfer \<Rightarrow> (int \<Rightarrow> uint16 \<Rightarrow> int \<Rightarrow> ('os, int) syscall) \<Rightarrow> int \<Rightarrow> uint32 \<Rightarrow> 'b \<Rightarrow> size_t \<Rightarrow>
     uint32 \<Rightarrow> 'os env \<Rightarrow> (size_t \<times> error_code \<times> 'os env) option" where
  "send_loop sendmsg sys_poll sockfd state bufs count flags env =
     (case so_send sendmsg sockfd bufs count flags env of (r, ec, env1) \<Rightarrow>
        if sint r \<ge> 0 then Some (r, ec, env1)
        else if state AND user_set_non_blocking \<noteq> 0 \<or>
          (ec \<noteq> make_error_code operation_would_block \<and> ec \<noteq> make_error_code resource_unavailable_try_again)
        then Some (0, ec, env1)
        else (case poll_write sys_poll sockfd 0 (-1) env1 of (p, ec', env2) \<Rightarrow>
                if p < 0 then Some (0, ec', env2)
                else send_loop sendmsg sys_poll sockfd state bufs count flags env2))"

definition sync_send ::
    "('os, 'b) transfer \<Rightarrow> (int \<Rightarrow> uint16 \<Rightarrow> int \<Rightarrow> ('os, int) syscall) \<Rightarrow> int \<Rightarrow> uint32 \<Rightarrow> 'b \<Rightarrow> size_t \<Rightarrow>
     uint32 \<Rightarrow> bool \<Rightarrow> 'os env \<Rightarrow> (size_t \<times> error_code \<times> 'os env) option" where
  "sync_send sendmsg sys_poll sockfd state bufs count flags all_empty env =
     (if sockfd = invalid_socket then Some (0, make_error_code bad_file_descriptor, env)
      else send_loop sendmsg sys_poll sockfd state bufs count flags env)"

text \<open>
  \<open>non_blocking_send\<close>: whether the operation is complete, the error, \<open>bytes_transferred\<close> (as it was
  when the send would block) and the world.
\<close>

partial_function (option) non_blocking_send ::
    "('os, 'b) transfer \<Rightarrow> int \<Rightarrow> 'b \<Rightarrow> size_t \<Rightarrow> uint32 \<Rightarrow> size_t \<Rightarrow> 'os env \<Rightarrow>
     (bool \<times> error_code \<times> size_t \<times> 'os env) option" where
  "non_blocking_send sendmsg sockfd bufs count flags bytes_transferred env =
     (case so_send sendmsg sockfd bufs count flags env of (r, ec, env1) \<Rightarrow>
        if ec = make_error_code interrupted
        then non_blocking_send sendmsg sockfd bufs count flags bytes_transferred env1
        else if ec = make_error_code operation_would_block \<or>
                ec = make_error_code resource_unavailable_try_again
        then Some (False, ec, bytes_transferred, env1)
        else Some (True, clear_current_error (sint r \<ge> 0) ec, if sint r \<ge> 0 then r else 0, env1))"

subsection \<open>Socket options\<close>

text \<open>The \<open>int\<close> at the start of a buffer of bytes; a shorter buffer is read out of bounds.\<close>

fun read_int :: "byte list \<Rightarrow> uint32 option" where
  "read_int (a # b # c # d # rest) = Some (val32 a b c d)"
| "read_int bs = None"

definition write_int :: "uint32 \<Rightarrow> byte list \<Rightarrow> byte list option" where
  "write_int v bs = (if length bs < 4 then None else Some (mem32 v @ drop 4 bs))"

text \<open>\<open>/= 2\<close> on an \<open>int\<close>: C division rounds toward zero.\<close>

definition halve :: "uint32 \<Rightarrow> uint32" where
  "halve v = word_of_int (if sint v < 0 then - ((- sint v) div 2) else sint v div 2)"

definition so_setsockopt ::
    "(int \<Rightarrow> uint32 \<Rightarrow> uint32 \<Rightarrow> byte list \<Rightarrow> uint32 \<Rightarrow> ('os, int) syscall) \<Rightarrow>
     int \<Rightarrow> uint32 \<Rightarrow> uint32 \<Rightarrow> uint32 \<Rightarrow> byte list \<Rightarrow> size_t \<Rightarrow> 'os env \<Rightarrow>
     fault + int \<times> uint32 \<times> error_code \<times> 'os env" where
  "so_setsockopt sys sockfd state level optname optval optlen env =
     (if sockfd = invalid_socket
      then Inr (socket_error_retval, state, make_error_code bad_file_descriptor, env)
      else if level = custom_socket_option_level \<and> optname = always_fail_option
      then Inr (socket_error_retval, state, make_error_code invalid_argument, env)
      else if level = custom_socket_option_level \<and> optname = enable_connection_aborted_option
      then if optlen \<noteq> 4
           then Inr (socket_error_retval, state, make_error_code invalid_argument, env)
           else (case read_int optval of
                   None \<Rightarrow> Inl Undefined_Behaviour
                 | Some v \<Rightarrow>
                     Inr (0, if v \<noteq> 0 then state OR enable_connection_aborted
                             else state OR NOT enable_connection_aborted, no_error, env))
      else
        (let state1 = (if level = SOL_SOCKET \<and> optname = SO_LINGER then state OR user_set_linger else state);
             (result, ec, env') = wrapped (call_setsockopt sys sockfd level optname optval optlen) env
         in Inr (result, state1, if result = 0 then no_error else ec, env')))"

text \<open>The result, the buffer and its length afterwards, and the error.\<close>

definition so_getsockopt ::
    "(int \<Rightarrow> uint32 \<Rightarrow> uint32 \<Rightarrow> byte list \<Rightarrow> uint32 \<Rightarrow> ('os, int \<times> byte list \<times> uint32) syscall) \<Rightarrow>
     int \<Rightarrow> uint32 \<Rightarrow> uint32 \<Rightarrow> uint32 \<Rightarrow> byte list \<Rightarrow> size_t \<Rightarrow> 'os env \<Rightarrow>
     fault + int \<times> byte list \<times> size_t \<times> error_code \<times> 'os env" where
  "so_getsockopt sys sockfd state level optname optval optlen env =
     (if sockfd = invalid_socket
      then Inr (socket_error_retval, optval, optlen, make_error_code bad_file_descriptor, env)
      else if level = custom_socket_option_level \<and> optname = always_fail_option
      then Inr (socket_error_retval, optval, optlen, make_error_code invalid_argument, env)
      else if level = custom_socket_option_level \<and> optname = enable_connection_aborted_option
      then if optlen \<noteq> 4
           then Inr (socket_error_retval, optval, optlen, make_error_code invalid_argument, env)
           else (case write_int (if state AND enable_connection_aborted \<noteq> 0 then 1 else 0) optval of
                   None \<Rightarrow> Inl Undefined_Behaviour
                 | Some optval' \<Rightarrow> Inr (0, optval', optlen, no_error, env))
      else
        (let ((result, optval1, optlen1), ec, env') =
               wrapped (call_getsockopt sys sockfd level optname optval optlen) env;
             ec1 = clear_current_error (result = 0) ec
         in if result = 0 \<and> level = SOL_SOCKET \<and> optlen1 = 4 \<and> (optname = SO_SNDBUF \<or> optname = SO_RCVBUF)
            then (case Option.bind (read_int optval1) (\<lambda>v. write_int (halve v) optval1) of
                    None \<Rightarrow> Inl Undefined_Behaviour
                  | Some optval2 \<Rightarrow> Inr (result, optval2, optlen1, ec1, env'))
            else Inr (result, optval1, optlen1, ec1, env')))"

end
