(* ===== verification/Socket_Properties.thy ===== *)
theory Socket_Properties
  imports Socket_Ops
begin

text \<open>
  What the socket layer promises on top of the operating system: how results become error codes,
  when the blocking and non-blocking loops end, and what the options give back.
\<close>

subsection \<open>Calls on one descriptor\<close>

text \<open>
  The contract \<open>bind\<close>, \<open>listen\<close> and \<open>shutdown\<close> share: an invalid socket is refused without a
  system call, otherwise the call's result is passed on with the \<open>errno\<close> it left, unless it
  succeeded.
\<close>

locale checked_call =
  fixes wrap :: "int \<Rightarrow> 'os env \<Rightarrow> int \<times> error_code \<times> 'os env"
    and call :: "int \<Rightarrow> ('os, int) syscall"
  assumes refused: "wrap invalid_socket env = (socket_error_retval, make_error_code bad_file_descriptor, env)"
    and passed: "fd \<noteq> invalid_socket \<Longrightarrow> call fd (clear_last_error env) = (r, env') \<Longrightarrow>
      wrap fd env = (r, if r = 0 then no_error else en_errno env', env')"
begin

lemma wrap_eq:
  "wrap fd env =
     (if fd = invalid_socket then (socket_error_retval, make_error_code bad_file_descriptor, env)
      else let (r, env') = call fd (clear_last_error env) in (r, if r = 0 then no_error else en_errno env', env'))"
  using refused passed by (cases "call fd (clear_last_error env)") auto

text \<open>The error code tells success from failure if the call sets \<open>errno\<close> whenever it fails.\<close>

lemma error_iff:
  assumes "\<And>env r env'. call fd env = (r, env') \<Longrightarrow> r \<noteq> 0 \<Longrightarrow> en_errno env' \<noteq> 0"
    and "wrap fd env = (r, ec, env')"
  shows "ec = no_error \<longleftrightarrow> r = 0"
  using assms by (auto simp: wrap_eq socket_error_retval_def Let_def split: if_splits prod.splits)

end

interpretation bind_call: checked_call "\<lambda>fd. so_bind sys fd addr len" "\<lambda>fd. call_bind sys fd addr len"
  for sys addr len
  by unfold_locales (simp_all add: so_bind_def env_defs)

interpretation listen_call: checked_call "\<lambda>fd. so_listen sys fd backlog" "\<lambda>fd. sys fd backlog" for sys backlog
  by unfold_locales (simp_all add: so_listen_def env_defs)

interpretation shutdown_call: checked_call "\<lambda>fd. so_shutdown sys fd how" "\<lambda>fd. sys fd how" for sys how
  by unfold_locales (simp_all add: so_shutdown_def env_defs)

text \<open>\<open>bind\<close>, \<open>listen\<close> and \<open>shutdown\<close> report an error exactly when they fail: given a system
  call that sets \<open>errno\<close> whenever it fails, \<open>ec\<close> is clear if and only if the result is 0. On an
  invalid socket they return -1 and \<open>EBADF\<close> and make no system call.\<close>

theorem error_reported_iff_failed:
  assumes "\<And>fd addr n env r env'. sys_bind fd addr n env = (r, env') \<Longrightarrow> r \<noteq> 0 \<Longrightarrow> en_errno env' \<noteq> 0"
    and "\<And>fd n env r env'. sys fd n env = (r, env') \<Longrightarrow> r \<noteq> 0 \<Longrightarrow> en_errno env' \<noteq> 0"
  shows "(so_bind sys_bind fd addr len env = (r, ec, env') \<longrightarrow> (ec = no_error \<longleftrightarrow> r = 0)) \<and>
    (so_listen sys fd n env = (r, ec, env') \<longrightarrow> (ec = no_error \<longleftrightarrow> r = 0)) \<and>
    (so_shutdown sys fd n env = (r, ec, env') \<longrightarrow> (ec = no_error \<longleftrightarrow> r = 0)) \<and>
    so_bind sys_bind invalid_socket addr len env = (-1, 9, env) \<and>
    so_listen sys invalid_socket n env = (-1, 9, env) \<and>
    so_shutdown sys invalid_socket n env = (-1, 9, env)"
proof -
  have "ec = no_error \<longleftrightarrow> r = 0" if "so_bind sys_bind fd addr len env = (r, ec, env')"
    by (rule bind_call.error_iff [OF _ that]) (auto simp: call_bind_def dest: assms(1))
  moreover have "ec = no_error \<longleftrightarrow> r = 0" if "so_listen sys fd n env = (r, ec, env')"
    by (rule listen_call.error_iff [OF _ that]) (auto dest: assms(2))
  moreover have "ec = no_error \<longleftrightarrow> r = 0" if "so_shutdown sys fd n env = (r, ec, env')"
    by (rule shutdown_call.error_iff [OF _ that]) (auto dest: assms(2))
  ultimately show ?thesis
    by (simp add: bind_call.refused listen_call.refused shutdown_call.refused socket_error_retval_def)
qed

theorem error_reported_iff_failed_witness:
  "so_listen (\<lambda>fd n env. (if fd = 3 then 0 else -1, env\<lparr>en_errno := 98\<rparr>)) 5 128 \<lparr>en_errno = 0, en_os = ()\<rparr> =
     (-1, 98, \<lparr>en_errno = 98, en_os = ()\<rparr>) \<and>
   so_listen (\<lambda>fd n env. (if fd = 3 then 0 else -1, env\<lparr>en_errno := 98\<rparr>)) 3 128 \<lparr>en_errno = 0, en_os = ()\<rparr> =
     (0, 0, \<lparr>en_errno = 98, en_os = ()\<rparr>)"
  using error_reported_iff_failed [of "\<lambda>fd addr n env. (-1, env\<lparr>en_errno := 98\<rparr>)"
      "\<lambda>fd n env. (if fd = 3 then 0 else -1, env\<lparr>en_errno := 98\<rparr>)" 3 "()" 0 "\<lparr>en_errno = 0, en_os = ()\<rparr>" 0 0
      "\<lparr>en_errno = 98, en_os = ()\<rparr>" 128]
  by (simp add: so_listen_def env_defs invalid_socket_def)

subsection \<open>Closing\<close>

text \<open>\<open>close\<close> reports an error exactly when its last system call fails. A first close that fails
  with \<open>EAGAIN\<close> is not tried again, whereas after any other failure the descriptor, which the
  system may have released or given to someone else, is closed a second time.\<close>

theorem close_retries_all_but_would_block:
  assumes "fd \<noteq> invalid_socket"
    and "\<And>env r env'. sys_close fd env = (r, env') \<Longrightarrow> r \<noteq> 0 \<Longrightarrow> en_errno env' \<noteq> 0"
    and "sys_close fd (clear_last_error env) = (r1, env1)"
    and "so_close sys_close get_flags set_flags fd state destruction env = (r, state', ec, env')"
  shows "(ec = no_error \<longleftrightarrow> r = 0) \<and>
    (r1 = 0 \<or> en_errno env1 = make_error_code operation_would_block \<longrightarrow> (r, state', env') = (r1, state, env1)) \<and>
    (r1 \<noteq> 0 \<and> en_errno env1 \<noteq> make_error_code operation_would_block \<longrightarrow>
      (\<exists>env2. sys_close fd env2 = (r, env')) \<and> state' = state AND NOT non_blocking)"
  using assms(1,3,4) assms(2) [of "clear_last_error env" r1 env1]
  by (auto simp: so_close_def env_defs split: prod.splits if_splits dest: assms(2))

text \<open>A close that always fails with \<open>EBADF\<close>, on a system that counts the calls.\<close>

definition demo_close :: "int \<Rightarrow> (nat, int) syscall" where
  "demo_close fd env = (-1, \<lparr>en_errno = 9, en_os = Suc (en_os env)\<rparr>)"

theorem close_retries_all_but_would_block_witness:
  "so_close demo_close (\<lambda>fd env. (-1, env)) (\<lambda>fd fl env. (0, env)) 5 3 False \<lparr>en_errno = 0, en_os = 0\<rparr> =
     (-1, 0, 9, \<lparr>en_errno = 9, en_os = 2\<rparr>) \<and>
   (\<exists>env2. demo_close 5 env2 = (-1, \<lparr>en_errno = 9, en_os = 2\<rparr>))"
proof -
  have eq: "so_close demo_close (\<lambda>fd env. (-1, env)) (\<lambda>fd fl env. (0, env)) 5 3 False \<lparr>en_errno = 0, en_os = 0\<rparr> =
      (-1, 0, 9, \<lparr>en_errno = 9, en_os = 2\<rparr>)"
    by (simp add: so_close_def env_defs demo_close_def invalid_socket_def state_flags)
  have fails: "demo_close 5 e = (r, e') \<Longrightarrow> r \<noteq> 0 \<Longrightarrow> en_errno e' \<noteq> 0" for e r e'
    by (auto simp: demo_close_def)
  have first: "demo_close 5 (clear_last_error \<lparr>en_errno = 0, en_os = 0\<rparr>) = (-1, \<lparr>en_errno = 9, en_os = 1\<rparr>)"
    by (simp add: demo_close_def clear_last_error_def)
  have "(5 :: int) \<noteq> invalid_socket" by (simp add: invalid_socket_def)
  from close_retries_all_but_would_block [OF this fails first eq] eq show ?thesis by simp
qed

subsection \<open>Sending\<close>

text \<open>One round of \<open>sync_send\<close> that has to wait: the send would block, and poll did not fail.\<close>

definition send_waits where
  "send_waits sendmsg sys_poll sockfd bufs count flags env env2 \<longleftrightarrow>
     (\<exists>r env1 p ec. so_send sendmsg sockfd bufs count flags env =
        (r, make_error_code operation_would_block, env1) \<and> sint r < 0 \<and>
        poll_write sys_poll sockfd 0 (-1) env1 = (p, ec, env2) \<and> p \<ge> 0)"

text \<open>C32. On a socket the user left blocking, \<open>sync_send\<close> waits as long as the send would block: if
  after any number of such rounds the send accepts \<open>n\<close> bytes, the call returns \<open>n\<close>; if it fails
  with another error, the call returns 0 and that error.\<close>

theorem sync_send_waits_until_ready:
  assumes "(send_waits sendmsg sys_poll sockfd bufs count flags)\<^sup>*\<^sup>* env env'"
    and "sockfd \<noteq> invalid_socket" and "state AND user_set_non_blocking = 0"
    and "so_send sendmsg sockfd bufs count flags env' = (n, ec, env'')"
    and "0 \<le> sint n \<or> ec \<noteq> make_error_code operation_would_block"
  shows "sync_send sendmsg sys_poll sockfd state bufs count flags all_empty env =
    Some (if 0 \<le> sint n then n else 0, ec, env'')"
proof -
  have "send_loop sendmsg sys_poll sockfd state bufs count flags env =
      Some (if 0 \<le> sint n then n else 0, ec, env'')"
    using assms(1)
  proof (induction rule: converse_rtranclp_induct)
    case base
    with assms(4,5) show ?case by (auto simp: send_loop.simps)
  next
    case (step env env2)
    with assms(3) show ?case by (auto simp: send_waits_def send_loop.simps [of _ _ _ _ _ _ _ env])
  qed
  with assms(2) show ?thesis by (simp add: sync_send_def)
qed

text \<open>A system whose send would block until its counter reaches 0.\<close>

definition demo_send :: "(nat, unit) transfer" where
  "demo_send fd bufs n flags env =
     (if en_os env = 0 then (3, env) else (-1, env\<lparr>en_errno := 11\<rparr>))"

definition demo_poll :: "int \<Rightarrow> uint16 \<Rightarrow> int \<Rightarrow> (nat, int) syscall" where
  "demo_poll fd events timeout env = (1, env\<lparr>en_os := en_os env - 1\<rparr>)"

theorem sync_send_waits_until_ready_witness:
  "sync_send demo_send demo_poll 5 0 () 1 0 False \<lparr>en_errno = 0, en_os = 2\<rparr> =
     Some (3, 0, \<lparr>en_errno = 0, en_os = 0\<rparr>)"
proof -
  have wait: "send_waits demo_send demo_poll 5 () 1 0 \<lparr>en_errno = 0, en_os = Suc k\<rparr> \<lparr>en_errno = 0, en_os = k\<rparr>" for k
    by (simp add: send_waits_def so_send_def env_defs demo_send_def poll_write_def poll_fd_def demo_poll_def
        invalid_socket_def)
  have "(send_waits demo_send demo_poll 5 () 1 0)\<^sup>*\<^sup>* \<lparr>en_errno = 0, en_os = k\<rparr> \<lparr>en_errno = 0, en_os = 0\<rparr>" for k
  proof (induction k)
    case (Suc k)
    from wait [of k] Suc show ?case by (rule converse_rtranclp_into_rtranclp)
  qed simp
  from sync_send_waits_until_ready [OF this [of 2], where n = 3 and ec = 0 and env'' = "\<lparr>en_errno = 0, en_os = 0\<rparr>"] show ?thesis
    by (simp add: invalid_socket_def so_send_def env_defs demo_send_def)
qed

text \<open>\<open>non_blocking_send\<close> repeats a send that is interrupted; the first send that is not decides:
  one that would block leaves the operation incomplete and \<open>bytes_transferred\<close> as it was, any other
  completes it, with the bytes sent or with 0 and the error.\<close>

theorem non_blocking_send_outcome:
  assumes "(\<lambda>e e'. \<exists>r. so_send sendmsg sockfd bufs count flags e = (r, make_error_code interrupted, e'))\<^sup>*\<^sup>* env env'"
    and "so_send sendmsg sockfd bufs count flags env' = (n, ec, env'')"
    and "ec \<noteq> make_error_code interrupted"
  shows "non_blocking_send sendmsg sockfd bufs count flags transferred env =
    Some (if ec = make_error_code operation_would_block then (False, ec, transferred, env'')
      else if 0 \<le> sint n then (True, no_error, n, env'') else (True, ec, 0, env''))"
  using assms(1)
proof (induction rule: converse_rtranclp_induct)
  case base
  with assms(2,3) show ?case
    by (simp add: non_blocking_send.simps [of _ _ _ _ _ _ env'] clear_current_error_def)
next
  case (step e e')
  then obtain r where "so_send sendmsg sockfd bufs count flags e = (r, make_error_code interrupted, e')" by blast
  with step show ?case by (simp add: non_blocking_send.simps [of _ _ _ _ _ _ e])
qed

definition demo_eintr :: "(nat, unit) transfer" where
  "demo_eintr fd bufs n flags env =
     (if en_os env = 0 then (-1, env\<lparr>en_errno := 11\<rparr>) else (-1, \<lparr>en_errno = 4, en_os = en_os env - 1\<rparr>))"

theorem non_blocking_send_outcome_witness:
  "non_blocking_send demo_eintr 5 () 1 0 77 \<lparr>en_errno = 0, en_os = 1\<rparr> =
     Some (False, 11, 77, \<lparr>en_errno = 11, en_os = 0\<rparr>)"
proof -
  have "so_send demo_eintr 5 () 1 0 \<lparr>en_errno = 0, en_os = 1\<rparr> =
      (-1, make_error_code interrupted, \<lparr>en_errno = 4, en_os = 0\<rparr>)"
    by (simp add: so_send_def env_defs demo_eintr_def)
  then have "(\<lambda>e e'. \<exists>r. so_send demo_eintr 5 () 1 0 e = (r, make_error_code interrupted, e'))\<^sup>*\<^sup>*
      \<lparr>en_errno = 0, en_os = 1\<rparr> \<lparr>en_errno = 4, en_os = 0\<rparr>"
    by blast
  from non_blocking_send_outcome [OF this, where n = "-1" and ec = 11 and env'' = "\<lparr>en_errno = 11, en_os = 0\<rparr>"]
  show ?thesis by (simp add: so_send_def env_defs demo_eintr_def)
qed

subsection \<open>Receiving\<close>

lemma recv_loop_never_gives_up:
  assumes "\<And>env r ec env'. so_recv recvmsg sockfd bufs count flags env = (r, ec, env') \<Longrightarrow> sint r \<le> 0"
    and "\<And>env p ec env'. poll_read sys_poll sockfd 0 (-1) env = (p, ec, env') \<Longrightarrow> p \<ge> 0"
    and "state AND stream_oriented = 0"
  shows "recv_loop recvmsg sys_poll sockfd state bufs count flags env \<noteq> Some y"
proof
  let ?P = "\<lambda>recvmsg sys_poll sockfd state bufs count flags env y.
    \<not> ((\<forall>env r ec env'. so_recv recvmsg sockfd bufs count flags env = (r, ec, env') \<longrightarrow> sint r \<le> 0) \<and>
       (\<forall>env p ec env'. poll_read sys_poll sockfd 0 (-1) env = (p, ec, env') \<longrightarrow> p \<ge> 0) \<and>
       state AND stream_oriented = 0)"
  assume ret: "recv_loop recvmsg sys_poll sockfd state bufs count flags env = Some y"
  have "?P recvmsg sys_poll sockfd state bufs count flags env y"
  proof (rule recv_loop.raw_induct [where P = ?P, OF _ ret])
    fix f :: "('a, 'b) transfer \<Rightarrow> (int \<Rightarrow> uint16 \<Rightarrow> int \<Rightarrow> ('a, int) syscall) \<Rightarrow> int \<Rightarrow> uint32 \<Rightarrow> 'b \<Rightarrow> size_t \<Rightarrow>
        uint32 \<Rightarrow> 'a env \<Rightarrow> (size_t \<times> error_code \<times> 'a env) option"
      and recvmsg sys_poll sockfd state bufs count flags env y
    let ?body = "case so_recv recvmsg sockfd bufs count flags env of (r, ec, env1) \<Rightarrow>
      if sint r > 0 then Some (r, ec, env1)
      else if state AND stream_oriented \<noteq> 0 \<and> sint r = 0
      then Some (0, make_error_code invalid_seek, env1)
      else if state AND stream_oriented \<noteq> 0 \<and>
        (ec \<noteq> make_error_code operation_would_block \<or> ec \<noteq> make_error_code resource_unavailable_try_again)
      then Some (0, ec, env1)
      else (case poll_read sys_poll sockfd 0 (-1) env1 of (p, ec', env2) \<Rightarrow>
              if p < 0 then Some (0, ec', env2)
              else f recvmsg sys_poll sockfd state bufs count flags env2)"
    assume IH: "\<And>recvmsg sys_poll sockfd state bufs count flags env y.
        f recvmsg sys_poll sockfd state bufs count flags env = Some y \<Longrightarrow>
        ?P recvmsg sys_poll sockfd state bufs count flags env y"
      and body: "?body = Some y"
    obtain r ec env1 where rcv: "so_recv recvmsg sockfd bufs count flags env = (r, ec, env1)" by (metis prod_cases3)
    obtain p ec' env2 where pol: "poll_read sys_poll sockfd 0 (-1) env1 = (p, ec', env2)" by (metis prod_cases3)
    show "?P recvmsg sys_poll sockfd state bufs count flags env y"
    proof
      assume laws: "(\<forall>env r ec env'. so_recv recvmsg sockfd bufs count flags env = (r, ec, env') \<longrightarrow> sint r \<le> 0) \<and>
        (\<forall>env p ec env'. poll_read sys_poll sockfd 0 (-1) env = (p, ec, env') \<longrightarrow> p \<ge> 0) \<and>
        state AND stream_oriented = 0"
      with rcv pol have "\<not> sint r > 0" "\<not> p < 0" by (meson not_less)+
      with body rcv pol laws have "f recvmsg sys_poll sockfd state bufs count flags env2 = Some y" by simp
      from IH [OF this] laws show False by blast
    qed
  qed
  with assms(1,2,3) show False by blast
qed

text \<open>On a socket that is not stream oriented, \<open>sync_recv\<close> never gives an error back: as long as
  receiving fails (or delivers an empty datagram) and the socket polls readable, as it does when an
  error is pending, the loop goes on for ever.\<close>

theorem datagram_receive_never_gives_up:
  assumes "\<And>env r ec env'. so_recv recvmsg sockfd bufs count flags env = (r, ec, env') \<Longrightarrow> sint r \<le> 0"
    and "\<And>env p ec env'. poll_read sys_poll sockfd 0 (-1) env = (p, ec, env') \<Longrightarrow> p \<ge> 0"
    and "sockfd \<noteq> invalid_socket" and "state AND stream_oriented = 0"
  shows "sync_recv recvmsg sys_poll sockfd state bufs count flags all_empty env = None"
proof -
  have "recv_loop recvmsg sys_poll sockfd state bufs count flags env \<noteq> Some y" for y
    using assms(1,2,4) by (rule recv_loop_never_gives_up)
  with assms(3,4) show ?thesis
    by (cases "recv_loop recvmsg sys_poll sockfd state bufs count flags env") (auto simp: sync_recv_def)
qed

theorem datagram_receive_never_gives_up_witness:
  "sync_recv (\<lambda>fd b n fl env. (-1, env\<lparr>en_errno := 111\<rparr>)) (\<lambda>fd ev tm env. (1, env)) 5 datagram_oriented () 1 0 False
     \<lparr>en_errno = 0, en_os = ()\<rparr> = None"
  by (rule datagram_receive_never_gives_up)
    (auto simp: so_recv_def env_defs poll_read_def poll_fd_def invalid_socket_def state_flags)

text \<open>A stream receive turns end of file into \<open>ESPIPE\<close> and every other failure but \<open>EAGAIN\<close> into
  a result of 0 with that error at once; an empty request on a stream returns 0 without touching
  the socket.\<close>

theorem stream_receive_reports:
  assumes "sockfd \<noteq> invalid_socket" and "state AND stream_oriented \<noteq> 0"
    and "so_recv recvmsg sockfd bufs count flags env = (r, ec, env')"
    and "0 \<le> sint r \<or> ec \<noteq> make_error_code operation_would_block"
  shows "sync_recv recvmsg sys_poll sockfd state bufs count flags False env =
      Some (if 0 < sint r then (r, ec, env') else if sint r = 0 then (0, make_error_code invalid_seek, env')
        else (0, ec, env')) \<and>
    sync_recv recvmsg sys_poll sockfd state bufs count flags True env = Some (0, no_error, env)"
  using assms by (auto simp: sync_recv_def recv_loop.simps)

theorem stream_receive_reports_witness:
  "sync_recv (\<lambda>fd b n fl env. (0, env)) (\<lambda>fd ev tm env. (1, env)) 5 stream_oriented () 1 0 False
     \<lparr>en_errno = 0, en_os = ()\<rparr> = Some (0, 29, \<lparr>en_errno = 0, en_os = ()\<rparr>)"
  using stream_receive_reports [of 5 stream_oriented "\<lambda>fd b n fl env. (0, env)" "()" 1 0 "\<lparr>en_errno = 0, en_os = ()\<rparr>"
      0 0 "\<lparr>en_errno = 0, en_os = ()\<rparr>" "\<lambda>fd ev tm env. (1, env)"]
  by (simp add: so_recv_def env_defs invalid_socket_def state_flags)

subsection \<open>Polling\<close>

text \<open>The polls drop every error of the system call: a poll that fails returns its negative
  result with a clear \<open>ec\<close>. \<open>sync_send\<close> then returns 0 bytes and no error.\<close>

theorem poll_failure_reads_as_success:
  assumes "sockfd \<noteq> invalid_socket"
    and "\<And>env'. fst (sys_poll sockfd POLLOUT (-1) env') < 0"
    and "so_send sendmsg sockfd bufs count flags env = (r, make_error_code operation_would_block, env1)"
    and "sint r < 0" and "state AND user_set_non_blocking = 0"
  shows "\<exists>env'. sync_send sendmsg sys_poll sockfd state bufs count flags all_empty env = Some (0, no_error, env')"
proof -
  obtain p env2 where p: "sys_poll sockfd POLLOUT (-1) (clear_last_error env1) = (p, env2)" "p < 0"
    using assms(2) [of "clear_last_error env1"] by (cases "sys_poll sockfd POLLOUT (-1) (clear_last_error env1)") auto
  then have "poll_write sys_poll sockfd 0 (-1) env1 = (p, no_error, env2)"
    using assms(1) by (simp add: poll_write_def poll_fd_def wrapped_def error_wrapper_def clear_current_error_def)
  with assms p show ?thesis by (simp add: sync_send_def send_loop.simps)
qed

theorem poll_failure_reads_as_success_witness:
  "\<exists>env'. sync_send demo_send (\<lambda>fd ev tm env. (-1, env\<lparr>en_errno := 12\<rparr>)) 5 0 () 1 0 False
     \<lparr>en_errno = 0, en_os = 1\<rparr> = Some (0, 0, env')"
  by (rule poll_failure_reads_as_success [where r = "-1"])
    (simp_all add: invalid_socket_def so_send_def env_defs demo_send_def)

subsection \<open>Options\<close>

lemma read_write_int: "4 \<le> length bs \<Longrightarrow> Option.bind (write_int v bs) read_int = Some v"
  by (simp add: write_int_def mem32_def del: One_nat_def)

lemma mem32_length [simp]: "length (mem32 v) = 4"
  by (simp add: mem32_def)

lemma read_int_length: "read_int bs = Some v \<Longrightarrow> 4 \<le> length bs"
  by (cases bs rule: read_int.cases) auto

lemma write_int_result: "write_int v bs = Some bs' \<Longrightarrow> read_int bs' = Some v"
  by (auto simp: write_int_def mem32_def simp del: One_nat_def split: if_splits)

lemma halve_double:
  assumes "v < 2 ^ 30"
  shows "halve (2 * v) = v"
proof -
  have n: "uint v < 2 ^ 30" using assms by (simp add: word_less_def)
  then have "uint (2 * v) = 2 * uint v" by (simp add: uint_word_ariths)
  moreover have "sint (2 * v) = uint (2 * v)"
    using n calculation by (simp add: sint_uint) (rule signed_take_bit_int_eq_self, simp_all add: order.trans [OF _ uint_ge_0])
  ultimately show ?thesis by (simp add: halve_def)
qed

text \<open>Enabling the custom option \<open>enable_connection_aborted\<close> reads back as 1. Disabling it does
  not: \<open>getsockopt\<close> gives back what it gave before, and every other flag of the state is set,
  among them the one that says the user asked for a non-blocking socket.\<close>

theorem connection_aborted_cannot_be_disabled:
  assumes "fd \<noteq> invalid_socket" and "read_int optval = Some v" and "4 \<le> length buf"
  shows "\<exists>state'. so_setsockopt sys fd state custom_socket_option_level enable_connection_aborted_option
        optval 4 env = Inr (0, state', no_error, env) \<and>
      (\<exists>buf'. so_getsockopt sys' fd state' custom_socket_option_level enable_connection_aborted_option buf 4 env =
          Inr (0, buf', 4, no_error, env) \<and>
        read_int buf' = Some (if v \<noteq> 0 \<or> state AND enable_connection_aborted \<noteq> 0 then 1 else 0)) \<and>
      (v = 0 \<longrightarrow> state' AND user_set_non_blocking \<noteq> 0 \<and> state' OR enable_connection_aborted = -1)"
proof -
  let ?state' = "if v \<noteq> 0 then state OR enable_connection_aborted else state OR NOT enable_connection_aborted"
  obtain buf' where buf': "write_int (if ?state' AND enable_connection_aborted \<noteq> 0 then 1 else 0) buf = Some buf'"
    using assms(3) by (auto simp: write_int_def)
  have flag: "?state' AND enable_connection_aborted \<noteq> 0 \<longleftrightarrow> v \<noteq> 0 \<or> state AND enable_connection_aborted \<noteq> 0"
    by (simp add: state_flags bit.conj_disj_distrib2)
  have other: "v = 0 \<Longrightarrow> ?state' AND user_set_non_blocking \<noteq> 0 \<and> ?state' OR enable_connection_aborted = -1"
    by (simp add: state_flags bit.conj_disj_distrib2 or.assoc)
  have "so_setsockopt sys fd state custom_socket_option_level enable_connection_aborted_option optval 4 env =
      Inr (0, ?state', no_error, env)"
    using assms by (simp add: so_setsockopt_def enable_connection_aborted_option_def always_fail_option_def)
  moreover have "so_getsockopt sys' fd ?state' custom_socket_option_level enable_connection_aborted_option buf 4 env =
      Inr (0, buf', 4, no_error, env)"
    using assms(1) buf' by (simp add: so_getsockopt_def enable_connection_aborted_option_def always_fail_option_def)
  ultimately show ?thesis
    using write_int_result [OF buf'] flag other by (intro exI [of _ ?state']) (simp split del: if_split)
qed

theorem connection_aborted_cannot_be_disabled_witness:
  "\<exists>state'. so_setsockopt (\<lambda>fd l n v len env. (0, env)) 5 enable_connection_aborted custom_socket_option_level
      enable_connection_aborted_option [0, 0, 0, 0] 4 \<lparr>en_errno = 0, en_os = ()\<rparr> =
      Inr (0, state', 0, \<lparr>en_errno = 0, en_os = ()\<rparr>) \<and> state' = -1"
proof -
  have "read_int [0, 0, 0, 0] = Some 0" by (simp add: val32_def)
  from connection_aborted_cannot_be_disabled [OF _ this, of 5 "[0, 0, 0, 0]"
      "\<lambda>fd l n v len env. (0, env)" enable_connection_aborted "\<lparr>en_errno = 0, en_os = ()\<rparr>"]
  show ?thesis by (auto simp: invalid_socket_def so_setsockopt_def enable_connection_aborted_option_def
      always_fail_option_def val32_def state_flags)
qed

text \<open>The system doubles the size given for a send or receive buffer; \<open>getsockopt\<close> undoes it, so
  a size (below \<open>2 ^ 30\<close>) that was set is read back as it was given.\<close>

theorem buffer_size_round_trip:
  assumes "fd \<noteq> invalid_socket" and "optname = SO_SNDBUF \<or> optname = SO_RCVBUF"
    and "read_int optval = Some v" and "v < 2 ^ 30" and "4 \<le> length buf"
    and set: "\<And>env. sys_set fd SOL_SOCKET optname optval 4 env = (0, env\<lparr>en_os := 2 * v\<rparr>)"
    and get: "\<And>env buf. 4 \<le> length buf \<Longrightarrow>
      sys_get fd SOL_SOCKET optname buf 4 env = ((0, the (write_int (en_os env) buf), 4), env)"
  shows "\<exists>state' env' buf'. so_setsockopt sys_set fd state SOL_SOCKET optname optval 4 env =
      Inr (0, state', no_error, env') \<and>
    so_getsockopt sys_get fd state' SOL_SOCKET optname buf 4 env' = Inr (0, buf', 4, no_error, clear_last_error env') \<and>
    read_int buf' = Some v"
proof -
  have lvl: "SOL_SOCKET \<noteq> custom_socket_option_level" "optname \<noteq> SO_LINGER"
    using assms(2) by (auto simp: SOL_SOCKET_def custom_socket_option_level_def SO_SNDBUF_def SO_RCVBUF_def SO_LINGER_def)
  let ?env' = "(clear_last_error env)\<lparr>en_os := 2 * v\<rparr>"
  have "so_setsockopt sys_set fd state SOL_SOCKET optname optval 4 env = Inr (0, state, no_error, ?env')"
    using assms(1) lvl set by (simp add: so_setsockopt_def wrapped_def error_wrapper_def call_setsockopt_def)
  moreover obtain b1 where b1: "write_int (2 * v) buf = Some b1" "read_int b1 = Some (2 * v)" "4 \<le> length b1"
    using assms(5) write_int_result [of "2 * v" buf] by (auto simp: write_int_def [of _ buf])
  obtain b2 where b2: "write_int v b1 = Some b2" "read_int b2 = Some v"
    using b1(3) write_int_result [of v b1] by (auto simp: write_int_def [of _ b1])
  have "so_getsockopt sys_get fd state SOL_SOCKET optname buf 4 ?env' =
      Inr (0, b2, 4, no_error, clear_last_error ?env')"
    using assms(1,2,5) lvl get [OF assms(5)] b1 b2 halve_double [OF assms(4)]
    by (simp add: so_getsockopt_def wrapped_def error_wrapper_def call_getsockopt_def clear_last_error_def
        clear_current_error_def)
  ultimately show ?thesis using b2(2) by blast
qed

theorem buffer_size_round_trip_witness:
  "\<exists>state' env' buf'. so_setsockopt (\<lambda>fd l n v len env. (0, env\<lparr>en_os := 2 * the (read_int v)\<rparr>)) 5 0 SOL_SOCKET
      SO_SNDBUF [0, 4, 0, 0] 4 \<lparr>en_errno = 0, en_os = 0\<rparr> = Inr (0, state', 0, env') \<and>
    so_getsockopt (\<lambda>fd l n b len env. ((0, the (write_int (en_os env) b), 4), env)) 5 state' SOL_SOCKET SO_SNDBUF
      [0, 0, 0, 0] 4 env' = Inr (0, buf', 4, 0, clear_last_error env') \<and> read_int buf' = Some 1024"
proof -
  have v: "read_int [0, 4, 0, 0] = Some 1024" by (simp add: val32_def)
  show ?thesis
    by (rule buffer_size_round_trip [where optname = SO_SNDBUF]) (use v in \<open>simp_all add: invalid_socket_def\<close>)
qed

end
