(* ===== verification/Address_Text.thy ===== *)
theory Address_Text
  imports Socket_Ops
begin

text \<open>
  \<open>inet_ntop\<close> and \<open>inet_pton\<close> of \<^verbatim>\<open>socket_ops.cc\<close>: addresses as text, with the zone after \<open>%\<close> for an
  IPv6 address: the name of an interface or a decimal number. The system's functions of the same
  names and the interface tables are parameters; \<open>sprintf("%lu")\<close> and \<open>atoi\<close> are defined.
\<close>

subsection \<open>Decimal numbers\<close>

definition digit_char :: "nat \<Rightarrow> char" where
  "digit_char d = char_of (48 + d)"

definition is_digit :: "char \<Rightarrow> bool" where
  "is_digit c \<longleftrightarrow> 48 \<le> (of_char c :: nat) \<and> (of_char c :: nat) \<le> 57"

definition is_space :: "char \<Rightarrow> bool" where
  "is_space c \<longleftrightarrow> c = CHR '' '' \<or> (9 \<le> (of_char c :: nat) \<and> (of_char c :: nat) \<le> 13)"

fun digits_of :: "nat \<Rightarrow> string" where
  "digits_of n = (if n < 10 then [digit_char n] else digits_of (n div 10) @ [digit_char (n mod 10)])"

declare digits_of.simps [simp del]

fun read_digits :: "nat \<Rightarrow> string \<Rightarrow> nat" where
  "read_digits acc [] = acc"
| "read_digits acc (c # cs) = (if is_digit c then read_digits (10 * acc + (of_char c - 48)) cs else acc)"

text \<open>\<open>atoi\<close>: blanks, a sign, digits. None: the value is no \<open>int\<close>, and the behaviour undefined.\<close>

definition atoi :: "string \<Rightarrow> int option" where
  "atoi s =
     (let s1 = dropWhile is_space s;
          (neg, s2) = (case s1 of
              c # cs \<Rightarrow> if c = CHR ''-'' then (True, cs) else if c = CHR ''+'' then (False, cs) else (False, s1)
            | [] \<Rightarrow> (False, []));
          v = (if neg then - int (read_digits 0 s2) else int (read_digits 0 s2))
      in if - (2 ^ 31) \<le> v \<and> v < 2 ^ 31 then Some v else None)"

lemma of_char_digit [simp]: "d < 10 \<Longrightarrow> (of_char (digit_char d) :: nat) = 48 + d"
  by (simp add: digit_char_def)

lemma is_digit_char: "d < 10 \<Longrightarrow> is_digit (digit_char d)"
  by (simp add: is_digit_def)

lemma digits_of_digits: "c \<in> set (digits_of n) \<Longrightarrow> is_digit c"
proof (induction n rule: digits_of.induct)
  case (1 n)
  then show ?case by (cases "n < 10") (auto simp: digits_of.simps [of n] is_digit_char)
qed

lemma digits_of_nonempty [simp]: "digits_of n \<noteq> []"
  by (simp add: digits_of.simps [of n])

lemma read_digits_append:
  "(\<And>c. c \<in> set s \<Longrightarrow> is_digit c) \<Longrightarrow> read_digits acc (s @ t) = read_digits (read_digits acc s) t"
  by (induction s arbitrary: acc) auto

lemma read_digits_of: "read_digits 0 (digits_of n) = n"
proof (induction n rule: digits_of.induct)
  case (1 n)
  show ?case
  proof (cases "n < 10")
    case True
    then show ?thesis by (simp add: digits_of.simps [of n] is_digit_char)
  next
    case False
    with 1 show ?thesis
      by (simp add: digits_of.simps [of n] read_digits_append [OF digits_of_digits] is_digit_char)
  qed
qed

lemma digit_facts:
  assumes "is_digit c"
  shows "\<not> is_space c" "c \<noteq> CHR ''-''" "c \<noteq> CHR ''+''" "c \<noteq> CHR ''%''"
  using assms by (auto simp: is_digit_def is_space_def)

text \<open>Reading back what was printed, for a number that fits an \<open>int\<close>.\<close>

lemma atoi_digits_of:
  assumes "n < 2 ^ 31"
  shows "atoi (digits_of n) = Some (int n)"
proof -
  obtain c cs where s: "digits_of n = c # cs" by (cases "digits_of n") auto
  then have "is_digit c" using digits_of_digits [of c n] by simp
  from digit_facts [OF this] s read_digits_of [of n] assms show ?thesis
    by (simp add: atoi_def)
qed

lemma length_digits_of: "n < 10 ^ Suc k \<Longrightarrow> length (digits_of n) \<le> Suc k"
proof (induction k arbitrary: n)
  case 0
  then show ?case by (simp add: digits_of.simps [of n])
next
  case (Suc k)
  then have "n div 10 < 10 ^ Suc k" by (simp add: div_less_iff_less_mult mult.commute)
  from Suc.IH [OF this] show ?case by (simp add: digits_of.simps [of n])
qed

subsection \<open>The functions\<close>

text \<open>The tests on the first two bytes of an IPv6 address.\<close>

definition is_link_local :: "byte list \<Rightarrow> bool" where
  "is_link_local b \<longleftrightarrow> b ! 0 = 0xfe \<and> b ! 1 AND 0xc0 = 0x80"

definition is_multicast_link_local :: "byte list \<Rightarrow> bool" where
  "is_multicast_link_local b \<longleftrightarrow> b ! 0 = 0xff \<and> b ! 1 AND 0x0f = 0x02"

text \<open>
  \<open>inet_ntop\<close>: the text (None for the null pointer), \<open>ec\<close> and the world. The zone is appended with
  \<open>strcat\<close> to the buffer of \<open>len\<close> bytes the caller gave.
\<close>

definition so_inet_ntop ::
    "(int \<Rightarrow> byte list \<Rightarrow> uint32 \<Rightarrow> ('os, string option) syscall) \<Rightarrow> (uint32 \<Rightarrow> ('os, string option) syscall) \<Rightarrow>
     int \<Rightarrow> byte list \<Rightarrow> size_t \<Rightarrow> size_t \<Rightarrow> 'os env \<Rightarrow> fault + string option \<times> error_code \<times> 'os env" where
  "so_inet_ntop sys_ntop if_indextoname af src len scope_id env =
     (let (result, ec, env1) = wrapped (sys_ntop af src (ucast len)) env;
          ec1 = (if result = None \<and> ec = no_error then make_error_code invalid_argument else ec)
      in case result of
           None \<Rightarrow> Inr (None, ec1, env1)
         | Some addr \<Rightarrow>
             if af = AF_INET6 \<and> scope_id \<noteq> 0
             then
               (let (name, env2) = (if \<not> is_link_local src \<and> \<not> is_multicast_link_local src
                                    then (None, env1) else if_indextoname (ucast scope_id) env1);
                    if_name = CHR ''%'' # (case name of Some nm \<Rightarrow> nm | None \<Rightarrow> digits_of (unat scope_id))
                in if length addr + length if_name < unat len
                   then Inr (Some (addr @ if_name), ec1, env2) else Inl Undefined_Behaviour)
             else Inr (Some addr, ec1, env1))"

text \<open>
  \<open>inet_pton\<close>: the result, the bytes at \<open>dest\<close>, \<open>*scope_id\<close> (None for a null pointer), \<open>ec\<close> and the
  world. The text before \<open>%\<close> is copied to a buffer of \<open>max_addr_v6_str_len + 1\<close> characters.
\<close>

definition so_inet_pton ::
    "(int \<Rightarrow> string \<Rightarrow> byte list \<Rightarrow> ('os, int \<times> byte list) syscall) \<Rightarrow> (string \<Rightarrow> ('os, uint32) syscall) \<Rightarrow>
     int \<Rightarrow> string \<Rightarrow> byte list \<Rightarrow> size_t option \<Rightarrow> 'os env \<Rightarrow>
     fault + int \<times> byte list \<times> size_t option \<times> error_code \<times> 'os env" where
  "so_inet_pton sys_pton if_nametoindex af src dest scope_id env =
     (let env0 = clear_last_error env;
          is_v6 = (af = AF_INET6);
          if_name = (if is_v6 \<and> CHR ''%'' \<in> set src then Some (tl (dropWhile (\<lambda>c. c \<noteq> CHR ''%'') src)) else None);
          src_ptr = (if if_name \<noteq> None then takeWhile (\<lambda>c. c \<noteq> CHR ''%'') src else src)
      in if if_name \<noteq> None \<and> length src_ptr > max_addr_v6_str_len
         then Inr (0, dest, scope_id, make_error_code invalid_argument, env0)
         else
           (let ((result, dest'), env1) = sys_pton af src_ptr dest env0;
                (result, ec) = error_wrapper result env1;
                ec1 = (if result \<le> 0 \<and> ec = no_error then make_error_code invalid_argument else ec)
            in if result > 0 \<and> is_v6 \<and> scope_id \<noteq> None
               then (case if_name of
                       None \<Rightarrow> Inr (result, dest', Some 0, ec1, env1)
                     | Some name \<Rightarrow>
                         (let (index, env2) = (if is_link_local dest' \<or> is_multicast_link_local dest'
                                               then if_nametoindex name env1 else (0, env1))
                          in if index = 0
                             then (case atoi name of
                                     None \<Rightarrow> Inl Undefined_Behaviour
                                   | Some v \<Rightarrow> Inr (result, dest', Some (word_of_int v), ec1, env2))
                             else Inr (result, dest', Some (ucast index), ec1, env2)))
               else Inr (result, dest', scope_id, ec1, env1)))"

subsection \<open>What the system's functions do\<close>

text \<open>
  The documented behaviour the code relies on. \<open>interfaces\<close> are those of a state of the system: an
  index that is not 0, and a name of its own that is shorter than \<open>IF_NAMESIZE\<close> and may be any text,
  digits included. A name or an index the system gives is the one at that moment; it may fail to
  give one. Parsing the text of an address gives the address back; the text has no \<open>%\<close> and fits its
  buffer. What a call leaves in \<open>errno\<close> is not fixed, nor what it does to the interfaces.
\<close>

definition interfaces_ok :: "('os \<Rightarrow> uint32 \<Rightarrow> string option) \<Rightarrow> bool" where
  "interfaces_ok interfaces \<longleftrightarrow>
     (\<forall>w i nm. interfaces w i = Some nm \<longrightarrow>
        i \<noteq> 0 \<and> length nm < 16 \<and> (\<forall>j. interfaces w j = Some nm \<longrightarrow> j = i))"

definition text_calls_ok ::
    "('os \<Rightarrow> uint32 \<Rightarrow> string option) \<Rightarrow> (int \<Rightarrow> byte list \<Rightarrow> uint32 \<Rightarrow> ('os, string option) syscall) \<Rightarrow>
     (int \<Rightarrow> string \<Rightarrow> byte list \<Rightarrow> ('os, int \<times> byte list) syscall) \<Rightarrow>
     (uint32 \<Rightarrow> ('os, string option) syscall) \<Rightarrow> (string \<Rightarrow> ('os, uint32) syscall) \<Rightarrow> bool" where
  "text_calls_ok interfaces sys_ntop sys_pton if_indextoname if_nametoindex \<longleftrightarrow>
     interfaces_ok interfaces \<and>
     (\<forall>b len env. length b = 16 \<longrightarrow> 46 \<le> len \<longrightarrow>
        (\<exists>t. fst (sys_ntop AF_INET6 b len env) = Some t \<and> CHR ''%'' \<notin> set t \<and> length t < 46 \<and>
          (\<forall>dest env. fst (sys_pton AF_INET6 t dest env) = (1, b)))) \<and>
     (\<forall>i env. case fst (if_indextoname i env) of None \<Rightarrow> True | Some nm \<Rightarrow> interfaces (en_os env) i = Some nm) \<and>
     (\<forall>nm env. let i = fst (if_nametoindex nm env) in i \<noteq> 0 \<longrightarrow> interfaces (en_os env) i = Some nm)"

lemma text_calls_okD:
  assumes "text_calls_ok interfaces sys_ntop sys_pton if_indextoname if_nametoindex"
  shows "length b = 16 \<Longrightarrow> 46 \<le> len \<Longrightarrow>
      \<exists>t. fst (sys_ntop AF_INET6 b len env) = Some t \<and> CHR ''%'' \<notin> set t \<and> length t < 46 \<and>
        (\<forall>dest env. fst (sys_pton AF_INET6 t dest env) = (1, b))"
    and "fst (if_indextoname i env) = Some nm \<Longrightarrow> interfaces (en_os env) i = Some nm"
    and "fst (if_nametoindex nm env) = i \<Longrightarrow> i \<noteq> 0 \<Longrightarrow> interfaces (en_os env) i = Some nm"
    and "interfaces w i = Some nm \<Longrightarrow> i \<noteq> 0 \<and> length nm < 16"
proof -
  note laws = assms [unfolded text_calls_ok_def]
  from laws [THEN conjunct2, THEN conjunct1]
  show "length b = 16 \<Longrightarrow> 46 \<le> len \<Longrightarrow>
      \<exists>t. fst (sys_ntop AF_INET6 b len env) = Some t \<and> CHR ''%'' \<notin> set t \<and> length t < 46 \<and>
        (\<forall>dest env. fst (sys_pton AF_INET6 t dest env) = (1, b))" by blast
  show "fst (if_indextoname i env) = Some nm \<Longrightarrow> interfaces (en_os env) i = Some nm"
    using laws [THEN conjunct2, THEN conjunct2, THEN conjunct1, rule_format, where i = i and env = env] by simp
  show "fst (if_nametoindex nm env) = i \<Longrightarrow> i \<noteq> 0 \<Longrightarrow> interfaces (en_os env) i = Some nm"
    using laws [THEN conjunct2, THEN conjunct2, THEN conjunct2, rule_format, where nm = nm and env = env] by (simp add: Let_def)
  from laws [THEN conjunct1]
  show "interfaces w i = Some nm \<Longrightarrow> i \<noteq> 0 \<and> length nm < 16" unfolding interfaces_ok_def by blast
qed

lemma split_zone:
  assumes "CHR ''%'' \<notin> set t"
  shows "takeWhile (\<lambda>c. c \<noteq> CHR ''%'') (t @ CHR ''%'' # name) = t"
    "dropWhile (\<lambda>c. c \<noteq> CHR ''%'') (t @ CHR ''%'' # name) = CHR ''%'' # name"
proof -
  have "\<forall>c \<in> set t. c \<noteq> CHR ''%''" using assms by metis
  then show "takeWhile (\<lambda>c. c \<noteq> CHR ''%'') (t @ CHR ''%'' # name) = t"
    "dropWhile (\<lambda>c. c \<noteq> CHR ''%'') (t @ CHR ''%'' # name) = CHR ''%'' # name"
    by (simp_all add: takeWhile_append2 dropWhile_append2)
qed

text \<open>What \<open>inet_pton\<close> reads: no zone, and a zone that was looked up with the answer \<open>index\<close> or not at all.\<close>

lemma pton_plain:
  assumes "CHR ''%'' \<notin> set t" "fst (sys_pton AF_INET6 t dest (clear_last_error env)) = (1, b)"
  shows "\<exists>ec env'. so_inet_pton sys_pton if_nametoindex AF_INET6 t dest (Some any) env = Inr (1, b, Some 0, ec, env')"
  using assms by (auto simp: so_inet_pton_def error_wrapper_def split: prod.splits)

lemma pton_zone:
  assumes "CHR ''%'' \<notin> set t" "length t < 46"
    and "fst (sys_pton AF_INET6 t dest (clear_last_error env)) = (1, b)"
    and "index = (if is_link_local b \<or> is_multicast_link_local b
          then fst (if_nametoindex name (snd (sys_pton AF_INET6 t dest (clear_last_error env)))) else 0)"
  shows "\<exists>ec env'. so_inet_pton sys_pton if_nametoindex AF_INET6 (t @ CHR ''%'' # name) dest (Some any) env =
    (if index \<noteq> 0 then Inr (1, b, Some (ucast index), ec, env')
     else case atoi name of None \<Rightarrow> Inl Undefined_Behaviour | Some v \<Rightarrow> Inr (1, b, Some (word_of_int v), ec, env'))"
  using assms
  by (auto simp: so_inet_pton_def split_zone max_addr_v6_str_len_def error_wrapper_def Let_def split: prod.splits option.splits)

lemma scope_text:
  assumes "unat scope < 2 ^ 31"
  shows "length (digits_of (unat scope)) \<le> 10" "atoi (digits_of (unat scope)) = Some (uint scope)"
    "ucast (ucast scope :: uint32) = (scope :: size_t)"
proof -
  show "length (digits_of (unat scope)) \<le> 10" using length_digits_of [of "unat scope" 9] assms by simp
  show "atoi (digits_of (unat scope)) = Some (uint scope)" using atoi_digits_of [OF assms] by simp
  show "ucast (ucast scope :: uint32) = scope"
    using assms by (simp add: word_unat_eq_iff unsigned_ucast_eq unsigned_take_bit_eq take_bit_nat_eq_self)
qed

text \<open>What \<open>inet_ntop\<close> writes: the address, and for a scope the zone.\<close>

definition link_scoped :: "byte list \<Rightarrow> bool" where
  "link_scoped b \<longleftrightarrow> is_link_local b \<or> is_multicast_link_local b"

lemma ntop_zone:
  assumes ok: "text_calls_ok interfaces sys_ntop sys_pton if_indextoname if_nametoindex"
    and t: "fst (sys_ntop AF_INET6 b 256 (clear_last_error env)) = Some t" "length t < 46"
    and small: "unat scope < 2 ^ 31" and "scope \<noteq> 0"
    and zone: "zone = (case if link_scoped b
        then fst (if_indextoname (ucast scope) (snd (sys_ntop AF_INET6 b 256 (clear_last_error env)))) else None of
        Some nm \<Rightarrow> nm | None \<Rightarrow> digits_of (unat scope))"
  shows "length zone \<le> 15"
    "\<exists>ec env'. so_inet_ntop sys_ntop if_indextoname AF_INET6 b 256 scope env = Inr (Some (t @ CHR ''%'' # zone), ec, env')"
proof -
  show short: "length zone \<le> 15"
    using zone scope_text(1) [OF small] text_calls_okD(2, 4) [OF ok]
    by (auto split: option.splits if_splits dest!: text_calls_okD(2) [OF ok] text_calls_okD(4) [OF ok])
  show "\<exists>ec env'. so_inet_ntop sys_ntop if_indextoname AF_INET6 b 256 scope env = Inr (Some (t @ CHR ''%'' # zone), ec, env')"
    using t short \<open>scope \<noteq> 0\<close> zone
    by (auto simp: so_inet_ntop_def wrapped_def error_wrapper_def link_scoped_def Let_def split: prod.splits if_splits)
qed

text \<open>C33. An IPv6 address with a scope below \<open>2 ^ 31\<close> prints into the 256 bytes the library gives
  \<open>inet_ntop\<close>, whatever the interfaces: \<open>text\<close>, with the zone after \<open>%\<close>, which is the number of the
  scope or, for a link-local address, the name of its interface. \<open>inet_pton\<close>, later and with other
  interfaces perhaps, reads the same bytes, and the same scope but in two cases, both link-local:
  another interface has the zone as its name by then (a name or a number: an interface may be called
  \<open>3\<close>), and its index is read; or the zone is a name that is not found any more, and what \<open>atoi\<close>
  makes of the name is read. The system may fail to find a name, and nothing is assumed of \<open>errno\<close>.\<close>

theorem scope_id_round_trip:
  assumes ok: "text_calls_ok interfaces sys_ntop sys_pton if_indextoname if_nametoindex"
    and "length b = 16" and small: "unat scope < 2 ^ 31"
  shows "\<exists>text zone ec1 env1. so_inet_ntop sys_ntop if_indextoname AF_INET6 b 256 scope env = Inr (Some text, ec1, env1) \<and>
    length text < 256 \<and>
    (let printing = snd (sys_ntop AF_INET6 b 256 (clear_last_error env));
         named = (link_scoped b \<and> interfaces (en_os printing) (ucast scope) = Some zone)
     in (scope \<noteq> 0 \<longrightarrow> dropWhile (\<lambda>c. c \<noteq> CHR ''%'') text = CHR ''%'' # zone) \<and>
        (named \<or> zone = digits_of (unat scope)) \<and>
        (\<forall>dest any env2. \<exists>ec3 env3.
          let parsed = so_inet_pton sys_pton if_nametoindex AF_INET6 text dest (Some any) env2;
              reading = snd (sys_pton AF_INET6 (takeWhile (\<lambda>c. c \<noteq> CHR ''%'') text) dest (clear_last_error env2))
          in parsed = Inr (1, b, Some scope, ec3, env3) \<or>
             (\<exists>j. link_scoped b \<and> scope \<noteq> 0 \<and> j \<noteq> ucast scope \<and> interfaces (en_os reading) j = Some zone \<and>
               parsed = Inr (1, b, Some (ucast j), ec3, env3)) \<or>
             named \<and> scope \<noteq> 0 \<and> fst (if_nametoindex zone reading) = 0 \<and>
               parsed = (case atoi zone of None \<Rightarrow> Inl Undefined_Behaviour
                         | Some v \<Rightarrow> Inr (1, b, Some (word_of_int v), ec3, env3))))"
proof -
  obtain t where t: "fst (sys_ntop AF_INET6 b 256 (clear_last_error env)) = Some t" "CHR ''%'' \<notin> set t" "length t < 46"
      and pton: "\<And>dest env. fst (sys_pton AF_INET6 t dest env) = (1, b)"
    using text_calls_okD(1) [OF ok \<open>length b = 16\<close>, of 256 "clear_last_error env"] by auto
  show ?thesis
  proof (cases "scope = 0")
    case True
    have "\<exists>ec1 env1. so_inet_ntop sys_ntop if_indextoname AF_INET6 b 256 scope env = Inr (Some t, ec1, env1)"
      using t(1) True by (cases "sys_ntop AF_INET6 b 256 (clear_last_error env)")
        (simp add: so_inet_ntop_def wrapped_def error_wrapper_def)
    then obtain ec1 env1 where
      "so_inet_ntop sys_ntop if_indextoname AF_INET6 b 256 scope env = Inr (Some t, ec1, env1)" by blast
    moreover have "\<exists>ec3 env3. so_inet_pton sys_pton if_nametoindex AF_INET6 t dest (Some any) env2 =
        Inr (1, b, Some scope, ec3, env3)" for dest any env2
      unfolding True by (rule pton_plain) (rule t(2), rule pton)
    ultimately show ?thesis using True t(3)
      by (intro exI [of _ t] exI [of _ "digits_of (unat scope)"] exI [of _ ec1] exI [of _ env1]) (simp add: Let_def)
  next
    case False
    let ?printing = "snd (sys_ntop AF_INET6 b 256 (clear_last_error env))"
    let ?found = "if link_scoped b then fst (if_indextoname (ucast scope) ?printing) else None"
    obtain zone where zone: "zone = (case ?found of Some nm \<Rightarrow> nm | None \<Rightarrow> digits_of (unat scope))" by blast
    note print = ntop_zone [OF ok t(1, 3) small False zone]
    have named: "link_scoped b \<and> interfaces (en_os ?printing) (ucast scope) = Some zone \<or> zone = digits_of (unat scope)"
      using zone text_calls_okD(2) [OF ok, of "ucast scope" ?printing] by (auto split: option.splits if_splits)
    have "\<exists>ec3 env3. so_inet_pton sys_pton if_nametoindex AF_INET6 (t @ CHR ''%'' # zone) dest (Some any) env2 =
          Inr (1, b, Some scope, ec3, env3) \<or>
        (\<exists>j. link_scoped b \<and> j \<noteq> ucast scope \<and>
          interfaces (en_os (snd (sys_pton AF_INET6 t dest (clear_last_error env2)))) j = Some zone \<and>
          so_inet_pton sys_pton if_nametoindex AF_INET6 (t @ CHR ''%'' # zone) dest (Some any) env2 =
            Inr (1, b, Some (ucast j), ec3, env3)) \<or>
        link_scoped b \<and> interfaces (en_os ?printing) (ucast scope) = Some zone \<and>
          fst (if_nametoindex zone (snd (sys_pton AF_INET6 t dest (clear_last_error env2)))) = 0 \<and>
          so_inet_pton sys_pton if_nametoindex AF_INET6 (t @ CHR ''%'' # zone) dest (Some any) env2 =
            (case atoi zone of None \<Rightarrow> Inl Undefined_Behaviour
             | Some v \<Rightarrow> Inr (1, b, Some (word_of_int v), ec3, env3))" (is "\<exists>ec3 env3. ?read ec3 env3") for dest any env2
    proof -
      let ?reading = "snd (sys_pton AF_INET6 t dest (clear_last_error env2))"
      obtain index where index: "index = (if link_scoped b then fst (if_nametoindex zone ?reading) else 0)" by blast
      from pton_zone [where sys_pton = sys_pton and dest = dest and if_nametoindex = if_nametoindex and any = any,
          OF t(2, 3) pton index [unfolded link_scoped_def]]
      obtain ec3 env3 where read: "so_inet_pton sys_pton if_nametoindex AF_INET6 (t @ CHR ''%'' # zone) dest (Some any) env2 =
          (if index \<noteq> 0 then Inr (1, b, Some (ucast index), ec3, env3)
           else case atoi zone of None \<Rightarrow> Inl Undefined_Behaviour
             | Some v \<Rightarrow> Inr (1, b, Some (word_of_int v), ec3, env3))" by blast
      have "interfaces (en_os ?reading) index = Some zone" if "index \<noteq> 0"
        using text_calls_okD(3) [OF ok, of zone ?reading index] index that by (auto split: if_splits)
      with read index named scope_text(2, 3) [OF small] have "?read ec3 env3"
        by (cases "index = 0"; cases "index = ucast scope"; cases "zone = digits_of (unat scope)")
          (auto split: if_splits)
      then show ?thesis by blast
    qed
    note reads = this
    from print(2) obtain ec1 env1 where
      "so_inet_ntop sys_ntop if_indextoname AF_INET6 b 256 scope env = Inr (Some (t @ CHR ''%'' # zone), ec1, env1)"
      by blast
    with print(1) named False t(3) reads show ?thesis
      by (intro exI [of _ "t @ CHR ''%'' # zone"] exI [of _ zone] exI [of _ ec1] exI [of _ env1])
        (simp add: Let_def split_zone [OF t(2)])
  qed
qed

text \<open>A system that writes every byte as two letters and has one interface, \<open>eth0\<close> with index 3,
  or another one that is called \<open>3\<close>.\<close>

definition demo_encode :: "byte list \<Rightarrow> string" where
  "demo_encode b = concat (map (\<lambda>x. [char_of (97 + unat x div 16), char_of (97 + unat x mod 16)]) b)"

fun demo_decode :: "string \<Rightarrow> byte list" where
  "demo_decode (c # d # cs) = word_of_nat (16 * (of_char c - 97) + (of_char d - 97)) # demo_decode cs"
| "demo_decode cs = []"

definition demo_ntop :: "int \<Rightarrow> byte list \<Rightarrow> uint32 \<Rightarrow> (bool, string option) syscall" where
  "demo_ntop af b len env = (Some (demo_encode b), env)"

definition demo_pton :: "int \<Rightarrow> string \<Rightarrow> byte list \<Rightarrow> (bool, int \<times> byte list) syscall" where
  "demo_pton af s dest env = ((1, demo_decode s), env)"

definition demo_interfaces :: "bool \<Rightarrow> uint32 \<Rightarrow> string option" where
  "demo_interfaces renamed i = (if renamed then (if i = 7 then Some ''3'' else None)
     else if i = 3 then Some ''eth0'' else None)"

definition demo_indextoname :: "uint32 \<Rightarrow> (bool, string option) syscall" where
  "demo_indextoname i env = (demo_interfaces (en_os env) i, env)"

definition demo_nametoindex :: "string \<Rightarrow> (bool, uint32) syscall" where
  "demo_nametoindex s env = (if demo_interfaces (en_os env) 3 = Some s then 3
     else if demo_interfaces (en_os env) 7 = Some s then 7 else 0, env)"

lemma demo_decode_encode: "demo_decode (demo_encode b) = b"
proof (induction b)
  case (Cons x b)
  have "unat x < 256" using unsigned_less [of x, where 'a = nat] by simp
  then have "unat x div 16 < 16" "unat x mod 16 < 16" by auto
  with Cons show ?case by (simp add: demo_encode_def)
qed (simp add: demo_encode_def)

lemma demo_encode_plain: "CHR ''%'' \<notin> set (demo_encode b)"
proof -
  have letter: "CHR ''%'' \<noteq> char_of (97 + d)" if "d < (16 :: nat)" for d
  proof
    assume "CHR ''%'' = char_of (97 + d)"
    then have "(of_char CHR ''%'' :: nat) = of_char (char_of (97 + d) :: char)" by simp
    with that show False by simp
  qed
  have "unat x div 16 < 16" for x :: byte
    using unsigned_less [of x, where 'a = nat] by (simp add: less_mult_imp_div_less)
  with letter show ?thesis by (auto simp: demo_encode_def)
qed

lemma length_demo_encode: "length (demo_encode b) = 2 * length b"
  by (induction b) (simp_all add: demo_encode_def)

lemma demo_text_calls: "text_calls_ok demo_interfaces demo_ntop demo_pton demo_indextoname demo_nametoindex"
proof -
  have "interfaces_ok demo_interfaces" by (simp add: interfaces_ok_def demo_interfaces_def split: if_splits)
  then show ?thesis
    by (auto simp: text_calls_ok_def demo_ntop_def demo_pton_def demo_decode_encode demo_indextoname_def
        demo_nametoindex_def length_demo_encode demo_encode_plain Let_def split: option.splits)
qed

text \<open>Printed and read with the interface \<open>eth0\<close>.\<close>

theorem scope_id_round_trip_witness:
  "\<exists>txt ec1 env1 ec3 env3. so_inet_ntop demo_ntop demo_indextoname AF_INET6 (0xfe # 0x80 # replicate 14 0) 256 3
      \<lparr>en_errno = 0, en_os = False\<rparr> = Inr (Some txt, ec1, env1) \<and>
    so_inet_pton demo_pton demo_nametoindex AF_INET6 txt [] (Some 0) \<lparr>en_errno = 0, en_os = False\<rparr> =
      Inr (1, 0xfe # 0x80 # replicate 14 0, Some 3, ec3, env3)"
proof -
  have table: "demo_interfaces False j = Some zone \<longleftrightarrow> j = 3 \<and> zone = ''eth0''" for j zone
    by (auto simp: demo_interfaces_def)
  have lookup: "fst (demo_nametoindex ''eth0'' \<lparr>en_errno = e, en_os = False\<rparr>) = 3" for e
    by (simp add: demo_nametoindex_def demo_interfaces_def)
  have short: "length (0xfe # 0x80 # replicate 14 (0 :: byte)) = 16" "unat (3 :: size_t) < 2 ^ 31" by simp_all
  from scope_id_round_trip [OF demo_text_calls short, of "\<lparr>en_errno = 0, en_os = False\<rparr>"]
  show ?thesis
    unfolding Let_def demo_pton_def demo_ntop_def clear_last_error_def
    apply (elim exE conjE)
    subgoal for str zone ec1 env1
      apply (drule spec [of _ "[]"], drule spec [of _ 0], drule spec [of _ "\<lparr>en_errno = 0, en_os = False\<rparr>"])
      apply (elim exE)
      apply (rule exI, rule exI, rule exI, rule exI, rule exI, rule conjI, assumption)
      apply (auto simp: table lookup)
      done
    done
qed

text \<open>
  The number of an interface that is not there, in a system where another one has the number as its
  name: the scope 3 comes back as 7.
\<close>

lemma number_read_as_name:
  fixes b :: "byte list" and env :: "bool env"
  defines "b \<equiv> 0xfe # 0x80 # replicate 14 0" and "env \<equiv> \<lparr>en_errno = 0, en_os = True\<rparr>"
  shows "so_inet_ntop demo_ntop demo_indextoname AF_INET6 b 256 3 env = Inr (Some (demo_encode b @ ''%3''), 0, env)"
    and "so_inet_pton demo_pton demo_nametoindex AF_INET6 (demo_encode b @ ''%3'') [] (Some 0) env = Inr (1, b, Some 7, 0, env)"
proof -
  have b: "length b = 16" "is_link_local b" by (simp_all add: b_def is_link_local_def)
  have "digits_of 3 = ''3''" by code_simp
  with b show "so_inet_ntop demo_ntop demo_indextoname AF_INET6 b 256 3 env = Inr (Some (demo_encode b @ ''%3''), 0, env)"
    by (simp add: so_inet_ntop_def wrapped_def error_wrapper_def clear_last_error_def demo_ntop_def length_demo_encode
        demo_indextoname_def demo_interfaces_def env_def)
  show "so_inet_pton demo_pton demo_nametoindex AF_INET6 (demo_encode b @ ''%3'') [] (Some 0) env = Inr (1, b, Some 7, 0, env)"
    using b by (simp add: so_inet_pton_def error_wrapper_def clear_last_error_def demo_pton_def demo_decode_encode
        split_zone [OF demo_encode_plain] length_demo_encode max_addr_v6_str_len_def demo_nametoindex_def
        demo_interfaces_def env_def)
qed

end
