(* ===== verification/Addresses.thy ===== *)
theory Addresses
  imports Address_Text
begin

text \<open>
  \<^verbatim>\<open>address_v4.hpp\<close>, \<^verbatim>\<open>address_v6.hpp\<close>, \<^verbatim>\<open>address.hpp\<close>, \<^verbatim>\<open>endpoint.hpp\<close>, \<^verbatim>\<open>basic_endpoint.hpp\<close>,
  \<^verbatim>\<open>tcp.hpp\<close> and \<^verbatim>\<open>throw_error.hpp\<close>: addresses and endpoints. A function whose body ends without
  the \<open>return\<close> its type asks for has undefined behaviour, and \<open>throw_error(flag, e)\<close> throws \<open>e\<close> when
  \<open>flag\<close> converts to true.
\<close>

subsection \<open>Parameters\<close>

text \<open>The C library's byte order functions and the system's address functions.\<close>

record net_calls =
  nc_windows :: bool
  nc_htonl :: "uint32 \<Rightarrow> uint32"
  nc_ntohl :: "uint32 \<Rightarrow> uint32"
  nc_htons :: "uint16 \<Rightarrow> uint16"
  nc_ntohs :: "uint16 \<Rightarrow> uint16"

definition net_ok :: "net_calls \<Rightarrow> bool" where
  "net_ok nc \<longleftrightarrow> swaps32 (nc_htonl nc) \<and> swaps32 (nc_ntohl nc) \<and> swaps16 (nc_htons nc) \<and> swaps16 (nc_ntohs nc)"

abbreviation htonl :: "net_calls \<Rightarrow> uint32 \<Rightarrow> uint32" where
  "htonl nc \<equiv> host_to_network_long (nc_windows nc) (nc_htonl nc)"
abbreviation ntohl :: "net_calls \<Rightarrow> uint32 \<Rightarrow> uint32" where
  "ntohl nc \<equiv> network_to_host_long (nc_windows nc) (nc_ntohl nc)"
abbreviation htons :: "net_calls \<Rightarrow> uint16 \<Rightarrow> uint16" where
  "htons nc \<equiv> host_to_network_short (nc_windows nc) (nc_htons nc)"
abbreviation ntohs :: "net_calls \<Rightarrow> uint16 \<Rightarrow> uint16" where
  "ntohs nc \<equiv> network_to_host_short (nc_windows nc) (nc_ntohs nc)"

lemma net_ok_swap:
  assumes "net_ok nc"
  shows "htonl nc x = swap32 x" "ntohl nc x = swap32 x" "htons nc y = swap16 y" "ntohs nc y = swap16 y"
  using assms windows_bodies
  by (cases "nc_windows nc"; simp add: net_ok_def swaps32_iff swaps16_iff host_to_network_long_def
      network_to_host_long_def host_to_network_short_def network_to_host_short_def)+

type_synonym 'os ntop = "int \<Rightarrow> byte list \<Rightarrow> uint32 \<Rightarrow> ('os, string option) syscall"
type_synonym 'os pton = "int \<Rightarrow> string \<Rightarrow> byte list \<Rightarrow> ('os, int \<times> byte list) syscall"

definition throw_error :: "bool \<Rightarrow> fault \<Rightarrow> 'r \<Rightarrow> fault + 'r" where
  "throw_error flag e r = (if flag then Inl e else Inr r)"

subsection \<open>IPv4 addresses\<close>

text \<open>\<open>s_addr\<close>, as the integer its four bytes in memory make on the host.\<close>

record address_v4 =
  s_addr :: uint32

definition v4_default :: address_v4 where
  "v4_default = \<lparr>s_addr = 0\<rparr>"

fun v4_of_bytes :: "byte \<times> byte \<times> byte \<times> byte \<Rightarrow> address_v4" where
  "v4_of_bytes (a, b, c, d) = \<lparr>s_addr = val32 a b c d\<rparr>"

definition v4_of_uint :: "net_calls \<Rightarrow> uint32 \<Rightarrow> address_v4" where
  "v4_of_uint nc addr = \<lparr>s_addr = htonl nc addr\<rparr>"

definition v4_to_bytes :: "address_v4 \<Rightarrow> fault + byte \<times> byte \<times> byte \<times> byte" where
  "v4_to_bytes a = Inl Undefined_Behaviour"

definition v4_to_uint :: "net_calls \<Rightarrow> address_v4 \<Rightarrow> uint32" where
  "v4_to_uint nc a = htonl nc (s_addr a)"

text \<open>
  \<open>to_string\<close> throws when the pointer \<open>inet_ntop\<close> returned is not null; a \<open>std::string\<close> made from
  the null pointer is undefined.
\<close>

definition v4_to_string ::
    "'os ntop \<Rightarrow> (uint32 \<Rightarrow> ('os, string option) syscall) \<Rightarrow> address_v4 \<Rightarrow> 'os env \<Rightarrow> fault + string" where
  "v4_to_string ntop idx a env =
     (case so_inet_ntop ntop idx AF_INET (mem32 (s_addr a)) 256 0 env of
        Inl e \<Rightarrow> Inl e
      | Inr (addr, ec, env') \<Rightarrow>
          (case throw_error (addr \<noteq> None) (Throw_Error_Code ec) () of
             Inl e \<Rightarrow> Inl e
           | Inr _ \<Rightarrow> (case addr of Some s \<Rightarrow> Inr s | None \<Rightarrow> Inl Undefined_Behaviour)))"

text \<open>\<open>make_address_v4\<close> with an error code; what it parsed is copied from the local array.\<close>

definition make_address_v4_ec ::
    "'os pton \<Rightarrow> (string \<Rightarrow> ('os, uint32) syscall) \<Rightarrow> string \<Rightarrow> 'os env \<Rightarrow>
     fault + address_v4 \<times> error_code \<times> 'os env" where
  "make_address_v4_ec pton nametoindex str env =
     (case so_inet_pton pton nametoindex AF_INET str [0, 0, 0, 0] None env of
        Inl e \<Rightarrow> Inl e
      | Inr (result, bytes, scope, ec, env') \<Rightarrow>
          if result \<le> 0 then Inr (v4_default, ec, env')
          else Inr (v4_of_bytes (bytes ! 0, bytes ! 1, bytes ! 2, bytes ! 3), ec, env'))"

definition make_address_v4 ::
    "'os pton \<Rightarrow> (string \<Rightarrow> ('os, uint32) syscall) \<Rightarrow> string \<Rightarrow> 'os env \<Rightarrow> fault + address_v4 \<times> 'os env" where
  "make_address_v4 pton nametoindex str env =
     (case make_address_v4_ec pton nametoindex str env of
        Inl e \<Rightarrow> Inl e
      | Inr (addr, ec, env') \<Rightarrow> throw_error (ec \<noteq> no_error) (Throw_Error_Code ec) (addr, env'))"

subsection \<open>IPv6 addresses\<close>

record address_v6 =
  v6_bytes :: "byte list"
  v6_scope_id :: size_t

definition v6_default :: address_v6 where
  "v6_default = \<lparr>v6_bytes = replicate 16 0, v6_scope_id = 0\<rparr>"

definition v6_of_bytes :: "byte list \<Rightarrow> size_t \<Rightarrow> address_v6" where
  "v6_of_bytes bytes scope_id = \<lparr>v6_bytes = take 16 bytes, v6_scope_id = scope_id\<rparr>"

definition v6_set_scope_id :: "size_t \<Rightarrow> address_v6 \<Rightarrow> address_v6" where
  "v6_set_scope_id scope_id a = a\<lparr>v6_scope_id := scope_id\<rparr>"

definition v6_to_bytes :: "address_v6 \<Rightarrow> fault + byte list" where
  "v6_to_bytes a = Inl Undefined_Behaviour"

definition v6_to_string ::
    "'os ntop \<Rightarrow> (uint32 \<Rightarrow> ('os, string option) syscall) \<Rightarrow> address_v6 \<Rightarrow> 'os env \<Rightarrow> fault + string" where
  "v6_to_string ntop idx a env =
     (case so_inet_ntop ntop idx AF_INET6 (v6_bytes a) 256 (v6_scope_id a) env of
        Inl e \<Rightarrow> Inl e
      | Inr (addr, ec, env') \<Rightarrow>
          (case throw_error (addr \<noteq> None) (Throw_Error_Code ec) () of
             Inl e \<Rightarrow> Inl e
           | Inr _ \<Rightarrow> (case addr of Some s \<Rightarrow> Inr s | None \<Rightarrow> Inl Undefined_Behaviour)))"

text \<open>\<open>make_address_v6\<close> parses into locals and returns a default address on both branches.\<close>

definition make_address_v6_ec ::
    "'os pton \<Rightarrow> (string \<Rightarrow> ('os, uint32) syscall) \<Rightarrow> string \<Rightarrow> 'os env \<Rightarrow>
     fault + address_v6 \<times> error_code \<times> 'os env" where
  "make_address_v6_ec pton nametoindex ip env =
     (case so_inet_pton pton nametoindex AF_INET6 ip (replicate 16 0) (Some 0) env of
        Inl e \<Rightarrow> Inl e
      | Inr (result, bytes, scope_id, ec, env') \<Rightarrow>
          if result \<le> 0 then Inr (v6_default, ec, env') else Inr (v6_default, ec, env'))"

definition make_address_v6 ::
    "'os pton \<Rightarrow> (string \<Rightarrow> ('os, uint32) syscall) \<Rightarrow> string \<Rightarrow> 'os env \<Rightarrow> fault + address_v6 \<times> 'os env" where
  "make_address_v6 pton nametoindex ip env =
     (case make_address_v6_ec pton nametoindex ip env of
        Inl e \<Rightarrow> Inl e
      | Inr (addr, ec, env') \<Rightarrow> throw_error (ec \<noteq> no_error) (Throw_Error_Code ec) (addr, env'))"

subsection \<open>Addresses of either kind\<close>

datatype address_type = ipv4 | ipv6

record address =
  addr_type :: address_type
  ipv4_address :: address_v4
  ipv6_address :: address_v6

definition addr_default :: address where
  "addr_default = \<lparr>addr_type = ipv4, ipv4_address = v4_default, ipv6_address = v6_default\<rparr>"

definition addr_of_v4 :: "address_v4 \<Rightarrow> address" where
  "addr_of_v4 a = \<lparr>addr_type = ipv4, ipv4_address = a, ipv6_address = v6_default\<rparr>"

definition addr_of_v6 :: "address_v6 \<Rightarrow> address" where
  "addr_of_v6 a = \<lparr>addr_type = ipv6, ipv4_address = v4_default, ipv6_address = a\<rparr>"

definition addr_is_v4 :: "address \<Rightarrow> bool" where
  "addr_is_v4 a \<longleftrightarrow> addr_type a = ipv4"

definition addr_is_v6 :: "address \<Rightarrow> bool" where
  "addr_is_v6 a \<longleftrightarrow> addr_type a = ipv6"

definition addr_to_v4 :: "address \<Rightarrow> fault + address_v4" where
  "addr_to_v4 a = throw_error (addr_type a \<noteq> ipv4) (Throw_Error_Code (make_error_code bad_address)) (ipv4_address a)"

definition addr_to_v6 :: "address \<Rightarrow> fault + address_v6" where
  "addr_to_v6 a = throw_error (addr_type a \<noteq> ipv6) (Throw_Error_Code (make_error_code bad_address)) (ipv6_address a)"

definition addr_to_string ::
    "'os ntop \<Rightarrow> (uint32 \<Rightarrow> ('os, string option) syscall) \<Rightarrow> address \<Rightarrow> 'os env \<Rightarrow> fault + string" where
  "addr_to_string ntop idx a env =
     (if addr_is_v4 a then v4_to_string ntop idx (ipv4_address a) env
      else v6_to_string ntop idx (ipv6_address a) env)"

text \<open>\<open>make_address\<close>: try IPv4, then IPv6.\<close>

definition make_address_ec ::
    "'os pton \<Rightarrow> (string \<Rightarrow> ('os, uint32) syscall) \<Rightarrow> string \<Rightarrow> 'os env \<Rightarrow> fault + address \<times> error_code \<times> 'os env" where
  "make_address_ec pton nametoindex ip env =
     (case make_address_v4_ec pton nametoindex ip env of
        Inl e \<Rightarrow> Inl e
      | Inr (a4, ec, env1) \<Rightarrow>
          if ec = no_error then Inr (addr_of_v4 a4, ec, env1)
          else (case make_address_v6_ec pton nametoindex ip env1 of
                  Inl e \<Rightarrow> Inl e
                | Inr (a6, ec', env2) \<Rightarrow>
                    if ec' = no_error then Inr (addr_of_v6 a6, ec', env2)
                    else Inr (addr_default, ec', env2)))"

definition make_address ::
    "'os pton \<Rightarrow> (string \<Rightarrow> ('os, uint32) syscall) \<Rightarrow> string \<Rightarrow> 'os env \<Rightarrow> fault + address \<times> 'os env" where
  "make_address pton nametoindex ip env =
     (case make_address_ec pton nametoindex ip env of
        Inl e \<Rightarrow> Inl e
      | Inr (addr, ec, env') \<Rightarrow> throw_error (ec \<noteq> no_error) (Throw_Error_Code ec) (addr, env'))"

subsection \<open>Endpoints\<close>

text \<open>The union \<open>data_\<close>: the address family, at the same place in each member, tells them apart.\<close>

datatype sockaddr =
    Sockaddr_In (sin_port: uint16) (sin_addr: uint32)
  | Sockaddr_In6 (sin6_port: uint16) (sin6_flowinfo: uint32) (sin6_addr: "byte list") (sin6_scope_id: uint32)

definition INADDR_ANY :: uint32 where
  "INADDR_ANY = 0"

definition ep_default :: sockaddr where
  "ep_default = Sockaddr_In 0 INADDR_ANY"

definition ep_of_family :: "net_calls \<Rightarrow> int \<Rightarrow> uint16 \<Rightarrow> sockaddr" where
  "ep_of_family nc family port =
     (if family = AF_INET then Sockaddr_In (htons nc port) INADDR_ANY
      else Sockaddr_In6 (htons nc port) 0 (replicate 16 0) 0)"

text \<open>The IPv4 branch stores the address and then \<open>INADDR_ANY\<close> over it.\<close>

definition ep_of_address :: "net_calls \<Rightarrow> address \<Rightarrow> uint16 \<Rightarrow> fault + sockaddr" where
  "ep_of_address nc addr port =
     (if addr_is_v4 addr
      then (case addr_to_v4 addr of
              Inl e \<Rightarrow> Inl e
            | Inr a4 \<Rightarrow>
                (let stored = Sockaddr_In (htons nc port) (htonl nc (v4_to_uint nc a4))
                 in Inr (case stored of Sockaddr_In p a \<Rightarrow> Sockaddr_In p INADDR_ANY | other \<Rightarrow> other)))
      else (case addr_to_v6 addr of
              Inl e \<Rightarrow> Inl e
            | Inr a6 \<Rightarrow>
                (case v6_to_bytes a6 of
                   Inl e \<Rightarrow> Inl e
                 | Inr bytes \<Rightarrow> Inr (Sockaddr_In6 (htons nc port) 0 bytes (ucast (v6_scope_id a6))))))"

definition ep_is_v4 :: "sockaddr \<Rightarrow> bool" where
  "ep_is_v4 ep \<longleftrightarrow> (case ep of Sockaddr_In _ _ \<Rightarrow> True | Sockaddr_In6 _ _ _ _ \<Rightarrow> False)"

definition ep_port :: "net_calls \<Rightarrow> sockaddr \<Rightarrow> uint16" where
  "ep_port nc ep = ntohs nc (if ep_is_v4 ep then sin_port ep else sin6_port ep)"

definition ep_set_port :: "net_calls \<Rightarrow> uint16 \<Rightarrow> sockaddr \<Rightarrow> sockaddr" where
  "ep_set_port nc port ep =
     (case ep of
        Sockaddr_In _ a \<Rightarrow> Sockaddr_In (htons nc port) a
      | Sockaddr_In6 _ f a s \<Rightarrow> Sockaddr_In6 (htons nc port) f a s)"

definition ep_address :: "net_calls \<Rightarrow> sockaddr \<Rightarrow> address" where
  "ep_address nc ep =
     (case ep of
        Sockaddr_In _ a \<Rightarrow> addr_of_v4 (v4_of_uint nc (ntohl nc a))
      | Sockaddr_In6 _ _ bytes scope \<Rightarrow> addr_of_v6 (v6_of_bytes bytes (ucast scope)))"

definition ep_set_address :: "net_calls \<Rightarrow> address \<Rightarrow> sockaddr \<Rightarrow> fault + sockaddr" where
  "ep_set_address nc addr ep = ep_of_address nc addr (ep_port nc ep)"

text \<open>\<open>endpoint::to_string\<close> prints \<open>address().to_string()\<close> and then ends without a return.\<close>

definition ep_to_string ::
    "'os ntop \<Rightarrow> (uint32 \<Rightarrow> ('os, string option) syscall) \<Rightarrow> net_calls \<Rightarrow> sockaddr \<Rightarrow> 'os env \<Rightarrow> fault + string" where
  "ep_to_string ntop idx nc ep env =
     (case addr_to_string ntop idx (ep_address nc ep) env of
        Inl e \<Rightarrow> Inl e
      | Inr s \<Rightarrow> Inl Undefined_Behaviour)"

lemmas address_defs [op_defs] =
  v4_default_def v4_of_uint_def v4_to_uint_def v6_default_def v6_of_bytes_def addr_default_def
  addr_of_v4_def addr_of_v6_def addr_is_v4_def addr_is_v6_def addr_to_v4_def addr_to_v6_def throw_error_def

subsection \<open>Properties\<close>

text \<open>An IPv4 address keeps its value: built from an integer it gives the integer back, built from
  four bytes it gives the integer with the first byte most significant, and the port of an
  endpoint reads back as it was set, on either family, with the address untouched.\<close>

theorem address_and_port_round_trip:
  assumes "net_ok nc"
  shows "v4_to_uint nc (v4_of_uint nc x) = x \<and>
    v4_to_uint nc (v4_of_bytes (a, b, c, d)) = val32 d c b a \<and>
    ep_port nc (ep_set_port nc port ep) = port \<and> ep_address nc (ep_set_port nc port ep) = ep_address nc ep \<and>
    ep_port nc (ep_of_family nc family port) = port \<and>
    ep_address nc (Sockaddr_In p (s_addr (v4_of_uint nc x))) = addr_of_v4 (v4_of_uint nc x)"
  using net_ok_swap [OF assms]
  by (auto simp: address_defs ep_port_def ep_set_port_def ep_is_v4_def ep_address_def ep_of_family_def swap32_def
      split: sockaddr.split simp del: One_nat_def)

definition demo_net :: net_calls where
  "demo_net = \<lparr>nc_windows = False, nc_htonl = swap32, nc_ntohl = swap32, nc_htons = swap16, nc_ntohs = swap16\<rparr>"

lemma demo_net_ok: "net_ok demo_net"
  by (simp add: net_ok_def demo_net_def swaps32_iff swaps16_iff)

theorem address_and_port_round_trip_witness:
  "v4_to_uint demo_net (v4_of_bytes (127, 0, 0, 1)) = 0x7F000001 \<and>
   ep_port demo_net (ep_set_port demo_net 8080 ep_default) = 8080"
  using address_and_port_round_trip [OF demo_net_ok, of 0 127 0 0 1 8080 ep_default 0 0]
  by (simp add: val32_def)

text \<open>An endpoint built from an address and a port has the port but never the address: every IPv4
  address becomes \<open>0.0.0.0\<close>, and for an IPv6 address the constructor is undefined. Setting an
  endpoint's address does the same.\<close>

theorem endpoint_loses_address:
  assumes "net_ok nc"
  shows "(addr_is_v4 addr \<longrightarrow> (\<exists>ep. ep_of_address nc addr port = Inr ep \<and> ep_port nc ep = port \<and>
      ep_address nc ep = addr_of_v4 v4_default)) \<and>
    (addr_is_v6 addr \<longrightarrow> ep_of_address nc addr port = Inl Undefined_Behaviour) \<and>
    ep_set_address nc addr ep = ep_of_address nc addr (ep_port nc ep)"
  using net_ok_swap [OF assms]
  by (auto simp: ep_of_address_def address_defs ep_port_def ep_is_v4_def ep_address_def INADDR_ANY_def
      v6_to_bytes_def ep_set_address_def swap32_def val32_def byte_at_def)

theorem endpoint_loses_address_witness:
  "\<exists>ep. ep_of_address demo_net (addr_of_v4 (v4_of_bytes (127, 0, 0, 1))) 80 = Inr ep \<and>
     ep_address demo_net ep = addr_of_v4 v4_default"
  using endpoint_loses_address [OF demo_net_ok, of "addr_of_v4 (v4_of_bytes (127, 0, 0, 1))" 80 ep_default]
  by (auto simp: addr_is_v4_def addr_of_v4_def)

text \<open>Printing never succeeds: \<open>to_string\<close> of an address or an endpoint throws, with the (clear)
  error code, when the conversion works, and is undefined when it does not.\<close>

theorem to_string_never_returns:
  "\<not> returns (addr_to_string ntop idx a env) \<and> \<not> returns (ep_to_string ntop idx nc ep env) \<and>
   (ntop AF_INET (mem32 (s_addr a4)) 256 (clear_last_error env) = (Some txt, clear_last_error env) \<longrightarrow>
     addr_to_string ntop idx (addr_of_v4 a4) env = Inl (Throw_Error_Code no_error))"
proof -
  have v4: "\<not> returns (v4_to_string ntop idx a env)" for a
    by (auto simp: v4_to_string_def throw_error_def returns_def split: sum.splits prod.splits option.splits)
  have v6: "\<not> returns (v6_to_string ntop idx a env)" for a
    by (auto simp: v6_to_string_def throw_error_def returns_def split: sum.splits prod.splits option.splits)
  have "\<not> returns (ep_to_string ntop idx nc ep env)"
    by (auto simp: ep_to_string_def returns_def split: sum.splits)
  moreover have "addr_to_string ntop idx (addr_of_v4 a4) env = Inl (Throw_Error_Code no_error)"
    if "ntop AF_INET (mem32 (s_addr a4)) 256 (clear_last_error env) = (Some txt, clear_last_error env)"
    using that
    by (simp add: addr_to_string_def addr_of_v4_def addr_is_v4_def v4_to_string_def so_inet_ntop_def wrapped_def
        error_wrapper_def clear_last_error_def throw_error_def AF_INET_def AF_INET6_def)
  ultimately show ?thesis using v4 v6 by (auto simp: addr_to_string_def)
qed

theorem to_string_never_returns_witness:
  "addr_to_string demo_ntop demo_indextoname (addr_of_v4 (v4_of_bytes (127, 0, 0, 1))) \<lparr>en_errno = 5, en_os = False\<rparr> =
     Inl (Throw_Error_Code 0)"
  using to_string_never_returns [of demo_ntop demo_indextoname addr_default "\<lparr>en_errno = 5, en_os = False\<rparr>"
      demo_net ep_default "v4_of_bytes (127, 0, 0, 1)" "demo_encode (mem32 (val32 127 0 0 1))"]
  by (simp add: demo_ntop_def)

text \<open>Parsing: text the system accepts as IPv4 gives that address; text it accepts only as IPv6
  gives, without an error, the IPv6 address of all zeros and scope 0, whatever was parsed; text it
  refuses throws the error.\<close>

theorem make_address_branches:
  assumes p4: "\<And>env. pton AF_INET ip [0, 0, 0, 0] env = ((r4, [a, b, c, d]), env)"
    and p6: "\<And>env. pton AF_INET6 ip (replicate 16 0) env = ((r6, bytes), env)"
    and "CHR ''%'' \<notin> set ip"
  shows "\<exists>env'. make_address pton idx ip env =
    (if 0 < r4 then Inr (addr_of_v4 (v4_of_bytes (a, b, c, d)), env')
     else if 0 < r6 then Inr (addr_of_v6 v6_default, env')
     else Inl (Throw_Error_Code (make_error_code invalid_argument)))"
proof -
  have "so_inet_pton pton idx AF_INET ip [0, 0, 0, 0] None env =
      Inr (r4, [a, b, c, d], None, if r4 \<le> 0 then make_error_code invalid_argument else no_error, clear_last_error env)"
    for env
    using p4 by (simp add: so_inet_pton_def error_wrapper_def clear_last_error_def AF_INET_def AF_INET6_def)
  moreover have "so_inet_pton pton idx AF_INET6 ip (replicate 16 0) (Some 0) env =
      Inr (r6, bytes, Some 0, if r6 \<le> 0 then make_error_code invalid_argument else no_error, clear_last_error env)"
    for env
    using p6 assms(3) by (simp add: so_inet_pton_def error_wrapper_def clear_last_error_def)
  ultimately show ?thesis
    by (auto simp: make_address_def make_address_ec_def make_address_v4_ec_def make_address_v6_ec_def throw_error_def)
qed

theorem make_address_branches_witness:
  "\<exists>env'. make_address (\<lambda>af s dest env. ((if af = AF_INET then 0 else 1, dest), env))
      (\<lambda>s env. (0, env)) ''fe80::1'' \<lparr>en_errno = 0, en_os = ()\<rparr> = Inr (addr_of_v6 v6_default, env')"
  using make_address_branches [of "\<lambda>af s dest env. ((if af = AF_INET then 0 else 1, dest), env)" "''fe80::1''" 0 0 0 0 0
      1 "replicate 16 0" "\<lambda>s env. (0, env)" "\<lparr>en_errno = 0, en_os = ()\<rparr>"]
  by (simp add: AF_INET_def AF_INET6_def)

end
