(* ===== verification/Buffers.thy ===== *)
theory Buffers
  imports Prelude
begin

text \<open>
  \<^verbatim>\<open>buffer.hpp\<close> and \<^verbatim>\<open>buffer_sequence_adapter.hpp\<close>: views of memory, and the arrays of \<open>iovec\<close> a
  sequence of them becomes for \<open>recvmsg\<close> and \<open>sendmsg\<close>. A pointer is its 64-bit address.
  A range is the list of its buffers; its elements are \<open>mutable_buffer\<close>s, or \<open>const_buffer\<close>s read as
  such, which is shown to make no difference.
\<close>

subsection \<open>Buffers\<close>

record buf =
  buf_data :: size_t
  buf_size :: size_t

definition buf_default :: buf where
  "buf_default = \<lparr>buf_data = 0, buf_size = 0\<rparr>"

definition buf_advance :: "buf \<Rightarrow> size_t \<Rightarrow> buf" where
  "buf_advance b n =
     (let offset = (if n < buf_size b then n else buf_size b)
      in \<lparr>buf_data = buf_data b + offset, buf_size = buf_size b - offset\<rparr>)"

text \<open>\<open>const_buffer\<close>, and reading one as a \<open>mutable_buffer\<close>.\<close>

record const_buf =
  cb_data :: size_t
  cb_size :: size_t

definition const_buf_default :: const_buf where
  "const_buf_default = \<lparr>cb_data = 0, cb_size = 0\<rparr>"

definition const_buf_ctor :: "size_t \<Rightarrow> size_t \<Rightarrow> const_buf" where
  "const_buf_ctor addr sz = \<lparr>cb_data = addr, cb_size = sz\<rparr>"

definition const_buf_advance :: "const_buf \<Rightarrow> size_t \<Rightarrow> const_buf" where
  "const_buf_advance b n =
     (let offset = (if n < cb_size b then n else cb_size b)
      in b\<lparr>cb_data := cb_data b + offset, cb_size := cb_size b - offset\<rparr>)"

definition as_mutable :: "const_buf \<Rightarrow> buf" where
  "as_mutable b = \<lparr>buf_data = cb_data b, buf_size = cb_size b\<rparr>"

subsection \<open>Sequences\<close>

record iovec =
  iov_base :: size_t
  iov_len :: size_t

definition max_iov_len :: nat where
  "max_iov_len = 16"

definition max_buffers :: nat where
  "max_buffers = (if 64 < max_iov_len then 64 else max_iov_len)"

definition init_native_buffer :: "buf \<Rightarrow> iovec" where
  "init_native_buffer b = \<lparr>iov_base = buf_data b, iov_len = buf_size b\<rparr>"

definition init_native_const_buffer :: "const_buf \<Rightarrow> iovec" where
  "init_native_const_buffer b = \<lparr>iov_base = cb_data b, iov_len = cb_size b\<rparr>"

text \<open>The part of the array that is filled, \<open>count_\<close> and \<open>total_buffer_size_\<close>.\<close>

record adapter =
  ad_buffers :: "iovec list"
  ad_count :: nat
  ad_total :: size_t

text \<open>
  The loop of the template \<open>init\<close> over a range of buffers; \<open>adapter_init\<close> is \<open>init\<close> on members that
  are 0. The constructor calls it on the range that starts at its argument and has one element: the
  argument itself, converted to a buffer.
\<close>

fun adapter_loop :: "buf list \<Rightarrow> adapter \<Rightarrow> adapter" where
  "adapter_loop [] a = a"
| "adapter_loop (b # bs) a =
     (if ad_count a < max_buffers
      then adapter_loop bs \<lparr>ad_buffers = ad_buffers a @ [init_native_buffer b], ad_count = Suc (ad_count a),
             ad_total = ad_total a + buf_size b\<rparr>
      else a)"

definition adapter_init :: "buf list \<Rightarrow> adapter" where
  "adapter_init bs = adapter_loop bs \<lparr>ad_buffers = [], ad_count = 0, ad_total = 0\<rparr>"

definition adapter_ctor :: "buf \<Rightarrow> adapter" where
  "adapter_ctor b = adapter_init [b]"

definition adapter_all_empty :: "adapter \<Rightarrow> bool" where
  "adapter_all_empty a \<longleftrightarrow> ad_total a = 0"

text \<open>
  The static templates \<open>all_empty\<close>, with its own count \<open>i\<close>, \<open>validate\<close>, which only reads, and \<open>first\<close>
  over a range. Their overloads that take a sequence have an empty body, undefined where a value is
  to be returned.
\<close>

fun all_empty_from :: "nat \<Rightarrow> buf list \<Rightarrow> bool" where
  "all_empty_from i [] = True"
| "all_empty_from i (b # bs) =
     (if i < max_buffers then if buf_size b > 0 then False else all_empty_from (Suc i) bs else True)"

definition all_empty :: "buf list \<Rightarrow> bool" where
  "all_empty bs = all_empty_from 0 bs"

definition all_empty_sequence :: "buf list \<Rightarrow> fault + bool" where
  "all_empty_sequence buffer_sequence = Inl Undefined_Behaviour"

fun validate_buffers :: "buf list \<Rightarrow> unit" where
  "validate_buffers [] = ()"
| "validate_buffers (b # bs) = (let data = buf_data b in validate_buffers bs)"

definition validate_sequence :: "buf list \<Rightarrow> unit" where
  "validate_sequence buffer_sequence = ()"

fun first_buffer :: "buf list \<Rightarrow> buf" where
  "first_buffer [] = buf_default"
| "first_buffer (b # bs) = (if buf_size b \<noteq> 0 then b else first_buffer bs)"

definition first_sequence :: "buf list \<Rightarrow> fault + buf" where
  "first_sequence buffer_sequence = Inl Undefined_Behaviour"

subsection \<open>Properties\<close>

text \<open>
  What the code that consumes a buffer in steps relies on: a view is a start, a size and an end,
  advancing moves the start within the view and leaves the end.
\<close>

locale consumable =
  fixes len :: "'b \<Rightarrow> size_t" and stop :: "'b \<Rightarrow> size_t" and advance :: "'b \<Rightarrow> size_t \<Rightarrow> 'b"
  assumes stop_advance: "stop (advance b n) = stop b"
    and len_advance: "unat (len (advance b n)) = unat (len b) - unat n"
    and same: "stop b = stop b' \<Longrightarrow> len b = len b' \<Longrightarrow> b = b'"
begin

text \<open>Advancing in two steps is advancing at once.\<close>

lemma advance_twice:
  assumes "unat m + unat n < 2 ^ 64"
  shows "advance (advance b m) n = advance b (m + n)"
proof (rule same)
  have "unat (m + n) = unat m + unat n" using assms by (simp add: unat_add_lem [symmetric])
  then show "len (advance (advance b m) n) = len (advance b (m + n))"
    by (simp add: word_unat_eq_iff len_advance)
qed (simp add: stop_advance)

text \<open>Consuming any number of chunks never leaves the view.\<close>

lemma advance_all: "stop (fold (\<lambda>n b. advance b n) ns b) = stop b \<and>
    unat (len (fold (\<lambda>n b. advance b n) ns b)) = unat (len b) - sum_list (map unat ns)"
  by (induction ns arbitrary: b) (simp_all add: stop_advance len_advance)

end

interpretation buf_view: consumable buf_size "\<lambda>b. buf_data b + buf_size b" buf_advance
proof unfold_locales
  fix b :: buf and n :: size_t
  show "buf_data (buf_advance b n) + buf_size (buf_advance b n) = buf_data b + buf_size b"
    by (simp add: buf_advance_def)
  show "unat (buf_size (buf_advance b n)) = unat (buf_size b) - unat n"
    by (auto simp: buf_advance_def unat_sub_if' not_less word_le_nat_alt word_less_nat_alt)
next
  fix b b' :: buf
  assume "buf_data b + buf_size b = buf_data b' + buf_size b'" "buf_size b = buf_size b'"
  then show "b = b'" by (cases b; cases b') simp
qed

text \<open>A \<open>const_buffer\<close> behaves as the \<open>mutable_buffer\<close> with the same members.\<close>

lemma as_mutable_advance: "as_mutable (const_buf_advance b n) = buf_advance (as_mutable b) n"
  by (simp add: as_mutable_def const_buf_advance_def buf_advance_def Let_def)

lemma as_mutable_sel [simp]: "buf_data (as_mutable b) = cb_data b" "buf_size (as_mutable b) = cb_size b"
  by (simp_all add: as_mutable_def)

lemma as_mutable_inject [simp]: "as_mutable b = as_mutable b' \<longleftrightarrow> b = b'"
  by (cases b; cases b') (simp add: as_mutable_def)

lemma init_native_const_buffer_eq: "init_native_const_buffer b = init_native_buffer (as_mutable b)"
  by (simp add: init_native_const_buffer_def init_native_buffer_def)

interpretation const_view: consumable cb_size "\<lambda>b. cb_data b + cb_size b" const_buf_advance
proof unfold_locales
  fix b :: const_buf and n :: size_t
  show "cb_data (const_buf_advance b n) + cb_size (const_buf_advance b n) = cb_data b + cb_size b"
    using buf_view.stop_advance [of "as_mutable b" n] by (simp flip: as_mutable_advance)
  show "unat (cb_size (const_buf_advance b n)) = unat (cb_size b) - unat n"
    using buf_view.len_advance [of "as_mutable b" n] by (simp flip: as_mutable_advance)
next
  fix b b' :: const_buf
  assume "cb_data b + cb_size b = cb_data b' + cb_size b'" "cb_size b = cb_size b'"
  then show "b = b'" using buf_view.same [of "as_mutable b" "as_mutable b'"] by simp
qed

text \<open>Consuming a buffer by any sequence of amounts never leaves it: the end stays where it was,
  the size shrinks by the total amount down to 0, and two steps are one step by their sum (while
  the sum fits \<open>std::size_t\<close>).\<close>

theorem buffer_consumed_in_steps:
  assumes "unat m + unat n < 2 ^ 64"
  shows "buf_advance (buf_advance b m) n = buf_advance b (m + n) \<and>
    (let b' = fold (\<lambda>n b. buf_advance b n) ns b
     in buf_data b' + buf_size b' = buf_data b + buf_size b \<and>
       unat (buf_size b') = unat (buf_size b) - sum_list (map unat ns))"
  using buf_view.advance_twice [OF assms] buf_view.advance_all [of ns b] by (simp add: Let_def)

theorem buffer_consumed_in_steps_witness:
  "buf_advance (buf_advance \<lparr>buf_data = 100, buf_size = 10\<rparr> 3) 4 = \<lparr>buf_data = 107, buf_size = 3\<rparr>"
  using buffer_consumed_in_steps [of 3 4 "\<lparr>buf_data = 100, buf_size = 10\<rparr>" "[]"] by (simp add: buf_advance_def)

lemma adapter_loop_eq:
  assumes "ad_count a \<le> max_buffers"
  shows "adapter_loop bs a =
    (let used = take (max_buffers - ad_count a) bs
     in \<lparr>ad_buffers = ad_buffers a @ map init_native_buffer used, ad_count = ad_count a + length used,
        ad_total = ad_total a + sum_list (map buf_size used)\<rparr>)"
  using assms
proof (induction bs arbitrary: a)
  case Nil
  show ?case by (cases a) simp
next
  case (Cons b bs)
  show ?case
  proof (cases "ad_count a < max_buffers")
    case True
    then obtain k where "max_buffers - ad_count a = Suc k" by (metis Suc_diff_Suc)
    moreover from this have "max_buffers - Suc (ad_count a) = k" by simp
    ultimately show ?thesis
      using True by (simp add: Cons.IH Let_def add.assoc)
  next
    case False
    with Cons.prems show ?thesis by (cases a) simp
  qed
qed

lemma all_empty_from_eq:
  "i \<le> max_buffers \<Longrightarrow> all_empty_from i bs \<longleftrightarrow> (\<forall>b \<in> set (take (max_buffers - i) bs). buf_size b = 0)"
proof (induction bs arbitrary: i)
  case (Cons b bs)
  show ?case
  proof (cases "i < max_buffers")
    case True
    then have "max_buffers - i = Suc (max_buffers - Suc i)" by simp
    with True Cons.IH [of "Suc i"] show ?thesis by (simp add: word_neq_0_conv [symmetric])
  next
    case False
    with Cons.prems show ?thesis by simp
  qed
qed simp

lemma sizes_no_wrap:
  "sum_list (map (unat \<circ> buf_size) bs) < 2 ^ 64 \<Longrightarrow>
   unat (sum_list (map buf_size bs)) = sum_list (map (unat \<circ> buf_size) bs)"
  by (induction bs) (simp_all add: unat_word_ariths)

lemma sizes_wrap: "unat (sum_list (map buf_size bs)) = sum_list (map (unat \<circ> buf_size) bs) mod 2 ^ 64"
  by (induction bs) (simp_all add: unat_word_ariths mod_simps)

text \<open>C40. The adapter takes the first 16 buffers of a range, in order, and no more; its total is
  the sum of their sizes modulo \<open>2 ^ 64\<close>. There are two tests for emptiness: \<open>all_empty()\<close> holds when
  that total is 0, the static one when each of the first 16 buffers is empty. While the sum does not
  wrap they agree; when it wraps to 0 the first holds of a request that is not empty and the second
  does not.\<close>

theorem adapter_takes_sixteen:
  shows "ad_buffers (adapter_init bs) = map init_native_buffer (take 16 bs) \<and>
    ad_count (adapter_init bs) = min 16 (length bs) \<and>
    ad_total (adapter_init bs) = sum_list (map buf_size (take 16 bs)) \<and>
    (adapter_all_empty (adapter_init bs) \<longleftrightarrow> 2 ^ 64 dvd sum_list (map (unat \<circ> buf_size) (take 16 bs))) \<and>
    (all_empty bs \<longleftrightarrow> (\<forall>b \<in> set (take 16 bs). buf_size b = 0)) \<and>
    (sum_list (map (unat \<circ> buf_size) (take 16 bs)) < 2 ^ 64 \<longrightarrow>
       (adapter_all_empty (adapter_init bs) \<longleftrightarrow> all_empty bs)) \<and>
    adapter_all_empty (adapter_init [\<lparr>buf_data = p, buf_size = 2 ^ 63\<rparr>, \<lparr>buf_data = q, buf_size = 2 ^ 63\<rparr>]) \<and>
    \<not> all_empty [\<lparr>buf_data = p, buf_size = 2 ^ 63\<rparr>, \<lparr>buf_data = q, buf_size = 2 ^ 63\<rparr>]"
proof -
  have max: "max_buffers = 16" by (simp add: max_buffers_def max_iov_len_def)
  have eq: "adapter_init bs = \<lparr>ad_buffers = map init_native_buffer (take 16 bs), ad_count = min 16 (length bs),
      ad_total = sum_list (map buf_size (take 16 bs))\<rparr>" for bs
    by (simp add: adapter_init_def adapter_loop_eq max Let_def min.commute)
  have total: "adapter_all_empty (adapter_init bs) \<longleftrightarrow> 2 ^ 64 dvd sum_list (map (unat \<circ> buf_size) (take 16 bs))"
    using sizes_wrap [of "take 16 bs"] by (simp add: eq adapter_all_empty_def unat_eq_zero [symmetric] dvd_eq_mod_eq_0)
  have each: "all_empty bs \<longleftrightarrow> (\<forall>b \<in> set (take 16 bs). buf_size b = 0)" for bs
    by (simp add: all_empty_def all_empty_from_eq max)
  have "adapter_all_empty (adapter_init bs) \<longleftrightarrow> all_empty bs"
    if "sum_list (map (unat \<circ> buf_size) (take 16 bs)) < 2 ^ 64"
  proof -
    have "sum_list (map buf_size (take 16 bs)) = 0 \<longleftrightarrow> sum_list (map (unat \<circ> buf_size) (take 16 bs)) = 0"
      using sizes_no_wrap [OF that] by (metis unat_eq_zero)
    then show ?thesis
      by (simp add: eq adapter_all_empty_def each sum_list_nonneg_eq_0_iff unat_eq_zero)
  qed
  with total each [of bs] show ?thesis
    by (simp only: eq simp_thms) (simp add: adapter_all_empty_def each eq)
qed

theorem adapter_takes_sixteen_witness:
  "adapter_all_empty (adapter_init (replicate 16 buf_default @ [\<lparr>buf_data = 1, buf_size = 5\<rparr>])) \<and>
   all_empty (replicate 16 buf_default @ [\<lparr>buf_data = 1, buf_size = 5\<rparr>])"
  using adapter_takes_sixteen [of "replicate 16 buf_default @ [\<lparr>buf_data = 1, buf_size = 5\<rparr>]" 0 0]
  by (auto simp: buf_default_def sum_list_replicate)

end
