(* ===== verification/Executors.thy ===== *)
theory Executors
  imports Scheduler Thread_Memory
begin

text \<open>
  \<^verbatim>\<open>executor_work_guard.hpp\<close>, \<^verbatim>\<open>work_dispatcher.hpp\<close>, \<^verbatim>\<open>executor_op.hpp\<close>, \<^verbatim>\<open>post.hpp\<close>, the executors of
  \<^verbatim>\<open>io_context.hpp\<close> and \<^verbatim>\<open>system_executor.hpp\<close>, \<^verbatim>\<open>global.hpp\<close>, \<^verbatim>\<open>system_context.cpp\<close> and
  \<^verbatim>\<open>thread_group.hpp\<close>: how handlers reach a scheduler and how outstanding work is counted for them.
  Constructors, copies, moves and destructors are explicit, in the order the language runs them.
\<close>

subsection \<open>Executors as counters of work\<close>

text \<open>
  What the guard relies on: \<open>on_work_started\<close> and \<open>on_work_finished\<close> move the executor's count of
  work by the same amount, one for the executor of an \<open>io_context\<close>, none for the system's.
\<close>

locale work_counter =
  fixes started :: "'w \<Rightarrow> 'w" and finished :: "'w \<Rightarrow> 'w" and work :: "'w \<Rightarrow> size_t" and unit :: size_t
  assumes work_started_unit: "work (started w) = work w + unit"
    and work_finished_unit: "work (finished w) = work w - unit"

text \<open>The guard's own member, beside its executor.\<close>

record work_guard =
  gd_owns :: bool

definition guard_ctor :: "('w \<Rightarrow> 'w) \<Rightarrow> 'w \<Rightarrow> work_guard \<times> 'w" where
  "guard_ctor started w = (\<lparr>gd_owns = True\<rparr>, started w)"

definition guard_copy :: "('w \<Rightarrow> 'w) \<Rightarrow> work_guard \<Rightarrow> 'w \<Rightarrow> work_guard \<times> 'w" where
  "guard_copy started other w = (\<lparr>gd_owns = gd_owns other\<rparr>, if gd_owns other then started w else w)"

text \<open>The new guard and the guard moved from.\<close>

definition guard_move :: "work_guard \<Rightarrow> work_guard \<times> work_guard" where
  "guard_move other = (\<lparr>gd_owns = gd_owns other\<rparr>, other\<lparr>gd_owns := False\<rparr>)"

definition guard_dtor :: "('w \<Rightarrow> 'w) \<Rightarrow> work_guard \<Rightarrow> 'w \<Rightarrow> 'w" where
  "guard_dtor finished g w = (if gd_owns g then finished w else w)"

text \<open>\<open>reset\<close> leaves \<open>owns_\<close> as it is.\<close>

definition guard_reset :: "('w \<Rightarrow> 'w) \<Rightarrow> work_guard \<Rightarrow> 'w \<Rightarrow> work_guard \<times> 'w" where
  "guard_reset finished g w = (g, if gd_owns g then finished w else w)"

lemmas guard_defs [op_defs] = guard_ctor_def guard_copy_def guard_move_def guard_dtor_def guard_reset_def

subsection \<open>Dispatchers and operations\<close>

text \<open>A \<open>work_dispatcher\<close>: a guard on the handler's executor and the handler. Both its copy and its
  move constructor copy the guard.\<close>

record dispatcher =
  wd_work :: work_guard
  wd_handler :: nat

definition wd_ctor :: "('w \<Rightarrow> 'w) \<Rightarrow> nat \<Rightarrow> 'w \<Rightarrow> dispatcher \<times> 'w" where
  "wd_ctor started handler w =
     (let (g, w') = guard_ctor started w in (\<lparr>wd_work = g, wd_handler = handler\<rparr>, w'))"

definition wd_copy :: "('w \<Rightarrow> 'w) \<Rightarrow> dispatcher \<Rightarrow> 'w \<Rightarrow> dispatcher \<times> 'w" where
  "wd_copy started other w =
     (let (g, w') = guard_copy started (wd_work other) w in (\<lparr>wd_work = g, wd_handler = wd_handler other\<rparr>, w'))"

definition wd_dtor :: "('w \<Rightarrow> 'w) \<Rightarrow> dispatcher \<Rightarrow> 'w \<Rightarrow> 'w" where
  "wd_dtor finished d w = guard_dtor finished (wd_work d) w"

text \<open>\<open>operator()\<close>: dispatch the handler, then \<open>work_.reset()\<close>.\<close>

definition wd_call :: "(nat \<Rightarrow> 'w \<Rightarrow> 'w) \<Rightarrow> ('w \<Rightarrow> 'w) \<Rightarrow> dispatcher \<Rightarrow> 'w \<Rightarrow> dispatcher \<times> 'w" where
  "wd_call dispatch finished d w =
     (let (g, w') = guard_reset finished (wd_work d) (dispatch (wd_handler d) w)
      in (d\<lparr>wd_work := g\<rparr>, w'))"

text \<open>
  \<open>executor_op::do_complete\<close> for a function object with the given copy constructor, destructor and
  call: copy the handler, destroy the operation (its handler with it) and free its memory, call
  the copy if there is an owner, destroy the copy.
\<close>

definition op_do_complete ::
    "('f \<Rightarrow> 'w \<Rightarrow> 'f \<times> 'w) \<Rightarrow> ('f \<Rightarrow> 'w \<Rightarrow> 'w) \<Rightarrow> ('f \<Rightarrow> 'w \<Rightarrow> 'f \<times> 'w) \<Rightarrow> bool \<Rightarrow> 'f \<Rightarrow> 'w \<Rightarrow> 'w" where
  "op_do_complete copy destroy call owner func w =
     (let (copy_handler, w1) = copy func w;
          w2 = destroy func w1;
          (h, w3) = (if owner then call copy_handler w2 else (copy_handler, w2))
      in destroy h w3)"

text \<open>
  \<open>post(ctx, token)\<close>: the dispatcher is a temporary that the operation copies; it is destroyed when
  \<open>post\<close> of the executor has returned. The second component is the operation's own function object.
\<close>

definition post_dispatcher :: "('w \<Rightarrow> 'w) \<Rightarrow> ('w \<Rightarrow> 'w) \<Rightarrow> ('w \<Rightarrow> 'w) \<Rightarrow> nat \<Rightarrow> 'w \<Rightarrow> dispatcher \<times> 'w" where
  "post_dispatcher started finished enqueue handler w =
     (let (temp, w1) = wd_ctor started handler w;
          (func, w2) = wd_copy started temp w1;
          w3 = enqueue w2
      in (func, wd_dtor finished temp w3))"

subsection \<open>The executor of an io_context\<close>

text \<open>
  \<open>dispatch\<close>, \<open>post\<close> and \<open>defer\<close>, on the scheduler, the calling thread and the memory of operations.
  \<open>run\<close> calls the function object; \<open>op\<close> names the operation. The local \<open>ptr\<close> owns the memory until
  the scheduler has the operation; the last component is the memory the operation lives in (None
  when the function object ran at once).
\<close>

type_synonym 'm exec_state = "scheduler \<times> thread_stack \<times> 'm"

definition exec_hand_over ::
    "('m \<Rightarrow> pointer \<times> 'm) \<Rightarrow> (pointer \<Rightarrow> 'm \<Rightarrow> fault + 'm) \<Rightarrow> nat \<Rightarrow> nat \<Rightarrow> bool \<Rightarrow> 'm exec_state \<Rightarrow>
     fault + 'm exec_state \<times> pointer option" where
  "exec_hand_over alloc dealloc self op is_continuation st =
     (case st of (s, stk, m) \<Rightarrow>
        (let (v, m1) = alloc m;
             p = \<lparr>ptr_v = Some v, ptr_p = None\<rparr>;
             p1 = p\<lparr>ptr_p := Some v\<rparr>;
             (s', stk') = post_immediate_completion self (Executor_Op op) is_continuation s stk;
             p2 = p1\<lparr>ptr_v := None, ptr_p := None\<rparr>
         in case ptr_reset dealloc p2 m1 of
              Inl e \<Rightarrow> Inl e
            | Inr (_, destroyed, m2) \<Rightarrow> Inr ((s', stk', m2), Some v)))"

definition exec_dispatch ::
    "('m \<Rightarrow> pointer \<times> 'm) \<Rightarrow> (pointer \<Rightarrow> 'm \<Rightarrow> fault + 'm) \<Rightarrow> ('m exec_state \<Rightarrow> 'm exec_state) \<Rightarrow> nat \<Rightarrow> nat \<Rightarrow>
     'm exec_state \<Rightarrow> fault + 'm exec_state \<times> pointer option" where
  "exec_dispatch alloc dealloc run self op st =
     (case st of (s, stk, m) \<Rightarrow>
        if can_dispatch self stk then Inr (run st, None)
        else exec_hand_over alloc dealloc self op False st)"

definition exec_post ::
    "('m \<Rightarrow> pointer \<times> 'm) \<Rightarrow> (pointer \<Rightarrow> 'm \<Rightarrow> fault + 'm) \<Rightarrow> nat \<Rightarrow> nat \<Rightarrow> 'm exec_state \<Rightarrow>
     fault + 'm exec_state \<times> pointer option" where
  "exec_post alloc dealloc self op st = exec_hand_over alloc dealloc self op False st"

definition exec_defer ::
    "('m \<Rightarrow> pointer \<times> 'm) \<Rightarrow> (pointer \<Rightarrow> 'm \<Rightarrow> fault + 'm) \<Rightarrow> nat \<Rightarrow> nat \<Rightarrow> 'm exec_state \<Rightarrow>
     fault + 'm exec_state \<times> pointer option" where
  "exec_defer alloc dealloc self op st = exec_hand_over alloc dealloc self op True st"

text \<open>What completing or destroying an operation does to its memory: \<open>p.reset()\<close> of \<open>do_complete\<close>.\<close>

definition op_free :: "(pointer \<Rightarrow> 'm \<Rightarrow> fault + 'm) \<Rightarrow> pointer \<Rightarrow> 'm \<Rightarrow> fault + op_ptr \<times> nat \<times> 'm" where
  "op_free dealloc o_ptr m = ptr_reset dealloc \<lparr>ptr_v = Some o_ptr, ptr_p = Some o_ptr\<rparr> m"

subsection \<open>The system's executor and its context\<close>

text \<open>\<open>dispatch\<close> of the system's executor moves the function into a local and calls it.\<close>

definition sys_dispatch :: "(nat \<Rightarrow> 'w \<Rightarrow> 'w) \<Rightarrow> nat \<Rightarrow> 'w \<Rightarrow> 'w" where
  "sys_dispatch run func w = run func w"

text \<open>\<open>global<T>()\<close>: the instance, built on the first call.\<close>

definition global_get :: "('w \<Rightarrow> 't \<times> 'w) \<Rightarrow> 't option \<Rightarrow> 'w \<Rightarrow> 't \<times> 't option \<times> 'w" where
  "global_get construct instance_ptr w =
     (case instance_ptr of
        Some p \<Rightarrow> (p, instance_ptr, w)
      | None \<Rightarrow> (case construct w of (p, w') \<Rightarrow> (p, Some p, w')))"

text \<open>A thread group, each thread by whether it is joinable.\<close>

definition create_threads :: "int \<Rightarrow> bool list \<Rightarrow> bool list" where
  "create_threads num_threads threads = threads @ replicate (nat num_threads) True"

text \<open>\<open>join\<close> tests each thread and, when it is joinable, tests it again.\<close>

definition threads_join :: "bool list \<Rightarrow> bool list" where
  "threads_join threads = map (\<lambda>joinable. if joinable then joinable else joinable) threads"

text \<open>The destructor: \<open>join()\<close>, then the vector destroys the threads; destroying a joinable thread
  calls \<open>std::terminate\<close>.\<close>

definition thread_group_dtor :: "bool list \<Rightarrow> fault + unit" where
  "thread_group_dtor threads = (if True \<in> set (threads_join threads) then Inl Terminated else Inr ())"

text \<open>\<open>system_context\<close>: scheduler and threads.\<close>

record system_context =
  sc_scheduler :: scheduler
  sc_threads :: "bool list"

text \<open>\<open>scheduler_\<close> is what \<open>use_service\<close> builds, with the default hint 1, in memory \<open>raw\<close>.\<close>

definition system_context_ctor :: "scheduler \<Rightarrow> nat \<Rightarrow> system_context" where
  "system_context_ctor raw hardware_concurrency =
     (let s = work_started (scheduler_ctor raw 1);
          num_threads = int hardware_concurrency * 2
      in \<lparr>sc_scheduler = s, sc_threads = create_threads (if num_threads \<noteq> 0 then num_threads else 2) []\<rparr>)"

definition system_context_join :: "system_context \<Rightarrow> system_context" where
  "system_context_join c =
     c\<lparr>sc_scheduler := work_finished (sc_scheduler c), sc_threads := threads_join (sc_threads c)\<rparr>"

definition system_context_stop :: "system_context \<Rightarrow> system_context" where
  "system_context_stop c = c\<lparr>sc_scheduler := sch_stop (sc_scheduler c)\<rparr>"

definition system_context_stopped :: "system_context \<Rightarrow> bool" where
  "system_context_stopped c = sch_is_stopped (sc_scheduler c)"

text \<open>The body of the destructor, and then the destructor of \<open>threads_\<close>.\<close>

definition system_context_dtor :: "system_context \<Rightarrow> fault + scheduler" where
  "system_context_dtor c =
     (let s = sch_stop (work_finished (sc_scheduler c));
          ts = threads_join (sc_threads c)
      in case thread_group_dtor ts of Inl e \<Rightarrow> Inl e | Inr _ \<Rightarrow> Inr s)"

end
