(* ===== verification/Executor_Properties.thy ===== *)
theory Executor_Properties
  imports Executors
begin

text \<open>
  What the guards, dispatchers and executors do to the count of outstanding work and to the memory
  of operations.
\<close>

subsection \<open>Guards that come and go\<close>

text \<open>
  What a program does with guards of one executor: it makes one, copies one, moves one, resets one or
  lets one go out of scope. The guards that exist are in a list; an index beyond it does nothing.
\<close>

datatype guard_event = Make | Copy nat | Move nat | Reset nat | Destroy nat

definition without :: "nat \<Rightarrow> 'a list \<Rightarrow> 'a list" where
  "without i xs = take i xs @ drop (Suc i) xs"

fun guard_step :: "('w \<Rightarrow> 'w) \<Rightarrow> ('w \<Rightarrow> 'w) \<Rightarrow> guard_event \<Rightarrow> work_guard list \<times> 'w \<Rightarrow> work_guard list \<times> 'w" where
  "guard_step started finished Make (gs, w) = (let (g, w1) = guard_ctor started w in (gs @ [g], w1))"
| "guard_step started finished (Copy i) (gs, w) =
     (if i < length gs then let (g, w1) = guard_copy started (gs ! i) w in (gs @ [g], w1) else (gs, w))"
| "guard_step started finished (Move i) (gs, w) =
     (if i < length gs then let (g, other) = guard_move (gs ! i) in (gs[i := other] @ [g], w) else (gs, w))"
| "guard_step started finished (Reset i) (gs, w) =
     (if i < length gs then let (g, w1) = guard_reset finished (gs ! i) w in (gs[i := g], w1) else (gs, w))"
| "guard_step started finished (Destroy i) (gs, w) =
     (if i < length gs then (without i gs, guard_dtor finished (gs ! i) w) else (gs, w))"

text \<open>Which of them own work, and how often one that owns work was reset.\<close>

fun owners_step :: "guard_event \<Rightarrow> bool list \<Rightarrow> bool list" where
  "owners_step Make bs = bs @ [True]"
| "owners_step (Copy i) bs = (if i < length bs then bs @ [bs ! i] else bs)"
| "owners_step (Move i) bs = (if i < length bs then bs[i := False] @ [bs ! i] else bs)"
| "owners_step (Reset i) bs = bs"
| "owners_step (Destroy i) bs = (if i < length bs then without i bs else bs)"

fun resets :: "guard_event list \<Rightarrow> bool list \<Rightarrow> nat" where
  "resets [] bs = 0"
| "resets (e # evs) bs =
     (case e of Reset i \<Rightarrow> of_bool (i < length bs \<and> bs ! i) | _ \<Rightarrow> 0) + resets evs (owners_step e bs)"

lemma without_map: "map f (without i xs) = without i (map f xs)"
  by (simp add: without_def take_map drop_map)

lemma count_without:
  "i < length bs \<Longrightarrow> count_list (without i bs) True + of_bool (bs ! i) = count_list bs True"
  by (subst (3) id_take_nth_drop, assumption) (simp add: without_def)

lemma count_moved:
  "i < length bs \<Longrightarrow> count_list (bs[i := False]) True + of_bool (bs ! i) = count_list bs True"
  by (subst (3) id_take_nth_drop, assumption) (simp add: upd_conv_take_nth_drop)

subsection \<open>Counting\<close>

context work_counter
begin

lemma ctor_work: "guard_ctor started w = (g, w') \<Longrightarrow> gd_owns g \<and> work w' = work w + unit"
  by (auto simp: guard_ctor_def work_started_unit)

lemma copies_work:
  "work (((\<lambda>w. snd (guard_copy started g w)) ^^ n) w) = work w + (if gd_owns g then of_nat n * unit else 0)"
  by (induction n) (auto simp: guard_copy_def work_started_unit algebra_simps)

lemma dtors_work:
  "work (((guard_dtor finished g) ^^ n) w) = work w - (if gd_owns g then of_nat n * unit else 0)"
  by (induction n) (auto simp: guard_dtor_def work_finished_unit algebra_simps)

text \<open>A guard, its copies, and the destruction of all of them.\<close>

lemma guards_balance:
  assumes "guard_ctor started w = (g, w1)"
  shows "work (((guard_dtor finished g) ^^ Suc n) (((\<lambda>w. snd (guard_copy started g w)) ^^ n) w1)) = work w"
  using ctor_work [OF assms] by (simp only: dtors_work copies_work) (simp add: algebra_simps)

lemma reset_then_dtor:
  assumes "guard_ctor started w = (g, w1)" "guard_reset finished g w1 = (g', w2)"
  shows "work (guard_dtor finished g' w2) = work w - unit"
  using assms by (auto simp: guard_defs work_started_unit work_finished_unit)

lemma guard_step_owners:
  assumes "guard_step started finished e (gs, w) = (gs', w')"
  shows "map gd_owns gs' = owners_step e (map gd_owns gs)"
    and "work w' + of_nat (count_list (map gd_owns gs) True + resets [e] (map gd_owns gs)) * unit =
      work w + of_nat (count_list (map gd_owns gs') True) * unit"
proof -
  have "map gd_owns gs' = owners_step e (map gd_owns gs) \<and>
    work w' + of_nat (count_list (map gd_owns gs) True + resets [e] (map gd_owns gs)) * unit =
      work w + of_nat (count_list (map gd_owns gs') True) * unit"
  proof (cases e)
    case (Move i)
    with assms count_moved [symmetric, of i "map gd_owns gs"] show ?thesis
      by (cases "i < length gs") (auto simp: guard_move_def map_update algebra_simps)
  next
    case (Destroy i)
    with assms count_without [symmetric, of i "map gd_owns gs"] show ?thesis
      by (cases "i < length gs")
        (auto simp: guard_dtor_def without_map work_finished_unit algebra_simps)
  qed (use assms in \<open>auto simp: guard_ctor_def guard_copy_def guard_reset_def work_started_unit work_finished_unit
    algebra_simps split: if_splits\<close>)
  then show "map gd_owns gs' = owners_step e (map gd_owns gs)"
    "work w' + of_nat (count_list (map gd_owns gs) True + resets [e] (map gd_owns gs)) * unit =
      work w + of_nat (count_list (map gd_owns gs') True) * unit" by simp_all
qed

lemma chain_counts:
  fixes x :: size_t
  assumes "x1 + (a + r1) * u = x + a1 * u" "x' + (a1 + rs) * u = x1 + a' * u"
  shows "x' + (a + (r1 + rs)) * u = x + a' * u"
proof -
  have "x1 = x + a1 * u - (a + r1) * u" "x' = x1 + a' * u - (a1 + rs) * u"
    using assms by (metis add_diff_cancel_right')+
  then show ?thesis by (simp only:) (simp add: algebra_simps)
qed

lemma guards_run:
  "fold (guard_step started finished) evs (gs, w) = (gs', w') \<Longrightarrow>
   map gd_owns gs' = fold owners_step evs (map gd_owns gs) \<and>
   work w' + of_nat (count_list (map gd_owns gs) True + resets evs (map gd_owns gs)) * unit =
     work w + of_nat (count_list (map gd_owns gs') True) * unit"
proof (induction evs arbitrary: gs w)
  case (Cons e evs)
  obtain gs1 w1 where step: "guard_step started finished e (gs, w) = (gs1, w1)" by force
  note one = guard_step_owners [OF step]
  have "work w' + of_nat (count_list (map gd_owns gs1) True + resets evs (map gd_owns gs1)) * unit =
      work w1 + of_nat (count_list (map gd_owns gs') True) * unit"
    and "map gd_owns gs' = fold owners_step evs (map gd_owns gs1)"
    using Cons.IH [of gs1 w1] Cons.prems step by simp_all
  with chain_counts [OF one(2) [unfolded of_nat_add]] one(1) show ?case by simp
qed simp

lemma post_work:
  assumes "post_dispatcher started finished enqueue h w = (func, w1)"
    and "\<And>w. work (enqueue w) = work w + unit"
  shows "gd_owns (wd_work func) \<and> wd_handler func = h \<and> work w1 = work w + 2 * unit"
  using assms
  by (auto simp: post_dispatcher_def wd_ctor_def wd_copy_def wd_dtor_def guard_defs work_started_unit
      work_finished_unit)

lemma complete_work:
  assumes "gd_owns (wd_work func)" "\<And>h w. work (dispatch h w) = work w"
  shows "work (op_do_complete (wd_copy started) (wd_dtor finished) (wd_call dispatch finished) owner func w) =
    work w - (if owner then 2 * unit else unit)"
  using assms
  by (auto simp: op_do_complete_def wd_copy_def wd_dtor_def wd_call_def guard_defs work_started_unit
      work_finished_unit)

end

lemma work_finished_count: "sch_outstanding_work (work_finished s) = sch_outstanding_work s - 1"
  by (simp add: work_finished_def decrement_work_def Let_def frame_simps)

interpretation ioc: work_counter work_started work_finished sch_outstanding_work 1
  by unfold_locales (simp_all only: work_finished_count, simp add: work_started_def)

text \<open>The system's executor counts nothing.\<close>

interpretation sys: work_counter "\<lambda>w. w" "\<lambda>w. w" sch_outstanding_work 0
  by unfold_locales simp_all

lemma demo_count: "sch_outstanding_work (s\<lparr>sch_outstanding_work := n\<rparr>) = n"
  by simp

text \<open>C30. The work that guards on an \<open>io_context\<close> hold. Whatever a program makes, copies, moves, resets
  and destroys, in any order: a copy owns work as its original does, a move takes the work along, and
  the count of outstanding work is what it was and one for each guard that owns work, less one for
  every time such a guard was \<open>reset\<close>, because it gives its work back again when it is destroyed. So
  when all are destroyed and none was reset the count is what it was; one reset leaves it one too
  low, \<open>2 ^ 64 - 1\<close> when it was 0.\<close>

theorem guard_counts_work:
  assumes "fold (guard_step work_started work_finished) evs ([], s) = (gs, s')"
  shows "map gd_owns gs = fold owners_step evs [] \<and>
    sch_outstanding_work s' + of_nat (resets evs []) =
      sch_outstanding_work s + of_nat (count_list (map gd_owns gs) True)"
  using ioc.guards_run [OF assms] by simp

definition demo_idle_sched :: scheduler where
  "demo_idle_sched = \<lparr>sch_one_thread = False, sch_wakeup_event = \<lparr>ev_state = 0\<rparr>, sch_task = None,
     sch_task_interrupted = False, sch_outstanding_work = 0, sch_op_queue = [], sch_stopped = False,
     sch_shutdown = False, sch_concurrency_hint = 0, sch_effects = []\<rparr>"

theorem guard_counts_work_witness:
  "\<exists>s'. fold (guard_step work_started work_finished) [Make, Copy 0, Move 1, Destroy 0, Destroy 0, Reset 0, Destroy 0]
      ([], demo_idle_sched) = ([], s') \<and> sch_outstanding_work s' = -1"
proof -
  let ?evs = "[Make, Copy 0, Move 1, Destroy 0, Destroy 0, Reset 0, Destroy 0]"
  obtain gs s' where run: "fold (guard_step work_started work_finished) ?evs ([], demo_idle_sched) = (gs, s')"
    by (metis surj_pair)
  note owned = guard_counts_work [OF run]
  from owned have "gs = []" by (simp add: without_def)
  with owned have "sch_outstanding_work s' + 1 = 0" by (simp add: without_def demo_idle_sched_def)
  then have "sch_outstanding_work s' = -1" by (simp add: eq_neg_iff_add_eq_0)
  with run \<open>gs = []\<close> show ?thesis by blast
qed

text \<open>A handler whose executor is that of the \<open>io_context\<close>, posted through \<open>post\<close> and completed
  with its work finished by the scheduler, leaves the count of outstanding work one lower than it
  was, because its dispatcher finishes its work by \<open>reset\<close> and again when it is destroyed. A
  handler that is destroyed without being called, or whose executor is the system's, leaves the
  count right.\<close>

theorem posted_handler_finishes_twice:
  assumes "post_dispatcher work_started work_finished (do_dispatch (Executor_Op op)) h s = (func, s1)"
    and "\<And>h s. sch_outstanding_work (dispatch h s) = sch_outstanding_work s"
    and "post_dispatcher (\<lambda>s. s) (\<lambda>s. s) (do_dispatch (Executor_Op op)) h s = (func', s1')"
  shows "sch_outstanding_work (work_finished (op_do_complete (wd_copy work_started) (wd_dtor work_finished)
      (wd_call dispatch work_finished) True func s1)) = sch_outstanding_work s - 1 \<and>
    sch_outstanding_work (work_finished (op_do_complete (wd_copy work_started) (wd_dtor work_finished)
      (wd_call dispatch work_finished) False func s1)) = sch_outstanding_work s \<and>
    sch_outstanding_work (work_finished (op_do_complete (wd_copy (\<lambda>s. s)) (wd_dtor (\<lambda>s. s))
      (wd_call dispatch (\<lambda>s. s)) True func' s1')) = sch_outstanding_work s"
proof -
  have enqueue: "sch_outstanding_work (do_dispatch (Executor_Op op) s) = sch_outstanding_work s + 1" for s
    by (simp add: do_dispatch_def frame_simps push_op_def work_started_def)
  note post = ioc.post_work [OF assms(1) enqueue]
  have "gd_owns (wd_work func') \<and> sch_outstanding_work s1' = sch_outstanding_work s + 1"
    using assms(3) enqueue
    by (auto simp: post_dispatcher_def wd_ctor_def wd_copy_def wd_dtor_def guard_defs)
  with post ioc.complete_work [of func dispatch, OF _ assms(2)] sys.complete_work [of func' dispatch, OF _ assms(2)]
  show ?thesis by (simp add: work_finished_count)
qed

theorem posted_handler_finishes_twice_witness:
  "\<exists>func s1. post_dispatcher work_started work_finished (do_dispatch (Executor_Op 1)) 5 demo_idle_sched = (func, s1) \<and>
     sch_outstanding_work (work_finished (op_do_complete (wd_copy work_started) (wd_dtor work_finished)
       (wd_call (\<lambda>h s. s) work_finished) True func s1)) = -1"
proof -
  obtain func s1 where 1: "post_dispatcher work_started work_finished (do_dispatch (Executor_Op 1)) 5 demo_idle_sched = (func, s1)"
    by (metis surj_pair)
  obtain func' s1' where 2: "post_dispatcher (\<lambda>s. s) (\<lambda>s. s) (do_dispatch (Executor_Op 1)) 5 demo_idle_sched = (func', s1')"
    by (metis surj_pair)
  from posted_handler_finishes_twice [OF 1 _ 2, of "\<lambda>h s. s"] 1 show ?thesis
    by (auto simp: demo_idle_sched_def)
qed

subsection \<open>Running and queueing\<close>

lemma hand_over_eq:
  "exec_hand_over alloc dealloc self op c (s, stk, m) =
     (let (v, m1) = alloc m; (s', stk') = post_immediate_completion self (Executor_Op op) c s stk
      in Inr ((s', stk', m1), Some v))"
  by (simp add: exec_hand_over_def ptr_reset_def split: prod.splits)

text \<open>\<open>dispatch\<close> from inside \<open>run\<close> calls the function at once on the caller's thread and touches
  neither queue nor memory; from anywhere else it does what \<open>post\<close> does: it takes memory for one
  operation, queues it once at the end of the scheduler's queue and counts it, and runs nothing.
  \<open>defer\<close> differs from \<open>post\<close> only inside \<open>run\<close>, where the operation goes to the thread's own
  queue.\<close>

theorem dispatch_runs_inside_posts_outside:
  assumes "alloc m = (v, m1)"
  shows "(can_dispatch self stk \<longrightarrow> exec_dispatch alloc dealloc run self op (s, stk, m) = Inr (run (s, stk, m), None)) \<and>
    (\<not> can_dispatch self stk \<longrightarrow>
      exec_dispatch alloc dealloc run self op (s, stk, m) = exec_post alloc dealloc self op (s, stk, m) \<and>
      exec_defer alloc dealloc self op (s, stk, m) = exec_post alloc dealloc self op (s, stk, m) \<and>
      (\<exists>s'. exec_post alloc dealloc self op (s, stk, m) = Inr ((s', stk, m1), Some v) \<and>
        sch_op_queue s' = sch_op_queue s @ [Executor_Op op] \<and>
        sch_outstanding_work s' = sch_outstanding_work s + 1)) \<and>
    (can_dispatch self stk \<longrightarrow>
      (\<exists>stk'. exec_defer alloc dealloc self op (s, stk, m) = Inr ((s, stk', m1), Some v)))"
  using assms
  by (auto simp: exec_dispatch_def exec_post_def exec_defer_def hand_over_eq can_dispatch_def
      post_immediate_completion_def push_op_def oq_push_def work_started_def frame_simps Let_def
      split: option.splits)

theorem dispatch_runs_inside_posts_outside_witness:
  "exec_dispatch operator_new operator_delete (\<lambda>st. st) 0 9
      (demo_idle_sched, [(0, \<lparr>private_op_queue = [], private_outstanding_work = 0\<rparr>)],
       \<lparr>in_use = (\<lambda>_. False), live = [], fresh = 4\<rparr>) =
     Inr ((demo_idle_sched, [(0, \<lparr>private_op_queue = [], private_outstanding_work = 0\<rparr>)],
       \<lparr>in_use = (\<lambda>_. False), live = [], fresh = 4\<rparr>), None) \<and>
   (\<exists>s'. exec_dispatch operator_new operator_delete (\<lambda>st. st) 0 9
      (demo_idle_sched, [], \<lparr>in_use = (\<lambda>_. False), live = [], fresh = 4\<rparr>) =
     Inr ((s', [], \<lparr>in_use = (\<lambda>_. False), live = [4], fresh = 5\<rparr>), Some (Heap 4)) \<and>
     sch_op_queue s' = [Executor_Op 9])"
proof -
  let ?m = "\<lparr>in_use = (\<lambda>_. False), live = [], fresh = 4\<rparr>"
  have "operator_new ?m = (Heap 4, \<lparr>in_use = (\<lambda>_. False), live = [4], fresh = 5\<rparr>)" by (simp add: operator_new_def)
  note dispatch = dispatch_runs_inside_posts_outside [where alloc = operator_new and m = ?m, OF this, of 0 _ operator_delete "\<lambda>st. st" 9 demo_idle_sched]
  show ?thesis
    using dispatch [of "[(0, \<lparr>private_op_queue = [], private_outstanding_work = 0\<rparr>)]"] dispatch [of "[]"]
    by (auto simp: can_dispatch_def demo_idle_sched_def)
qed

subsection \<open>Memory\<close>

text \<open>The memory of an operation: posting takes memory nobody has, and completing (or destroying)
  the operation on the same thread destroys it once and gives back exactly that memory. If the
  memory was the thread's recycled slot and the operation is completed on a thread whose innermost
  context is another, or which has none, the slot is handed to \<open>operator delete\<close>, which is
  undefined.\<close>

theorem operation_memory_freed_once:
  assumes "mem_inv m"
    and "exec_post (tib_allocate this_thread sz) (\<lambda>p. tib_deallocate this_thread p sz) self op (s, stk, m) =
      Inr ((s', stk', m'), Some v)"
  shows "\<not> handed_out m v \<and> handed_out m' v \<and>
    (\<exists>p m''. op_free (\<lambda>p. tib_deallocate this_thread p sz) v m' = Inr (p, 1, m'') \<and>
      p = \<lparr>ptr_v = None, ptr_p = None\<rparr> \<and> (\<forall>q. handed_out m'' q \<longleftrightarrow> handed_out m q)) \<and>
    (\<forall>t other. v = Storage t \<and> other \<noteq> Some t \<longrightarrow>
      op_free (\<lambda>p. tib_deallocate other p sz) v m' = Inl Undefined_Behaviour)"
proof -
  obtain s1 stk1 where post: "post_immediate_completion self (Executor_Op op) False s stk = (s1, stk1)" by force
  have al: "tib_allocate this_thread sz m = (v, m')"
    using assms(2) post by (auto simp: exec_post_def hand_over_eq Let_def split: prod.splits)
  obtain m'' where "tib_deallocate this_thread v sz m' = Inr m''" "\<forall>q. handed_out m'' q \<longleftrightarrow> handed_out m q"
    using tib.alloc_dealloc [OF assms(1) al] by blast
  moreover have "tib_deallocate other v sz m' = Inl Undefined_Behaviour" if "v = Storage t" "other \<noteq> Some t" for t other
    using that by (auto simp: tib_deallocate_def split: option.split)
  ultimately show ?thesis
    using tib.alloc_fresh [OF assms(1) al] tib.alloc_out [OF assms(1) al]
    by (auto simp: op_free_def ptr_reset_def)
qed

theorem operation_memory_freed_once_witness:
  "\<exists>s' stk' m'. exec_post (tib_allocate (Some 7) 64) (\<lambda>p. tib_deallocate (Some 7) p 64) 0 1
      (demo_idle_sched, [], \<lparr>in_use = (\<lambda>_. False), live = [], fresh = 0\<rparr>) = Inr ((s', stk', m'), Some (Storage 7)) \<and>
    op_free (\<lambda>p. tib_deallocate (Some 8) p 64) (Storage 7) m' = Inl Undefined_Behaviour"
proof -
  let ?m = "\<lparr>in_use = (\<lambda>_. False), live = [], fresh = 0\<rparr>"
  have "mem_inv ?m" by (simp add: mem_inv_def)
  moreover obtain s' stk' where post: "post_immediate_completion 0 (Executor_Op 1) False demo_idle_sched [] = (s', stk')"
    by force
  moreover obtain m' where
    "exec_post (tib_allocate (Some 7) 64) (\<lambda>p. tib_deallocate (Some 7) p 64) 0 1 (demo_idle_sched, [], ?m) =
      Inr ((s', stk', m'), Some (Storage 7))"
    using post by (simp add: exec_post_def hand_over_eq tib_allocate_def storage_size_def)
  ultimately show ?thesis
    using operation_memory_freed_once [of ?m "Some 7" 64 0 1 demo_idle_sched "[]" s' stk' m' "Storage 7"] by auto
qed

subsection \<open>The system's context\<close>

text \<open>Destroying a system context always ends in \<open>std::terminate\<close>: its constructor starts at
  least two threads (on any machine) and \<open>join\<close>, called or not, joins none of them. \<open>join\<close> returns at
  once, having given back the context's work.\<close>

theorem system_context_cannot_be_destroyed:
  "system_context_dtor (system_context_ctor raw n) = Inl Terminated \<and>
   system_context_dtor (system_context_join (system_context_ctor raw n)) = Inl Terminated \<and>
   sc_threads (system_context_join (system_context_ctor raw n)) = sc_threads (system_context_ctor raw n) \<and>
   2 \<le> length (sc_threads (system_context_ctor raw n))"
proof -
  have join: "threads_join ts = ts" for ts by (simp add: threads_join_def)
  have "True \<in> set (sc_threads (system_context_ctor raw n))" "2 \<le> length (sc_threads (system_context_ctor raw n))"
    by (auto simp: system_context_ctor_def create_threads_def nat_mult_distrib Let_def)
  then show ?thesis
    by (simp add: system_context_dtor_def system_context_join_def thread_group_dtor_def join Let_def)
qed

end
