(* ===== verification/Interrupter.thy ===== *)
theory Interrupter
  imports Socket_Ops Reactor
begin

text \<open>
  \<^verbatim>\<open>select_interrupter.hpp\<close>, \<^verbatim>\<open>select_interrupter.cc\<close>, and the constructor, the destructor and
  \<open>interrupt\<close> of the reactor in \<^verbatim>\<open>epoll_reactor.cc\<close>: the two descriptors the reactor itself owns. The
  system calls are parameters as in Socket_Ops; what throws gives its fault and leaves the world as
  the unwinding left it.
\<close>

subsection \<open>The interrupter\<close>

record 'os fd_calls =
  fc_eventfd :: "('os, int) syscall"
  fc_close :: "int \<Rightarrow> ('os, int) syscall"
  fc_write :: "int \<Rightarrow> ('os, int) syscall"
  fc_read :: "int \<Rightarrow> ('os, int) syscall"
  fc_epoll_create :: "('os, int) syscall"
  fc_epoll_ctl :: "int \<Rightarrow> ctl \<Rightarrow> int \<Rightarrow> uint32 \<Rightarrow> ('os, int) syscall"

text \<open>\<open>open_descriptors\<close>, which is also the constructor; the value is the new \<open>fd_\<close>.\<close>

definition intr_open :: "'os fd_calls \<Rightarrow> 'os env \<Rightarrow> (fault + int) \<times> 'os env" where
  "intr_open fc env =
     (let (fd, env') = fc_eventfd fc env
      in (if fd < 0 then Inl (Throw_Error_Code (en_errno env')) else Inr fd, env'))"

text \<open>\<open>close_descriptors\<close>, which is also the destructor.\<close>

definition intr_close :: "'os fd_calls \<Rightarrow> int \<Rightarrow> 'os env \<Rightarrow> 'os env" where
  "intr_close fc fd env = (if fd \<noteq> -1 then snd (fc_close fc fd env) else env)"

definition intr_recreate :: "'os fd_calls \<Rightarrow> int \<Rightarrow> 'os env \<Rightarrow> (fault + int) \<times> 'os env" where
  "intr_recreate fc fd env = intr_open fc (intr_close fc fd env)"

definition intr_interrupt :: "'os fd_calls \<Rightarrow> int \<Rightarrow> 'os env \<Rightarrow> 'os env" where
  "intr_interrupt fc fd env = snd (fc_write fc fd env)"

text \<open>\<open>reset\<close> repeats a read that was interrupted. None: for ever.\<close>

partial_function (option) intr_reset :: "'os fd_calls \<Rightarrow> int \<Rightarrow> 'os env \<Rightarrow> (bool \<times> 'os env) option" where
  "intr_reset fc fd env =
     (case fc_read fc fd (clear_last_error env) of (result, env') \<Rightarrow>
        if result < 0 \<and> en_errno env' = make_error_code interrupted then intr_reset fc fd env'
        else Some (result > 0, env'))"

subsection \<open>The reactor's own descriptors\<close>

definition interrupter_events :: uint32 where
  "interrupter_events = EPOLLIN OR EPOLLERR OR EPOLLET"

definition do_epoll_create :: "'os fd_calls \<Rightarrow> 'os env \<Rightarrow> (fault + int) \<times> 'os env" where
  "do_epoll_create fc env =
     (let (fd, env') = fc_epoll_create fc env
      in (if fd < 0 then Inl (Throw_Error_Code (en_errno env')) else Inr fd, env'))"

text \<open>The members \<open>interrupter_\<close> and \<open>epoll_fd_\<close>.\<close>

record reactor_fds =
  rf_interrupter :: int
  rf_epoll :: int

text \<open>The constructor: members in order, the interrupter destroyed again if creating the epoll
  descriptor throws, then the body.\<close>

definition reactor_ctor :: "'os fd_calls \<Rightarrow> 'os env \<Rightarrow> (fault + reactor_fds) \<times> 'os env" where
  "reactor_ctor fc env =
     (case intr_open fc env of
        (Inl e, env1) \<Rightarrow> (Inl e, env1)
      | (Inr ifd, env1) \<Rightarrow>
          (case do_epoll_create fc env1 of
             (Inl e, env2) \<Rightarrow> (Inl e, intr_close fc ifd env2)
           | (Inr efd, env2) \<Rightarrow>
               (let env3 = snd (fc_epoll_ctl fc efd Ctl_Add ifd interrupter_events env2)
                in (Inr \<lparr>rf_interrupter = ifd, rf_epoll = efd\<rparr>, intr_interrupt fc ifd env3))))"

text \<open>The destructor's body, then the destructor of \<open>interrupter_\<close>.\<close>

definition reactor_dtor :: "'os fd_calls \<Rightarrow> reactor_fds \<Rightarrow> 'os env \<Rightarrow> 'os env" where
  "reactor_dtor fc r env =
     intr_close fc (rf_interrupter r) (if rf_epoll r \<noteq> -1 then snd (fc_close fc (rf_epoll r) env) else env)"

definition reactor_interrupt :: "'os fd_calls \<Rightarrow> reactor_fds \<Rightarrow> 'os env \<Rightarrow> 'os env" where
  "reactor_interrupt fc r env =
     snd (fc_epoll_ctl fc (rf_epoll r) Ctl_Mod (rf_interrupter r) interrupter_events env)"

text \<open>What the manual says of the calls, of the set of descriptors a process has open.\<close>

definition opens_one :: "('os \<Rightarrow> int set) \<Rightarrow> ('os, int) syscall \<Rightarrow> bool" where
  "opens_one opened call \<longleftrightarrow>
     (\<forall>env. if fst (call env) < 0 then opened (en_os (snd (call env))) = opened (en_os env)
        else fst (call env) \<notin> opened (en_os env) \<and>
          opened (en_os (snd (call env))) = insert (fst (call env)) (opened (en_os env)))"

definition fd_calls_ok :: "('os \<Rightarrow> int set) \<Rightarrow> 'os fd_calls \<Rightarrow> bool" where
  "fd_calls_ok opened fc \<longleftrightarrow>
     opens_one opened (fc_eventfd fc) \<and> opens_one opened (fc_epoll_create fc) \<and>
     (\<forall>fd env. opened (en_os (snd (fc_close fc fd env))) = opened (en_os env) - {fd}) \<and>
     (\<forall>fd env. opened (en_os (snd (fc_write fc fd env))) = opened (en_os env)) \<and>
     (\<forall>efd c fd ev env. opened (en_os (snd (fc_epoll_ctl fc efd c fd ev env))) = opened (en_os env))"

lemma opens_one_cases:
  assumes "opens_one opened call" "call env = (r, env')"
  shows "if r < 0 then opened (en_os env') = opened (en_os env)
    else r \<notin> opened (en_os env) \<and> opened (en_os env') = insert r (opened (en_os env))"
  using assms(1) [unfolded opens_one_def, THEN spec, of env] assms(2) by (simp split: if_splits)

lemma opened_simps:
  assumes "fd_calls_ok opened fc"
  shows "opened (en_os (intr_close fc fd env)) = (if fd = -1 then opened (en_os env) else opened (en_os env) - {fd})"
    "opened (en_os (snd (fc_close fc fd env))) = opened (en_os env) - {fd}"
    "opened (en_os (intr_interrupt fc fd env)) = opened (en_os env)"
    "opened (en_os (snd (fc_epoll_ctl fc efd c fd' ev env))) = opened (en_os env)"
  using assms by (auto simp: fd_calls_ok_def intr_close_def intr_interrupt_def)

text \<open>The reactor owns exactly two descriptors: its constructor opens them, or, when either
  cannot be had, throws with everything closed again; its destructor closes both, and interrupting
  it in between opens and closes nothing.\<close>

theorem reactor_descriptors_balanced:
  assumes ok: "fd_calls_ok opened fc" and "reactor_ctor fc env = (result, env')"
  shows "case result of
      Inl e \<Rightarrow> opened (en_os env') = opened (en_os env)
    | Inr r \<Rightarrow> opened (en_os env') = opened (en_os env) \<union> {rf_interrupter r, rf_epoll r} \<and>
        rf_interrupter r \<noteq> rf_epoll r \<and> {rf_interrupter r, rf_epoll r} \<inter> opened (en_os env) = {} \<and>
        opened (en_os (reactor_interrupt fc r env')) = opened (en_os env') \<and>
        opened (en_os (reactor_dtor fc r env')) = opened (en_os env)"
proof -
  obtain ifd env1 where 1: "fc_eventfd fc env = (ifd, env1)" by force
  obtain efd env2 where 2: "fc_epoll_create fc env1 = (efd, env2)" by force
  have made: "opens_one opened (fc_eventfd fc)" "opens_one opened (fc_epoll_create fc)"
    using ok by (auto simp: fd_calls_ok_def)
  show ?thesis
    using assms(2) 1 2 opens_one_cases [OF made(1) 1] opens_one_cases [OF made(2) 2]
    by (cases "ifd < 0"; cases "efd < 0")
      (auto simp: reactor_ctor_def intr_open_def do_epoll_create_def opened_simps [OF ok] Let_def
        reactor_interrupt_def reactor_dtor_def)
qed

text \<open>A system whose process may have two descriptors open, besides those it starts with.\<close>

definition demo_open :: "(int list, int) syscall" where
  "demo_open env =
     (let fds = en_os env; fd = 1 + foldr max fds 0
      in if length fds < 2 then (fd, env\<lparr>en_os := fd # fds\<rparr>) else (-1, env\<lparr>en_errno := 24\<rparr>))"

definition demo_close :: "int \<Rightarrow> (int list, int) syscall" where
  "demo_close fd env = (0, env\<lparr>en_os := removeAll fd (en_os env)\<rparr>)"

definition demo_fd_calls :: "int list fd_calls" where
  "demo_fd_calls = \<lparr>fc_eventfd = demo_open, fc_close = demo_close,
     fc_write = (\<lambda>fd env. (8, env)), fc_read = (\<lambda>fd env. (8, env)),
     fc_epoll_create = demo_open, fc_epoll_ctl = (\<lambda>efd c fd ev env. (0, env))\<rparr>"

lemma foldr_max_upper: "(x::int) \<in> set xs \<Longrightarrow> x \<le> foldr max xs 0"
  by (induction xs) auto

lemma foldr_max_fresh: "1 + foldr max xs (0::int) \<notin> set xs" "\<not> 1 + foldr max xs (0::int) < 0"
proof -
  show "1 + foldr max xs (0::int) \<notin> set xs"
    using foldr_max_upper [of "1 + foldr max xs 0" xs] by auto
  show "\<not> 1 + foldr max xs (0::int) < 0"
    by (induction xs) auto
qed

lemma demo_open_opens_one: "opens_one set demo_open"
  by (auto simp: opens_one_def demo_open_def Let_def foldr_max_fresh)

lemma demo_fd_calls_ok: "fd_calls_ok set demo_fd_calls"
  by (auto simp: fd_calls_ok_def demo_fd_calls_def demo_open_opens_one demo_close_def)

theorem reactor_descriptors_balanced_witness:
  "(case reactor_ctor demo_fd_calls \<lparr>en_errno = 0, en_os = []\<rparr> of
      (Inr r, env') \<Rightarrow> rf_interrupter r = 1 \<and> rf_epoll r = 2 \<and>
        set (en_os (reactor_dtor demo_fd_calls r env')) = {}
    | (Inl e, env') \<Rightarrow> False) \<and>
   (case reactor_ctor demo_fd_calls \<lparr>en_errno = 0, en_os = [7]\<rparr> of
      (Inr r, env') \<Rightarrow> False
    | (Inl e, env') \<Rightarrow> e = Throw_Error_Code 24 \<and> set (en_os env') = {7})"
proof -
  have 1: "reactor_ctor demo_fd_calls \<lparr>en_errno = 0, en_os = []\<rparr> =
      (Inr \<lparr>rf_interrupter = 1, rf_epoll = 2\<rparr>, \<lparr>en_errno = 0, en_os = [2, 1]\<rparr>)"
    by code_simp
  have 2: "reactor_ctor demo_fd_calls \<lparr>en_errno = 0, en_os = [7]\<rparr> =
      (Inl (Throw_Error_Code 24), \<lparr>en_errno = 24, en_os = [7]\<rparr>)"
    by code_simp
  show ?thesis
    using reactor_descriptors_balanced [OF demo_fd_calls_ok 1]
      reactor_descriptors_balanced [OF demo_fd_calls_ok 2] by (simp add: 1 2)
qed

end
