(* ===== verification/Socket_Service.thy ===== *)
theory Socket_Service
  imports Socket_Ops Buffers Reactor Addresses
begin

text \<open>
  What the unfinished socket classes define: the members of \<^verbatim>\<open>reactive_socket_service_base.hpp\<close>, the
  asynchronous send of \<^verbatim>\<open>reactive_socket_send_op.hpp\<close>, \<^verbatim>\<open>tcp.hpp\<close> and \<^verbatim>\<open>basic_endpoint.hpp\<close>. The
  send operation reads \<open>o - state_\<close> and a private member where \<open>o->state_\<close> and the total size are
  meant; the model has what is meant.
\<close>

subsection \<open>The service of sockets\<close>

text \<open>\<open>reactor_data_\<close> is a pointer to a \<open>descriptor_state\<close>.\<close>

record socket_impl =
  im_socket :: int
  im_state :: uint32
  im_reactor_data :: "nat option"

definition svc_is_open :: "socket_impl \<Rightarrow> bool" where
  "svc_is_open impl \<longleftrightarrow> im_socket impl \<noteq> invalid_socket"

definition svc_listen :: "(int \<Rightarrow> int \<Rightarrow> ('os, int) syscall) \<Rightarrow> socket_impl \<Rightarrow> int \<Rightarrow> 'os env \<Rightarrow> error_code \<times> 'os env" where
  "svc_listen sys_listen impl backlog env =
     (case so_listen sys_listen (im_socket impl) backlog env of (r, ec, env') \<Rightarrow> (ec, env'))"

definition svc_send ::
    "('os, iovec list) transfer \<Rightarrow> (int \<Rightarrow> uint16 \<Rightarrow> int \<Rightarrow> ('os, int) syscall) \<Rightarrow> socket_impl \<Rightarrow> buf \<Rightarrow> uint32 \<Rightarrow>
     'os env \<Rightarrow> (size_t \<times> error_code \<times> 'os env) option" where
  "svc_send sendmsg sys_poll impl buffers flags env =
     (let bufs = adapter_ctor buffers
      in sync_send sendmsg sys_poll (im_socket impl) (im_state impl) (ad_buffers bufs) (of_nat (ad_count bufs))
           flags (adapter_all_empty bufs) env)"

definition svc_native_handle :: "socket_impl \<Rightarrow> int" where
  "svc_native_handle impl = im_socket impl"

text \<open>\<open>async_send\<close> sets a local variable: nothing is started and the handler is never called.\<close>

definition svc_async_send :: "socket_impl \<Rightarrow> buf \<Rightarrow> uint32 \<Rightarrow> 'h \<Rightarrow> 'w \<Rightarrow> 'w" where
  "svc_async_send impl buffers flags handler w = (let is_continuation = False in w)"

subsection \<open>The asynchronous send\<close>

text \<open>
  The members of a \<open>reactive_socket_send_op_base\<close>; \<open>ec_\<close> of an operation is in the reactor, and its
  \<open>bytes_transferred_\<close> is part of the outside the reactor runs in.
\<close>

record send_op =
  sd_socket :: int
  sd_state :: uint32
  sd_buffers :: buf
  sd_flags :: uint32

record 'os send_io =
  sio_bytes :: "nat \<Rightarrow> size_t"
  sio_env :: "'os env"

definition send_perform ::
    "('os, iovec list) transfer \<Rightarrow> (nat \<Rightarrow> send_op) \<Rightarrow> nat \<Rightarrow> error_code \<Rightarrow> 'os send_io \<Rightarrow>
     (status \<times> error_code \<times> 'os send_io) option" where
  "send_perform sendmsg object base ec io =
     (let o_ptr = object base;
          bufs = adapter_ctor (sd_buffers o_ptr)
      in case non_blocking_send sendmsg (sd_socket o_ptr) (ad_buffers bufs) (of_nat (ad_count bufs))
                (sd_flags o_ptr) (sio_bytes io base) (sio_env io) of
           None \<Rightarrow> None
         | Some (complete, ec', n, env') \<Rightarrow>
             (let result = (if complete then Done else Not_Done);
                  result' =
                    (if result = Done
                     then if sd_state o_ptr AND stream_oriented \<noteq> 0
                          then if n < ad_total bufs then Done_And_Exhausted else result
                          else result
                     else result)
              in Some (result', ec', io\<lparr>sio_bytes := (sio_bytes io)(base := n), sio_env := env'\<rparr>)))"

subsection \<open>The protocol and its endpoints\<close>

definition SOCK_STREAM :: int where "SOCK_STREAM = 1"
definition IPPROTO_TCP :: int where "IPPROTO_TCP = 6"

record tcp =
  tp_family :: int

definition tcp_v4 :: tcp where
  "tcp_v4 = \<lparr>tp_family = AF_INET\<rparr>"

definition tcp_type :: "tcp \<Rightarrow> int" where
  "tcp_type p = SOCK_STREAM"

definition tcp_protocol :: "tcp \<Rightarrow> int" where
  "tcp_protocol p = IPPROTO_TCP"

definition tcp_family :: "tcp \<Rightarrow> int" where
  "tcp_family p = tp_family p"

text \<open>\<open>basic_endpoint<tcp>\<close> is its member \<open>impl_\<close>.\<close>

record basic_endpoint =
  bep_impl :: sockaddr

definition bep_default :: basic_endpoint where
  "bep_default = \<lparr>bep_impl = ep_default\<rparr>"

definition bep_of_protocol :: "net_calls \<Rightarrow> tcp \<Rightarrow> uint16 \<Rightarrow> basic_endpoint" where
  "bep_of_protocol nc protocol port = \<lparr>bep_impl = ep_of_family nc (tcp_family protocol) port\<rparr>"

definition bep_of_address :: "net_calls \<Rightarrow> address \<Rightarrow> uint16 \<Rightarrow> fault + basic_endpoint" where
  "bep_of_address nc addr port =
     (case ep_of_address nc addr port of Inl e \<Rightarrow> Inl e | Inr ep \<Rightarrow> Inr \<lparr>bep_impl = ep\<rparr>)"

definition bep_protocol :: "basic_endpoint \<Rightarrow> tcp" where
  "bep_protocol ep = tcp_v4"

definition bep_port :: "net_calls \<Rightarrow> basic_endpoint \<Rightarrow> uint16" where
  "bep_port nc ep = ep_port nc (bep_impl ep)"

definition bep_set_port :: "net_calls \<Rightarrow> uint16 \<Rightarrow> basic_endpoint \<Rightarrow> basic_endpoint" where
  "bep_set_port nc port ep = ep\<lparr>bep_impl := ep_set_port nc port (bep_impl ep)\<rparr>"

definition bep_address :: "net_calls \<Rightarrow> basic_endpoint \<Rightarrow> address" where
  "bep_address nc ep = ep_address nc (bep_impl ep)"

definition bep_set_address :: "net_calls \<Rightarrow> address \<Rightarrow> basic_endpoint \<Rightarrow> fault + basic_endpoint" where
  "bep_set_address nc addr ep =
     (case ep_set_address nc addr (bep_impl ep) of Inl e \<Rightarrow> Inl e | Inr impl \<Rightarrow> Inr (ep\<lparr>bep_impl := impl\<rparr>))"

end
