(* ===== verification/Socket_Sending.thy ===== *)
theory Socket_Sending
  imports Socket_Service Socket_Properties Reactor_Properties "HOL-Library.Sublist"
begin

text \<open>
  What the asynchronous sends queued on a descriptor deliver. \<open>log\<close> is what the system has accepted
  for the socket so far, \<open>content\<close> what the memory of a buffer holds (the caller keeps it unchanged
  while the operation is pending).
\<close>

subsection \<open>One send\<close>

text \<open>
  The manual of \<open>sendmsg\<close>: it fails, setting \<open>errno\<close>, or accepts a prefix of the data; what \<open>errno\<close> is
  then, it does not say.
\<close>

definition stream_send_ok :: "('os \<Rightarrow> byte list) \<Rightarrow> (iovec \<Rightarrow> byte list) \<Rightarrow> ('os, iovec list) transfer \<Rightarrow> bool" where
  "stream_send_ok log content sendmsg \<longleftrightarrow>
     (\<forall>fd iovs n flags env r env'. sendmsg fd iovs n flags env = (r, env') \<longrightarrow>
        r = -1 \<and> en_errno env' \<noteq> no_error \<and> log (en_os env') = log (en_os env) \<or>
        0 \<le> r \<and> nat r \<le> length (concat (map content (take (unat n) iovs))) \<and>
        log (en_os env') = log (en_os env) @ take (nat r) (concat (map content (take (unat n) iovs))))"

text \<open>
  The codes \<open>non_blocking_send\<close> takes for an interrupted send or one that would block. A system that
  does not leave one of them in \<open>errno\<close> when it accepts data, \<open>errno\<close> having been 0 before.
\<close>

definition retry_codes :: "error_code set" where
  "retry_codes = {make_error_code interrupted, make_error_code operation_would_block,
     make_error_code resource_unavailable_try_again}"

definition quiet_success :: "('os, iovec list) transfer \<Rightarrow> bool" where
  "quiet_success sendmsg \<longleftrightarrow>
     (\<forall>fd iovs n flags env r env'. en_errno env = no_error \<longrightarrow> sendmsg fd iovs n flags env = (r, env') \<longrightarrow>
        0 \<le> r \<longrightarrow> en_errno env' \<notin> retry_codes)"

lemma stream_send_okD:
  assumes "stream_send_ok log content sendmsg" "sendmsg fd iovs n flags env = (r, env')"
  shows "r = -1 \<and> en_errno env' \<noteq> no_error \<and> log (en_os env') = log (en_os env) \<or>
    0 \<le> r \<and> nat r \<le> length (concat (map content (take (unat n) iovs))) \<and>
    log (en_os env') = log (en_os env) @ take (nat r) (concat (map content (take (unat n) iovs)))"
  using assms unfolding stream_send_ok_def by blast

lemma word_of_small_int:
  assumes "0 \<le> r" "r < 2 ^ 63"
  shows "unat (word_of_int r :: size_t) = nat r \<and> sint (word_of_int r :: size_t) = r"
  using assms by (simp add: unsigned_of_int signed_of_int take_bit_int_eq_self signed_take_bit_int_eq_self)

lemma so_send_outcome:
  assumes ok: "stream_send_ok log content sendmsg"
    and small: "length (concat (map content (take (unat (iov_count cnt)) iovs))) < 2 ^ 63"
    and "so_send sendmsg fd iovs cnt flags env = (r, ec, env')"
  shows "if 0 \<le> sint r
    then (quiet_success sendmsg \<longrightarrow> ec \<notin> retry_codes) \<and>
      unat r \<le> length (concat (map content (take (unat (iov_count cnt)) iovs))) \<and>
      log (en_os env') = log (en_os env) @ take (unat r) (concat (map content (take (unat (iov_count cnt)) iovs)))
    else ec \<noteq> no_error \<and> log (en_os env') = log (en_os env)"
proof -
  obtain v env1 where call: "sendmsg fd iovs (iov_count cnt) (flags OR MSG_NOSIGNAL) (clear_last_error env) = (v, env1)"
    by force
  then have res: "r = word_of_int v" "env' = env1" "ec = clear_current_error (r = 0) (en_errno env1)"
    using assms(3) by (auto simp: so_send_def wrapped_def error_wrapper_def Let_def)
  show ?thesis
    using stream_send_okD [OF ok call]
  proof
    assume fail: "v = -1 \<and> en_errno env1 \<noteq> no_error \<and> log (en_os env1) = log (en_os (clear_last_error env))"
    then have "sint r = -1" "r \<noteq> 0" by (simp_all add: res(1))
    with fail show ?thesis by (simp add: res(2,3) env_defs)
  next
    assume sent: "0 \<le> v \<and> nat v \<le> length (concat (map content (take (unat (iov_count cnt)) iovs))) \<and>
      log (en_os env1) = log (en_os (clear_last_error env)) @
        take (nat v) (concat (map content (take (unat (iov_count cnt)) iovs)))"
    then have "unat r = nat v" "sint r = v"
      using word_of_small_int [of v] small by (auto simp: res(1))
    moreover have "en_errno env1 \<notin> retry_codes" if "quiet_success sendmsg"
      using that [unfolded quiet_success_def, rule_format, OF _ call] sent by (simp add: env_defs)
    moreover have "no_error \<notin> retry_codes" by (simp add: retry_codes_def)
    ultimately show ?thesis using sent by (simp add: res(2,3) env_defs)
  qed
qed

text \<open>
  What has been accepted before the send that counts: data the system took while \<open>errno\<close> read as a
  send to be made again. There is none on a system that leaves \<open>errno\<close> alone.
\<close>

definition repeats :: "('os, iovec list) transfer \<Rightarrow> byte list \<Rightarrow> byte list list \<Rightarrow> bool" where
  "repeats sendmsg data again \<longleftrightarrow>
     (\<forall>x \<in> set again. x \<noteq> [] \<and> prefix x data) \<and> (quiet_success sendmsg \<longrightarrow> again = [])"

lemma repeats_Nil [simp]: "repeats sendmsg data []"
  by (simp add: repeats_def)

lemma repeats_more:
  "repeats sendmsg data again \<Longrightarrow> \<not> quiet_success sendmsg \<Longrightarrow> \<exists>again'. repeats sendmsg data again' \<and>
     concat again' = take n data @ concat again"
  by (rule exI [of _ "if take n data = [] then again else take n data # again"])
    (auto simp: repeats_def take_is_prefix)

lemma non_blocking_send_outcome_log:
  fixes log :: "'os \<Rightarrow> byte list"
  assumes "non_blocking_send sendmsg fd iovs cnt flags bt env = Some (complete, ec, n, env')"
    and "stream_send_ok log content sendmsg"
    and "length (concat (map content (take (unat (iov_count cnt)) iovs))) < 2 ^ 63"
  shows "\<exists>again. repeats sendmsg (concat (map content (take (unat (iov_count cnt)) iovs))) again \<and>
    (if complete
     then unat n \<le> length (concat (map content (take (unat (iov_count cnt)) iovs))) \<and>
       log (en_os env') = log (en_os env) @ concat again @
         take (unat n) (concat (map content (take (unat (iov_count cnt)) iovs)))
     else n = bt \<and> log (en_os env') = log (en_os env) @ concat again)"
proof -
  let ?D = "\<lambda>cnt iovs. concat (map content (take (unat (iov_count cnt)) iovs))"
  let ?Q = "\<lambda>sendmsg iovs cnt bt env complete n env'. \<exists>again. repeats sendmsg (?D cnt iovs) again \<and>
    (if complete
     then unat n \<le> length (?D cnt iovs) \<and> log (en_os env') = log (en_os env) @ concat again @ take (unat n) (?D cnt iovs)
     else n = bt \<and> log (en_os env') = log (en_os env) @ concat again)"
  let ?P = "\<lambda>sendmsg fd iovs cnt flags bt env y. \<forall>complete ec n env'. y = (complete, ec, n, env') \<longrightarrow>
    stream_send_ok log content sendmsg \<longrightarrow> length (?D cnt iovs) < 2 ^ 63 \<longrightarrow> ?Q sendmsg iovs cnt bt env complete n env'"
  have "?P sendmsg fd iovs cnt flags bt env (complete, ec, n, env')"
  proof (rule non_blocking_send.raw_induct [where P = ?P, OF _ assms(1)], intro allI impI)
    fix f :: "('os, iovec list) transfer \<Rightarrow> int \<Rightarrow> iovec list \<Rightarrow> size_t \<Rightarrow> uint32 \<Rightarrow> size_t \<Rightarrow> 'os env \<Rightarrow>
        (bool \<times> error_code \<times> size_t \<times> 'os env) option"
      and sendmsg :: "('os, iovec list) transfer" and fd iovs cnt flags bt env y complete ec n env'
    assume IH: "\<And>sendmsg fd iovs cnt flags bt env y.
        f sendmsg fd iovs cnt flags bt env = Some y \<Longrightarrow> ?P sendmsg fd iovs cnt flags bt env y"
      and body: "(case so_send sendmsg fd iovs cnt flags env of (r, ec, env1) \<Rightarrow>
        if ec = make_error_code interrupted then f sendmsg fd iovs cnt flags bt env1
        else if ec = make_error_code operation_would_block \<or> ec = make_error_code resource_unavailable_try_again
        then Some (False, ec, bt, env1)
        else Some (True, clear_current_error (sint r \<ge> 0) ec, if sint r \<ge> 0 then r else 0, env1)) = Some y"
      and y: "y = (complete, ec, n, env')"
      and ok: "stream_send_ok log content sendmsg"
      and small: "length (?D cnt iovs) < 2 ^ 63"
    obtain r ec1 env1 where send: "so_send sendmsg fd iovs cnt flags env = (r, ec1, env1)" by (metis prod_cases3)
    note out = so_send_outcome [OF ok small send]
    have before: "\<exists>again'. repeats sendmsg (?D cnt iovs) again' \<and>
        log (en_os env1) @ concat again = log (en_os env) @ concat again'"
      if "ec1 \<in> retry_codes" "repeats sendmsg (?D cnt iovs) again" for again
    proof (cases "0 \<le> sint r")
      case True
      with out that(1) have "\<not> quiet_success sendmsg" by auto
      with repeats_more [OF that(2), of "unat r"] out True show ?thesis by auto
    next
      case False
      with out that(2) show ?thesis by auto
    qed
    show "?Q sendmsg iovs cnt bt env complete n env'"
    proof (cases "ec1 = make_error_code interrupted")
      case True
      with body send have "f sendmsg fd iovs cnt flags bt env1 = Some y" by simp
      from IH [OF this] y ok small have "?Q sendmsg iovs cnt bt env1 complete n env'" by blast
      then obtain again where again: "repeats sendmsg (?D cnt iovs) again"
        "if complete
         then unat n \<le> length (?D cnt iovs) \<and> log (en_os env') = log (en_os env1) @ concat again @ take (unat n) (?D cnt iovs)
         else n = bt \<and> log (en_os env') = log (en_os env1) @ concat again" by blast
      from before [OF _ again(1)] True obtain again' where "repeats sendmsg (?D cnt iovs) again'"
        "log (en_os env1) @ concat again = log (en_os env) @ concat again'" by (auto simp: retry_codes_def)
      with again(2) show ?thesis by (metis append_assoc)
    next
      case intr: False
      show ?thesis
      proof (cases "ec1 = make_error_code operation_would_block \<or> ec1 = make_error_code resource_unavailable_try_again")
        case True
        with body send y intr have "\<not> complete" "n = bt" "env' = env1" by auto
        moreover from True have "ec1 \<in> retry_codes" by (auto simp: retry_codes_def)
        from before [OF this repeats_Nil] have "\<exists>again. repeats sendmsg (?D cnt iovs) again \<and>
            log (en_os env1) = log (en_os env) @ concat again" by simp
        ultimately show ?thesis by simp
      next
        case False
        with body send y intr have "complete" "n = (if sint r \<ge> 0 then r else 0)" "env' = env1" by auto
        with out show ?thesis by (intro exI [of _ "[]"]) (auto split: if_splits)
      qed
    qed
  qed
  with assms(2,3) show ?thesis by blast
qed

subsection \<open>One operation\<close>

text \<open>A table of stream sends whose buffers hold what \<open>data\<close> says.\<close>

definition sends_of :: "(iovec \<Rightarrow> byte list) \<Rightarrow> (nat \<Rightarrow> send_op) \<Rightarrow> (nat \<Rightarrow> byte list) \<Rightarrow> bool" where
  "sends_of content object data \<longleftrightarrow>
     (\<forall>op. sd_state (object op) AND stream_oriented \<noteq> 0 \<and>
        content (init_native_buffer (sd_buffers (object op))) = data op \<and>
        length (data op) = unat (buf_size (sd_buffers (object op))) \<and> length (data op) < 2 ^ 63)"

lemma iov_count_1 [simp]: "iov_count 1 = 1"
  by (simp add: iov_count_def)

lemma adapter_ctor_eq:
  "adapter_ctor b = \<lparr>ad_buffers = [init_native_buffer b], ad_count = 1, ad_total = buf_size b\<rparr>"
  by (simp add: adapter_ctor_def adapter_init_def max_buffers_def max_iov_len_def)

lemma send_perform_outcome:
  assumes "send_perform sendmsg object op ec io = Some (st, ec', io')"
    and ok: "stream_send_ok log content sendmsg" and ops: "sends_of content object data"
  shows "\<exists>again. repeats sendmsg (data op) again \<and> (\<forall>i. i \<noteq> op \<longrightarrow> sio_bytes io' i = sio_bytes io i) \<and>
    (if st = Not_Done
     then sio_bytes io' op = sio_bytes io op \<and> log (en_os (sio_env io')) = log (en_os (sio_env io)) @ concat again
     else unat (sio_bytes io' op) \<le> length (data op) \<and> (st = Done \<longrightarrow> unat (sio_bytes io' op) = length (data op)) \<and>
       log (en_os (sio_env io')) =
         log (en_os (sio_env io)) @ concat again @ take (unat (sio_bytes io' op)) (data op))"
proof -
  let ?o = "object op"
  have o: "sd_state ?o AND stream_oriented \<noteq> 0" "content (init_native_buffer (sd_buffers ?o)) = data op"
    "length (data op) = unat (buf_size (sd_buffers ?o))" "length (data op) < 2 ^ 63"
    using ops unfolding sends_of_def by blast+
  obtain complete n env' where nbs: "non_blocking_send sendmsg (sd_socket ?o) [init_native_buffer (sd_buffers ?o)] 1
      (sd_flags ?o) (sio_bytes io op) (sio_env io) = Some (complete, ec', n, env')"
    and io': "io' = io\<lparr>sio_bytes := (sio_bytes io)(op := n), sio_env := env'\<rparr>"
    and st: "st = (if complete then if n < buf_size (sd_buffers ?o) then Done_And_Exhausted else Done else Not_Done)"
    using assms(1) o(1) by (auto simp: send_perform_def adapter_ctor_eq Let_def split: option.splits if_splits)
  have data: "concat (map content (take (unat (iov_count 1)) [init_native_buffer (sd_buffers ?o)])) = data op"
    by (simp add: o(2))
  obtain again where "repeats sendmsg (data op) again"
    "if complete
     then unat n \<le> length (data op) \<and> log (en_os env') = log (en_os (sio_env io)) @ concat again @ take (unat n) (data op)
     else n = sio_bytes io op \<and> log (en_os env') = log (en_os (sio_env io)) @ concat again"
    using non_blocking_send_outcome_log [OF nbs ok, unfolded data, OF o(4)] by blast
  then show ?thesis
    using o(3) by (intro exI [of _ again]) (auto simp: io' st word_less_nat_alt split: if_splits)
qed

subsection \<open>A queue of operations\<close>

text \<open>
  What the operations that are done have delivered, each after its repeats, and the repeats of the
  one the loop stopped at.
\<close>

definition delivered :: "(nat \<Rightarrow> byte list list) \<Rightarrow> (nat \<Rightarrow> byte list) \<Rightarrow> (nat \<Rightarrow> size_t) \<Rightarrow> nat list \<Rightarrow> nat list \<Rightarrow> byte list" where
  "delivered again data bytes sent left =
     concat (map (\<lambda>i. concat (again i) @ take (unat (bytes i)) (data i)) sent) @
     concat (concat (map again (take 1 left)))"

lemma delivered_Cons:
  "delivered again data bytes (op # sent) left =
     concat (again op) @ take (unat (bytes op)) (data op) @ delivered again data bytes sent left"
  by (simp add: delivered_def)

lemma delivered_cong:
  "(\<And>i. i \<in> set sent \<union> set left \<Longrightarrow> again i = again' i) \<Longrightarrow>
   delivered again data bytes sent left = delivered again' data bytes sent left"
  by (cases left) (auto simp: delivered_def intro!: arg_cong [where f = concat] map_cong)

lemma perform_queue_sends:
  assumes "\<And>op ec io. send_perform sendmsg object op ec io = Some (perform op ec io)"
    and "stream_send_ok log content sendmsg" and "sends_of content object data"
    and "distinct q" and "perform_queue perform q ops rx = (q', ops', exhausted, rx')"
  shows "\<exists>sent again. q = sent @ q' \<and> ops' = ops @ sent \<and> (exhausted \<longrightarrow> sent \<noteq> []) \<and>
    (\<forall>i. repeats sendmsg (data i) (again i)) \<and>
    (\<forall>i. i \<notin> set sent \<longrightarrow> sio_bytes (rx_io rx') i = sio_bytes (rx_io rx) i) \<and>
    (\<forall>i \<in> set (if exhausted then butlast sent else sent). unat (sio_bytes (rx_io rx') i) = length (data i)) \<and>
    (\<forall>i \<in> set sent. unat (sio_bytes (rx_io rx') i) \<le> length (data i)) \<and>
    log (en_os (sio_env (rx_io rx'))) =
      log (en_os (sio_env (rx_io rx))) @ delivered again data (sio_bytes (rx_io rx')) sent q'"
  using assms(4,5)
proof (induction q arbitrary: ops rx)
  case Nil
  then show ?case by (intro exI [of _ "[]"] exI [of _ "\<lambda>_. []"]) (simp add: delivered_def)
next
  case (Cons op q)
  obtain st ec io where one: "perform op (rx_ec rx op) (rx_io rx) = (st, ec, io)" by (metis prod_cases3)
  let ?rx1 = "set_ec op ec (rx\<lparr>rx_io := io\<rparr>)"
  have call: "call_perform perform op rx = (st, ?rx1)" by (simp add: call_perform_def one)
  have io1: "rx_io ?rx1 = io" by (simp add: set_ec_def)
  have "send_perform sendmsg object op (rx_ec rx op) (rx_io rx) = Some (st, ec, io)" by (simp add: assms(1) one)
  from send_perform_outcome [OF this assms(2,3)] obtain a where a: "repeats sendmsg (data op) a"
    and out: "\<forall>i. i \<noteq> op \<longrightarrow> sio_bytes io i = sio_bytes (rx_io rx) i"
      "if st = Not_Done
       then sio_bytes io op = sio_bytes (rx_io rx) op \<and>
         log (en_os (sio_env io)) = log (en_os (sio_env (rx_io rx))) @ concat a
       else unat (sio_bytes io op) \<le> length (data op) \<and> (st = Done \<longrightarrow> unat (sio_bytes io op) = length (data op)) \<and>
         log (en_os (sio_env io)) =
           log (en_os (sio_env (rx_io rx))) @ concat a @ take (unat (sio_bytes io op)) (data op)" by blast
  let ?a = "(\<lambda>_. [])(op := a)"
  have reps: "repeats sendmsg (data i) (?a i)" for i using a by simp
  consider "st = Not_Done" | "st = Done_And_Exhausted" | "st = Done" by (cases st) auto
  then show ?case
  proof cases
    case 1
    with Cons.prems call have "q' = op # q" "ops' = ops" "\<not> exhausted" "rx' = ?rx1" by auto
    moreover have "sio_bytes io i = sio_bytes (rx_io rx) i" for i
      using out 1 by (cases "i = op") auto
    ultimately show ?thesis
      using out 1 io1 reps by (intro exI [of _ "[]"] exI [of _ ?a]) (simp add: delivered_def)
  next
    case 2
    with Cons.prems call have "q' = q" "ops' = ops @ [op]" "exhausted" "rx' = ?rx1" by auto
    moreover from Cons.prems(1) this(1) have "concat (map ?a (take 1 q')) = []" by (cases q') auto
    ultimately show ?thesis
      using out 2 io1 reps by (intro exI [of _ "[op]"] exI [of _ ?a]) (auto simp: delivered_def)
  next
    case 3
    with Cons.prems(2) call have rest: "perform_queue perform q (ops @ [op]) ?rx1 = (q', ops', exhausted, rx')" by simp
    from Cons.prems(1) have "distinct q" "op \<notin> set q" by auto
    from Cons.IH [OF this(1) rest] obtain sent again where sent: "q = sent @ q'" "ops' = (ops @ [op]) @ sent"
      "exhausted \<longrightarrow> sent \<noteq> []" "\<forall>i. repeats sendmsg (data i) (again i)"
      "\<forall>i. i \<notin> set sent \<longrightarrow> sio_bytes (rx_io rx') i = sio_bytes io i"
      "\<forall>i \<in> set (if exhausted then butlast sent else sent). unat (sio_bytes (rx_io rx') i) = length (data i)"
      "\<forall>i \<in> set sent. unat (sio_bytes (rx_io rx') i) \<le> length (data i)"
      "log (en_os (sio_env (rx_io rx'))) =
        log (en_os (sio_env io)) @ delivered again data (sio_bytes (rx_io rx')) sent q'"
      unfolding io1 by blast
    have notin: "op \<notin> set sent \<union> set q'" using \<open>op \<notin> set q\<close> sent(1) by auto
    obtain again' where again': "\<forall>i. repeats sendmsg (data i) (again' i)" "again' op = a"
      "\<And>bytes. delivered again' data bytes sent q' = delivered again data bytes sent q'"
    proof
      show "\<forall>i. repeats sendmsg (data i) ((again(op := a)) i)" using a sent(4) by simp
      show "delivered (again(op := a)) data bytes sent q' = delivered again data bytes sent q'" for bytes
        using notin by (intro delivered_cong) auto
    qed simp
    from notin sent(5) have op: "sio_bytes (rx_io rx') op = sio_bytes io op" by blast
    show ?thesis
      using out 3 sent op again'
      by (intro exI [of _ "op # sent"] exI [of _ again']) (auto simp: delivered_Cons split: if_splits)
  qed
qed

subsection \<open>A descriptor\<close>

lemma perform_nothing_waiting:
  "ds_op_queue ds ot = [] \<Longrightarrow> \<exists>ds'. perform_one_type perform events ot (ds, ops, rx) = (ds', ops, rx) \<and>
     ds_op_queue ds' = ds_op_queue ds \<and> (\<forall>ot'. ot' \<noteq> ot \<longrightarrow> ds_try_speculative ds' ot' = ds_try_speculative ds ot')"
  by (auto simp: perform_one_type_def fun_upd_idem)

lemma perform_writes_only:
  assumes "ds_op_queue ds Read_Op = []" "ds_op_queue ds Except_Op = []"
    and "events AND (EPOLLOUT OR EPOLLERR OR EPOLLHUP) \<noteq> 0"
    and "perform_queue perform (ds_op_queue ds Write_Op) [] rx = (q, done_ops, exhausted, rx')"
  shows "\<exists>ds'. perform_all_types perform events ds rx = (ds', done_ops, rx') \<and>
    ds_op_queue ds' Write_Op = q \<and> ds_try_speculative ds' Write_Op = (\<not> exhausted)"
proof -
  obtain ds1 where 1: "perform_one_type perform events Except_Op (ds, [], rx) = (ds1, [], rx)"
    "ds_op_queue ds1 = ds_op_queue ds"
    using perform_nothing_waiting [OF assms(2)] by blast
  let ?ds2 = "ds1\<lparr>ds_op_queue := (ds_op_queue ds1)(Write_Op := q),
    ds_try_speculative := (ds_try_speculative ds1)(Write_Op := \<not> exhausted)\<rparr>"
  have 2: "perform_one_type perform events Write_Op (ds1, [], rx) = (?ds2, done_ops, rx')"
    using assms(3,4) 1(2) by (simp add: perform_one_type_def flag_of_def)
  have "ds_op_queue ?ds2 Read_Op = []" using 1(2) assms(1) by simp
  from perform_nothing_waiting [OF this, of perform events done_ops rx'] obtain ds3 where
    3: "perform_one_type perform events Read_Op (?ds2, done_ops, rx') = (ds3, done_ops, rx')"
    "ds_op_queue ds3 = ds_op_queue ?ds2" "ds_try_speculative ds3 Write_Op = ds_try_speculative ?ds2 Write_Op"
    by blast
  with 1 2 show ?thesis by (simp add: perform_all_types_def all_op_types_def)
qed

text \<open>C20. Asynchronous sends on a stream socket. When the reactor performs a descriptor on which only
  sends wait, the bytes the system accepts are, in the order of the queue, a prefix of the data of
  each operation that is completed: as many bytes as its \<open>bytes_transferred_\<close> says, all of them except
  possibly for the last one, after which the loop stops and speculation on this descriptor is turned
  off. On a system that leaves \<open>errno\<close> alone when it accepts data nothing else is sent: nothing is
  lost or sent twice, and operations that stay queued have sent nothing. Where it may leave a code of
  \<open>retry_codes\<close>, which \<open>send\<close> passes on for a count above 0, prefixes of the data of an operation can
  be sent before the send that counts, and of the first one that stays queued. (\<open>sendmsg\<close> accepts a
  prefix or fails with an error, and no send is interrupted for ever.)\<close>

theorem queued_sends_in_order:
  assumes "\<And>op ec io. send_perform sendmsg object op ec io = Some (perform op ec io)"
    and "stream_send_ok log content sendmsg" and "sends_of content object data"
    and "deref rx d = Some ds" and "ds_op_queue ds Read_Op = []" and "ds_op_queue ds Except_Op = []"
    and "distinct (ds_op_queue ds Write_Op)" and "events AND (EPOLLOUT OR EPOLLERR OR EPOLLHUP) \<noteq> 0"
    and "perform_io perform self d events (rx, s, stk) = Inr (op, (rx', s', stk'), lost)"
  shows "\<exists>ds' rest again. deref rx' d = Some ds' \<and>
    ds_op_queue ds Write_Op = (op # rest) @ ds_op_queue ds' Write_Op \<and>
    log (en_os (sio_env (rx_io rx'))) = log (en_os (sio_env (rx_io rx))) @
      concat (map (\<lambda>i. concat (again i) @ take (unat (sio_bytes (rx_io rx') i)) (data i)) (op # rest)) @
      concat (concat (map again (take 1 (ds_op_queue ds' Write_Op)))) \<and>
    (\<forall>i. \<forall>x \<in> set (again i). x \<noteq> [] \<and> prefix x (data i)) \<and>
    (quiet_success sendmsg \<longrightarrow> (\<forall>i. again i = [])) \<and>
    (\<forall>i \<in> set (if ds_try_speculative ds' Write_Op then op # rest else butlast (op # rest)).
      unat (sio_bytes (rx_io rx') i) = length (data i)) \<and>
    (\<forall>i \<in> set (op # rest). unat (sio_bytes (rx_io rx') i) \<le> length (data i))"
proof -
  obtain q sent exhausted rx1 where queue:
    "perform_queue perform (ds_op_queue ds Write_Op) [] rx = (q, sent, exhausted, rx1)" by (metis prod_cases4)
  from perform_queue_sends [where data = data, OF assms(1-3,7) this] obtain again where
    sent: "ds_op_queue ds Write_Op = sent @ q" "\<forall>i. repeats sendmsg (data i) (again i)"
    "\<forall>i \<in> set (if exhausted then butlast sent else sent). unat (sio_bytes (rx_io rx1) i) = length (data i)"
    "\<forall>i \<in> set sent. unat (sio_bytes (rx_io rx1) i) \<le> length (data i)"
    "log (en_os (sio_env (rx_io rx1))) =
      log (en_os (sio_env (rx_io rx))) @ delivered again data (sio_bytes (rx_io rx1)) sent q"
    by auto
  obtain ds' where all: "perform_all_types perform events ds rx = (ds', sent, rx1)"
    "ds_op_queue ds' Write_Op = q" "ds_try_speculative ds' Write_Op = (\<not> exhausted)"
    using perform_writes_only [OF assms(5,6,8) queue] by blast
  have ops: "sent = op # tl sent" and rx': "rx' = write_ds d ds' rx1"
    using assms(4,9) all(1)
    by (cases sent; auto simp: perform_io_def oq_empty_def split: if_splits prod.splits)+
  have "rx_heap rx1 = rx_heap rx" using perform_all_types_split [OF all(1)] by blast
  then have "deref rx' d = Some ds'"
    using assms(4) by (simp add: rx' deref_write_ds deref_Some)
  moreover have "rx_io rx' = rx_io rx1" by (simp add: rx' write_ds_def)
  moreover have "(\<forall>i. \<forall>x \<in> set (again i). x \<noteq> [] \<and> prefix x (data i)) \<and> (quiet_success sendmsg \<longrightarrow> (\<forall>i. again i = []))"
    using sent(2) by (simp add: repeats_def)
  moreover obtain rest where rest: "sent = op # rest" using ops by blast
  ultimately show ?thesis
    using sent(1,3-) all(2,3) unfolding rest delivered_def
    by (intro exI [of _ ds'] exI [of _ rest] exI [of _ again]) (cases exhausted; simp)
qed

text \<open>
  A system that accepts at most three bytes of each send, a table of sends of two bytes (operation 1)
  and five (all others), and a descriptor on which operations 1, 2 and 3 wait.
\<close>

definition demo_content :: "iovec \<Rightarrow> byte list" where
  "demo_content v = replicate (unat (iov_len v)) (ucast (iov_base v))"

definition demo_sendmsg :: "(byte list, iovec list) transfer" where
  "demo_sendmsg fd iovs n flags env =
     (let sent = take 3 (concat (map demo_content (take (unat n) iovs)))
      in (int (length sent), env\<lparr>en_os := en_os env @ sent\<rparr>))"

definition demo_length :: "nat \<Rightarrow> nat" where
  "demo_length op = (if op = 1 then 2 else 5)"

definition demo_sends :: "nat \<Rightarrow> send_op" where
  "demo_sends op = \<lparr>sd_socket = 5, sd_state = stream_oriented,
     sd_buffers = \<lparr>buf_data = of_nat op, buf_size = of_nat (demo_length op)\<rparr>, sd_flags = 0\<rparr>"

definition demo_send_perform :: "byte list send_io perform" where
  "demo_send_perform op ec io =
     (if demo_length op \<le> 3 then Done else Done_And_Exhausted, no_error,
      io\<lparr>sio_bytes := (sio_bytes io)(op := of_nat (min 3 (demo_length op))),
         sio_env := \<lparr>en_errno = no_error, en_os = en_os (sio_env io) @ replicate (min 3 (demo_length op)) (ucast (of_nat op :: size_t))\<rparr>\<rparr>)"

definition demo_send_ds :: descriptor_state where
  "demo_send_ds = (fresh_descriptor 5)\<lparr>ds_op_queue := (\<lambda>_. [])(Write_Op := [1, 2, 3])\<rparr>"

definition demo_send_rx :: "byte list send_io reactor" where
  "demo_send_rx = \<lparr>rx_shutdown = False, rx_registered = [(5, 0)], rx_heap = [Some demo_send_ds], rx_ec = (\<lambda>_. 0),
     rx_io = \<lparr>sio_bytes = (\<lambda>_. 0), sio_env = \<lparr>en_errno = 0, en_os = []\<rparr>\<rparr>\<rparr>"

lemma demo_sendmsg_ok: "stream_send_ok id demo_content demo_sendmsg"
  by (auto simp: stream_send_ok_def demo_sendmsg_def Let_def min_def)

lemma demo_sendmsg_quiet: "quiet_success demo_sendmsg"
  by (auto simp: quiet_success_def demo_sendmsg_def Let_def retry_codes_def)

lemma demo_length_cases: "demo_length op = 2 \<or> demo_length op = 5"
  by (simp add: demo_length_def)

lemma demo_length_bounds:
  "unat (of_nat (demo_length op) :: size_t) = demo_length op" "demo_length op < 2 ^ 63"
  using demo_length_cases [of op] by auto

lemma demo_sends_ok: "sends_of demo_content demo_sends (\<lambda>op. replicate (demo_length op) (ucast (of_nat op :: size_t)))"
  using demo_length_bounds
  by (simp add: sends_of_def demo_sends_def demo_content_def init_native_buffer_def stream_oriented_def)

lemma demo_send_perform_eq: "send_perform demo_sendmsg demo_sends op ec io = Some (demo_send_perform op ec io)"
proof -
  let ?v = "init_native_buffer (sd_buffers (demo_sends op))"
  have "concat (map demo_content (take (unat (1 :: size_t)) [?v])) =
      replicate (demo_length op) (ucast (of_nat op :: size_t))"
    using demo_sends_ok by (simp add: sends_of_def)
  then have send: "so_send demo_sendmsg 5 [?v] 1 0 env =
      (of_nat (min 3 (demo_length op)), no_error,
       \<lparr>en_errno = no_error, en_os = en_os env @ replicate (min 3 (demo_length op)) (ucast (of_nat op :: size_t))\<rparr>)" for env
    by (simp add: so_send_def env_defs demo_sendmsg_def Let_def del: take_Suc)
  have "non_blocking_send demo_sendmsg 5 [?v] 1 0 n env =
      Some (True, no_error, of_nat (min 3 (demo_length op)),
       \<lparr>en_errno = no_error, en_os = en_os env @ replicate (min 3 (demo_length op)) (ucast (of_nat op :: size_t))\<rparr>)" for n env
    using demo_length_cases [of op]
    by (auto simp: non_blocking_send.simps [of _ _ _ _ _ _ env] send clear_current_error_def)
  then show ?thesis
    using demo_length_cases [of op]
    by (auto simp: send_perform_def demo_send_perform_def adapter_ctor_eq Let_def demo_sends_def stream_oriented_def)
qed

lemma demo_sends_performed:
  "\<exists>rx' s' lost. perform_io demo_send_perform 0 0 EPOLLOUT (demo_send_rx, demo_s, []) = Inr (1, (rx', s', []), lost) \<and>
     en_os (sio_env (rx_io rx')) = [1, 1, 2, 2, 2] \<and> sio_bytes (rx_io rx') 2 = 3"
proof -
  let ?io = "\<lparr>sio_bytes = (\<lambda>_. 0)(1 := 2, 2 := 3), sio_env = \<lparr>en_errno = 0, en_os = [1, 1, 2, 2, 2]\<rparr>\<rparr>"
  have rep: "replicate 2 x = [x, x]" "replicate 3 x = [x, x, x]" for x :: byte
    by (simp_all add: numeral_eq_Suc)
  have queue: "perform_queue demo_send_perform [1, 2, 3] [] demo_send_rx =
      ([3], [1, 2], True, demo_send_rx\<lparr>rx_io := ?io\<rparr>)"
    by (simp add: call_perform_def demo_send_perform_def demo_length_def demo_send_rx_def set_ec_def
        rep fun_upd_idem)
  obtain ds' where "perform_all_types demo_send_perform EPOLLOUT demo_send_ds demo_send_rx =
      (ds', [1, 2], demo_send_rx\<lparr>rx_io := ?io\<rparr>)"
    using perform_writes_only [of demo_send_ds EPOLLOUT demo_send_perform demo_send_rx, OF _ _ _ ]
      queue by (auto simp: demo_send_ds_def epoll_flags fresh_descriptor_def)
  then show ?thesis
    by (simp add: perform_io_def deref_def demo_send_rx_def oq_pop_def oq_empty_def post_deferred_completions_def
        demo_s_def oq_splice_def write_ds_def Let_def)
qed

theorem queued_sends_in_order_witness:
  "\<exists>rx' s' lost ds'. perform_io demo_send_perform 0 0 EPOLLOUT (demo_send_rx, demo_s, []) = Inr (1, (rx', s', []), lost) \<and>
     deref rx' 0 = Some ds' \<and> ds_op_queue ds' Write_Op = [3] \<and> \<not> ds_try_speculative ds' Write_Op \<and>
     en_os (sio_env (rx_io rx')) = [1, 1, 2, 2, 2] \<and> sio_bytes (rx_io rx') 2 = 3"
proof -
  obtain rx' s' lost where perf: "perform_io demo_send_perform 0 0 EPOLLOUT (demo_send_rx, demo_s, []) =
      Inr (1, (rx', s', []), lost)"
    "en_os (sio_env (rx_io rx')) = [1, 1, 2, 2, 2]" "sio_bytes (rx_io rx') 2 = 3"
    using demo_sends_performed by blast
  have ds: "deref demo_send_rx 0 = Some demo_send_ds" "ds_op_queue demo_send_ds Read_Op = []"
    "ds_op_queue demo_send_ds Except_Op = []" "distinct (ds_op_queue demo_send_ds Write_Op)"
    "EPOLLOUT AND (EPOLLOUT OR EPOLLERR OR EPOLLHUP) \<noteq> 0"
    by (simp_all add: deref_def demo_send_rx_def demo_send_ds_def epoll_flags)
  from queued_sends_in_order [OF demo_send_perform_eq demo_sendmsg_ok demo_sends_ok ds perf(1)]
  obtain ds' rest again where "deref rx' 0 = Some ds'" and queue: "1 # rest @ ds_op_queue ds' Write_Op = [1, 2, 3]"
    and all: "en_os (sio_env (rx_io rx')) = concat (map (\<lambda>i. concat (again i) @ take (unat (sio_bytes (rx_io rx') i))
        (replicate (demo_length i) (ucast (of_nat i :: size_t)))) (1 # rest)) @
        concat (concat (map again (take 1 (ds_op_queue ds' Write_Op))))"
    and again: "\<forall>i. again i = []"
    and full: "\<forall>i \<in> set (if ds_try_speculative ds' Write_Op then 1 # rest else butlast (1 # rest)).
        unat (sio_bytes (rx_io rx') i) = demo_length i"
    using demo_sendmsg_quiet by (auto simp: demo_send_rx_def demo_send_ds_def)
  have sent: "en_os (sio_env (rx_io rx')) = concat (map (\<lambda>i. take (unat (sio_bytes (rx_io rx') i))
      (replicate (demo_length i) (ucast (of_nat i :: size_t)))) (1 # rest))"
    using all again by simp
  from queue consider "rest = []" | "rest = [2]" | "rest = [2, 3]"
    by (auto simp: append_eq_Cons_conv)
  then have "rest = [2]"
  proof cases
    case 1
    have "length (en_os (sio_env (rx_io rx'))) \<le> 2" unfolding sent 1 by (simp add: demo_length_def)
    with perf(2) show ?thesis by simp
  next
    case 3
    then have "unat (sio_bytes (rx_io rx') 2) = demo_length 2" using full by (simp split: if_splits)
    with perf(3) show ?thesis by (simp add: demo_length_def)
  qed
  moreover from this have "\<not> ds_try_speculative ds' Write_Op"
    using full perf(3) by (auto simp: demo_length_def)
  ultimately show ?thesis using perf queue \<open>deref rx' 0 = Some ds'\<close> by auto
qed

text \<open>
  A system the manual of \<open>sendmsg\<close> allows: it accepts everything and leaves \<open>EAGAIN\<close> in \<open>errno\<close>.
  \<open>non_blocking_send\<close> reports that the send would block, so the operation stays queued and the same
  bytes are sent again.
\<close>

definition noisy_sendmsg :: "(byte list, iovec list) transfer" where
  "noisy_sendmsg fd iovs n flags env =
     (let sent = concat (map demo_content (take (unat n) iovs))
      in (int (length sent), \<lparr>en_errno = make_error_code resource_unavailable_try_again, en_os = en_os env @ sent\<rparr>))"

lemma noisy_sends_repeat:
  "stream_send_ok id demo_content noisy_sendmsg \<and>
   non_blocking_send noisy_sendmsg 5 [\<lparr>iov_base = 7, iov_len = 2\<rparr>] 1 0 bt \<lparr>en_errno = 0, en_os = []\<rparr> =
     Some (False, make_error_code resource_unavailable_try_again, bt,
       \<lparr>en_errno = make_error_code resource_unavailable_try_again, en_os = [7, 7]\<rparr>)"
proof
  show "stream_send_ok id demo_content noisy_sendmsg"
    by (auto simp: stream_send_ok_def noisy_sendmsg_def Let_def)
  have "replicate 2 x = [x, x]" for x :: byte by (simp add: numeral_eq_Suc)
  then have data: "demo_content \<lparr>iov_base = 7, iov_len = 2\<rparr> = [7, 7]" by (simp add: demo_content_def)
  have send: "so_send noisy_sendmsg 5 [\<lparr>iov_base = 7, iov_len = 2\<rparr>] 1 0 \<lparr>en_errno = 0, en_os = []\<rparr> =
      (2, make_error_code resource_unavailable_try_again,
       \<lparr>en_errno = make_error_code resource_unavailable_try_again, en_os = [7, 7]\<rparr>)"
    by (simp add: so_send_def env_defs noisy_sendmsg_def Let_def data del: take_Suc)
  show "non_blocking_send noisy_sendmsg 5 [\<lparr>iov_base = 7, iov_len = 2\<rparr>] 1 0 bt \<lparr>en_errno = 0, en_os = []\<rparr> =
     Some (False, make_error_code resource_unavailable_try_again, bt,
       \<lparr>en_errno = make_error_code resource_unavailable_try_again, en_os = [7, 7]\<rparr>)"
    using send by (simp add: non_blocking_send.simps [of _ _ _ _ _ _ "\<lparr>en_errno = 0, en_os = []\<rparr>"])
qed

end
