(* ===== verification/Handler_Memory.thy ===== *)
theory Handler_Memory
  imports Executors
begin

text \<open>
  \<^verbatim>\<open>handler_alloc_helpers.hpp\<close>, \<^verbatim>\<open>handler_alloc_hook.hpp\<close>, \<^verbatim>\<open>associated_allocator.hpp\<close>, the traits of
  \<^verbatim>\<open>recycling_allocator.hpp\<close> and \<open>ptr::allocate\<close> of \<^verbatim>\<open>executor_op.hpp\<close>: which allocator serves the
  memory of an operation, and the three \<open>ptr\<close> structs that own the memory while an operation is
  built or completed. The compiler picks the allocator by its type; here a type is a constructor of
  \<open>allocator\<close>. Allocators and hooks that the user supplies are members of \<open>user_code\<close>.

  As it stands \<^verbatim>\<open>handler_alloc_helpers.hpp\<close> does not compile (line 113 ends the macro early); the
  model is the evident reading.
\<close>

subsection \<open>Allocators\<close>

text \<open>An allocator before it is bound to the type of its elements.\<close>

datatype ('h, 'c) allocator =
    Std_Allocator
  | Recycling_Allocator
  | Hook_Allocator 'h
  | User_Allocator 'c

record ('h, 'c) bound_allocator =
  ba_family :: "('h, 'c) allocator"
  ba_sizeof :: nat

text \<open>
  \<open>uc_has_hooks\<close> is the macro \<^verbatim>\<open>BOOST_ASIO_HAS_HANDLER_HOOKS\<close>; the hooks are the overloads of
  \<open>asio_handler_allocate\<close> and \<open>asio_handler_deallocate\<close> that a handler's class brings, if any.
  \<open>uc_stateless\<close>: the class of the allocator has no members, so that a copy of it reads nothing.
\<close>

record ('h, 'c) user_code =
  uc_has_hooks :: bool
  uc_handler_allocate :: "'h \<Rightarrow> (nat \<Rightarrow> memory \<Rightarrow> pointer \<times> memory) option"
  uc_handler_deallocate :: "'h \<Rightarrow> (pointer \<Rightarrow> nat \<Rightarrow> memory \<Rightarrow> fault + memory) option"
  uc_stateless :: "'c \<Rightarrow> bool"
  uc_allocate :: "'c \<Rightarrow> nat \<Rightarrow> memory \<Rightarrow> pointer \<times> memory"
  uc_deallocate :: "'c \<Rightarrow> pointer \<Rightarrow> nat \<Rightarrow> memory \<Rightarrow> fault + memory"

definition asio_handler_allocate :: "nat \<Rightarrow> memory \<Rightarrow> pointer \<times> memory" where
  "asio_handler_allocate sz m = operator_new m"

definition asio_handler_deallocate :: "pointer \<Rightarrow> nat \<Rightarrow> memory \<Rightarrow> fault + memory" where
  "asio_handler_deallocate p sz m = operator_delete p m"

definition handler_allocate :: "('h, 'c) user_code \<Rightarrow> nat \<Rightarrow> 'h \<Rightarrow> memory \<Rightarrow> pointer \<times> memory" where
  "handler_allocate uc sz h m =
     (if \<not> uc_has_hooks uc then operator_new m
      else (case uc_handler_allocate uc h of
              Some hook \<Rightarrow> hook sz m
            | None \<Rightarrow> asio_handler_allocate sz m))"

definition handler_deallocate :: "('h, 'c) user_code \<Rightarrow> pointer \<Rightarrow> nat \<Rightarrow> 'h \<Rightarrow> memory \<Rightarrow> fault + memory" where
  "handler_deallocate uc p sz h m =
     (if \<not> uc_has_hooks uc then operator_delete p m
      else (case uc_handler_deallocate uc h of
              Some hook \<Rightarrow> hook p sz m
            | None \<Rightarrow> asio_handler_deallocate p sz m))"

definition hook_allocate :: "('h, 'c) user_code \<Rightarrow> nat \<Rightarrow> 'h \<Rightarrow> nat \<Rightarrow> memory \<Rightarrow> pointer \<times> memory" where
  "hook_allocate uc sizeof_T h n m = handler_allocate uc (sizeof_T * n) h m"

definition hook_deallocate ::
    "('h, 'c) user_code \<Rightarrow> nat \<Rightarrow> 'h \<Rightarrow> pointer \<Rightarrow> nat \<Rightarrow> memory \<Rightarrow> fault + memory" where
  "hook_deallocate uc sizeof_T h p n m = handler_deallocate uc p (sizeof_T * n) h m"

text \<open>
  \<open>allocate(n)\<close> and \<open>deallocate(p, n)\<close> of an allocator, on a thread with the given call stack.
  \<open>std::allocator\<close> uses the heap.
\<close>

definition ba_allocate ::
    "('h, 'c) user_code \<Rightarrow> ('k, nat) call_stack \<Rightarrow> ('h, 'c) bound_allocator \<Rightarrow> nat \<Rightarrow> memory \<Rightarrow> pointer \<times> memory" where
  "ba_allocate uc stack a n m =
     (case ba_family a of
        Std_Allocator \<Rightarrow> operator_new m
      | Recycling_Allocator \<Rightarrow> ra_allocate stack (ba_sizeof a) n m
      | Hook_Allocator h \<Rightarrow> hook_allocate uc (ba_sizeof a) h n m
      | User_Allocator c \<Rightarrow> uc_allocate uc c (ba_sizeof a * n) m)"

definition ba_deallocate ::
    "('h, 'c) user_code \<Rightarrow> ('k, nat) call_stack \<Rightarrow> ('h, 'c) bound_allocator \<Rightarrow> pointer \<Rightarrow> nat \<Rightarrow> memory \<Rightarrow>
     fault + memory" where
  "ba_deallocate uc stack a p n m =
     (case ba_family a of
        Std_Allocator \<Rightarrow> operator_delete p m
      | Recycling_Allocator \<Rightarrow> ra_deallocate stack (ba_sizeof a) p n m
      | Hook_Allocator h \<Rightarrow> hook_deallocate uc (ba_sizeof a) h p n m
      | User_Allocator c \<Rightarrow> uc_deallocate uc c p (ba_sizeof a * n) m)"

subsection \<open>Choosing an allocator\<close>

text \<open>
  \<open>own\<close> is what the handler's \<open>get_allocator\<close> returns when its class names an \<open>allocator_type\<close>,
  None when it does not; then the default is taken.
\<close>

definition associated_allocator :: "('h, 'c) allocator option \<Rightarrow> bool" where
  "associated_allocator own \<longleftrightarrow> own \<noteq> None"

definition get_associated_allocator :: "('h, 'c) allocator option \<Rightarrow> ('h, 'c) allocator \<Rightarrow> ('h, 'c) allocator" where
  "get_associated_allocator own a = (if associated_allocator own then the own else a)"

text \<open>The specialisation for \<open>std::allocator\<close> gives another \<open>std::allocator\<close>.\<close>

definition get_recycling_allocator :: "('h, 'c) allocator \<Rightarrow> ('h, 'c) allocator" where
  "get_recycling_allocator a = (case a of Std_Allocator \<Rightarrow> Std_Allocator | _ \<Rightarrow> a)"

definition get_hook_allocator :: "'h \<Rightarrow> ('h, 'c) allocator \<Rightarrow> ('h, 'c) allocator" where
  "get_hook_allocator handler a = (case a of Std_Allocator \<Rightarrow> Hook_Allocator handler | _ \<Rightarrow> a)"

definition rebind_alloc :: "('h, 'c) allocator \<Rightarrow> nat \<Rightarrow> ('h, 'c) bound_allocator" where
  "rebind_alloc a sizeof_T = \<lparr>ba_family = a, ba_sizeof = sizeof_T\<rparr>"

subsection \<open>The owners of operation memory\<close>

text \<open>
  The \<open>ptr\<close> of \<^verbatim>\<open>executor_op.hpp\<close>, the one the macro \<^verbatim>\<open>BOOST_ASIO_DEFINE_HANDLER_ALLOCATOR_PTR\<close>
  defines, and the one of \<^verbatim>\<open>BOOST_ASIO_DEFINE_HANDLER_PTR\<close>, which starts from the handler. The first
  member of each points at the allocator or the handler; what it points at is an argument here, an
  object that lives while \<open>reset\<close> runs. \<open>eptr_reset_in_op\<close> is the one case where it does not.
\<close>

definition eptr_allocate ::
    "('h, 'c) user_code \<Rightarrow> ('k, nat) call_stack \<Rightarrow> nat \<Rightarrow> ('h, 'c) allocator \<Rightarrow> memory \<Rightarrow> pointer \<times> memory" where
  "eptr_allocate uc stack sizeof_op alloc m =
     ba_allocate uc stack (rebind_alloc (get_recycling_allocator alloc) sizeof_op) 1 m"

definition eptr_reset ::
    "('h, 'c) user_code \<Rightarrow> ('k, nat) call_stack \<Rightarrow> nat \<Rightarrow> ('h, 'c) allocator \<Rightarrow> op_ptr \<Rightarrow> memory \<Rightarrow>
     fault + op_ptr \<times> nat \<times> memory" where
  "eptr_reset uc stack sizeof_op a x m =
     ptr_reset (\<lambda>v. ba_deallocate uc stack (rebind_alloc (get_recycling_allocator a) sizeof_op) v 1) x m"

text \<open>
  \<open>reset\<close> of the \<open>ptr\<close> in \<open>executor_op::do_complete\<close>, whose allocator is the member \<open>alloc_\<close> of the very
  operation: \<open>p->~op()\<close> destroys it, and \<open>get(*a)\<close> copies it afterwards, which is undefined when it
  has members to copy.
\<close>

definition has_state :: "('h, 'c) user_code \<Rightarrow> ('h, 'c) allocator \<Rightarrow> bool" where
  "has_state uc a =
     (case a of
        Std_Allocator \<Rightarrow> False
      | Recycling_Allocator \<Rightarrow> False
      | Hook_Allocator h \<Rightarrow> True
      | User_Allocator c \<Rightarrow> \<not> uc_stateless uc c)"

definition eptr_reset_in_op ::
    "('h, 'c) user_code \<Rightarrow> ('k, nat) call_stack \<Rightarrow> nat \<Rightarrow> ('h, 'c) allocator \<Rightarrow> op_ptr \<Rightarrow> memory \<Rightarrow>
     fault + op_ptr \<times> nat \<times> memory" where
  "eptr_reset_in_op uc stack sizeof_op alloc_member x m =
     (if ptr_p x \<noteq> None \<and> ptr_v x \<noteq> None \<and> has_state uc alloc_member then Inl Undefined_Behaviour
      else eptr_reset uc stack sizeof_op alloc_member x m)"

definition aptr_allocate ::
    "('h, 'c) user_code \<Rightarrow> ('k, nat) call_stack \<Rightarrow> nat \<Rightarrow> ('h, 'c) allocator \<Rightarrow> memory \<Rightarrow> pointer \<times> memory" where
  "aptr_allocate uc stack sizeof_op a m =
     (let a1 = rebind_alloc (get_recycling_allocator a) sizeof_op in ba_allocate uc stack a1 1 m)"

definition aptr_reset ::
    "('h, 'c) user_code \<Rightarrow> ('k, nat) call_stack \<Rightarrow> nat \<Rightarrow> ('h, 'c) allocator \<Rightarrow> op_ptr \<Rightarrow> memory \<Rightarrow>
     fault + op_ptr \<times> nat \<times> memory" where
  "aptr_reset uc stack sizeof_op a x m =
     (let destroyed = (case ptr_p x of Some p \<Rightarrow> 1 | None \<Rightarrow> 0);
          x1 = x\<lparr>ptr_p := None\<rparr>
      in case ptr_v x1 of
           None \<Rightarrow> Inr (x1, destroyed, m)
         | Some v \<Rightarrow>
             (let a1 = rebind_alloc (get_recycling_allocator a) sizeof_op
              in case ba_deallocate uc stack a1 v 1 m of
                   Inl e \<Rightarrow> Inl e
                 | Inr m' \<Rightarrow> Inr (x1\<lparr>ptr_v := None\<rparr>, destroyed, m')))"

text \<open>A handler and the allocator its class provides, if any.\<close>

type_synonym ('h, 'c) handler = "'h \<times> ('h, 'c) allocator option"

definition handler_allocator :: "('h, 'c) handler \<Rightarrow> ('h, 'c) allocator" where
  "handler_allocator h = get_associated_allocator (snd h) Std_Allocator"

definition hptr_allocate ::
    "('h, 'c) user_code \<Rightarrow> ('k, nat) call_stack \<Rightarrow> nat \<Rightarrow> ('h, 'c) handler \<Rightarrow> memory \<Rightarrow> pointer \<times> memory" where
  "hptr_allocate uc stack sizeof_op h m =
     (let a = rebind_alloc (get_hook_allocator (fst h) (handler_allocator h)) sizeof_op
      in ba_allocate uc stack a 1 m)"

definition hptr_reset ::
    "('h, 'c) user_code \<Rightarrow> ('k, nat) call_stack \<Rightarrow> nat \<Rightarrow> ('h, 'c) handler \<Rightarrow> op_ptr \<Rightarrow> memory \<Rightarrow>
     fault + op_ptr \<times> nat \<times> memory" where
  "hptr_reset uc stack sizeof_op h x m =
     (let destroyed = (case ptr_p x of Some p \<Rightarrow> 1 | None \<Rightarrow> 0);
          x1 = x\<lparr>ptr_p := None\<rparr>
      in case ptr_v x1 of
           None \<Rightarrow> Inr (x1, destroyed, m)
         | Some v \<Rightarrow>
             (let a = rebind_alloc (get_hook_allocator (fst h) (handler_allocator h)) sizeof_op
              in case ba_deallocate uc stack a v 1 m of
                   Inl e \<Rightarrow> Inl e
                 | Inr m' \<Rightarrow> Inr (x1\<lparr>ptr_v := None\<rparr>, destroyed, m')))"

lemmas choice_defs [op_defs] =
  associated_allocator_def get_associated_allocator_def get_recycling_allocator_def get_hook_allocator_def rebind_alloc_def
  asio_handler_allocate_def asio_handler_deallocate_def handler_allocate_def handler_deallocate_def
  hook_allocate_def hook_deallocate_def

end
