(* ===== verification/Handler_Memory_Properties.thy ===== *)
theory Handler_Memory_Properties
  imports Handler_Memory Executor_Properties
begin

text \<open>
  What the owners of operation memory promise for any sequence of posts and completions, on any
  threads, and that the three of them are one.
\<close>

subsection \<open>Sequences of posts and completions\<close>

text \<open>
  What happens to the memory of operations: an operation is built and handed to a scheduler, its
  construction throws, or the scheduler completes (or destroys) the one at the given place of those
  it holds. \<open>'a\<close> is what a \<open>ptr\<close> starts from.
\<close>

datatype 'a memory_event = Post 'a nat | Post_Throws 'a nat | Completed nat

type_synonym 'a held_op = "'a \<times> nat \<times> pointer"
type_synonym 'a held_ops = "'a held_op list \<times> memory"

type_synonym thread_contexts = "(nat, nat) call_stack"
type_synonym 'a ptr_allocate = "thread_contexts \<Rightarrow> nat \<Rightarrow> 'a \<Rightarrow> memory \<Rightarrow> pointer \<times> memory"
type_synonym 'a ptr_reset =
  "thread_contexts \<Rightarrow> nat \<Rightarrow> 'a \<Rightarrow> op_ptr \<Rightarrow> memory \<Rightarrow> fault + op_ptr \<times> nat \<times> memory"

fun run_event ::
    "'a ptr_allocate \<Rightarrow> 'a ptr_reset \<Rightarrow> thread_contexts \<times> 'a memory_event \<Rightarrow> 'a held_ops \<Rightarrow>
     fault + 'a held_ops" where
  "run_event alloc reset (stack, Post a sz) (ops, m) =
     (let (v, m1) = alloc stack sz a m;
          p = \<lparr>ptr_v = Some v, ptr_p = None\<rparr>;
          p1 = p\<lparr>ptr_p := Some v\<rparr>;
          p2 = p1\<lparr>ptr_v := None, ptr_p := None\<rparr>
      in case reset stack sz a p2 m1 of
           Inl e \<Rightarrow> Inl e
         | Inr (_, _, m2) \<Rightarrow> Inr (ops @ [(a, sz, v)], m2))"
| "run_event alloc reset (stack, Post_Throws a sz) (ops, m) =
     (let (v, m1) = alloc stack sz a m
      in case reset stack sz a \<lparr>ptr_v = Some v, ptr_p = None\<rparr> m1 of
           Inl e \<Rightarrow> Inl e
         | Inr (_, _, m2) \<Rightarrow> Inr (ops, m2))"
| "run_event alloc reset (stack, Completed j) (ops, m) =
     (if j < length ops
      then (case ops ! j of (a, sz, v) \<Rightarrow>
              case reset stack sz a \<lparr>ptr_v = Some v, ptr_p = Some v\<rparr> m of
                Inl e \<Rightarrow> Inl e
              | Inr (_, _, m1) \<Rightarrow> Inr (take j ops @ drop (Suc j) ops, m1))
      else Inr (ops, m))"

fun run_events ::
    "'a ptr_allocate \<Rightarrow> 'a ptr_reset \<Rightarrow> (thread_contexts \<times> 'a memory_event) list \<Rightarrow> 'a held_ops \<Rightarrow>
     fault + 'a held_ops" where
  "run_events alloc reset [] st = Inr st"
| "run_events alloc reset (e # es) st =
     (case run_event alloc reset e st of Inl f \<Rightarrow> Inl f | Inr st' \<Rightarrow> run_events alloc reset es st')"

fun event_owner :: "'a memory_event \<Rightarrow> 'a option" where
  "event_owner (Post a sz) = Some a"
| "event_owner (Post_Throws a sz) = Some a"
| "event_owner (Completed j) = None"

text \<open>The owners of live operations come from the events.\<close>

lemma run_event_owners:
  assumes "run_event alloc reset (stack, e) (ops, m) = Inr (ops', m')"
    and "\<And>a. event_owner e = Some a \<Longrightarrow> P a" and "\<forall>op \<in> set ops. P (fst op)"
  shows "\<forall>op \<in> set ops'. P (fst op)"
proof (cases e)
  case (Completed j)
  with assms(1) have "ops' = ops \<or> ops' = take j ops @ drop (Suc j) ops"
    by (auto split: if_splits prod.splits sum.splits)
  then have "set ops' \<subseteq> set ops" using set_take_subset set_drop_subset by (metis Un_subset_iff set_append subset_refl)
  with assms(3) show ?thesis by blast
qed (use assms in \<open>auto split: prod.splits sum.splits\<close>)

subsection \<open>Allocators that serve every thread alike\<close>

definition default_hooks :: "('h, 'c) user_code \<Rightarrow> 'h \<Rightarrow> bool" where
  "default_hooks uc h \<longleftrightarrow>
     \<not> uc_has_hooks uc \<or> uc_handler_allocate uc h = None \<and> uc_handler_deallocate uc h = None"

lemma default_hooks_heap:
  assumes "default_hooks uc h"
  shows "hook_allocate uc sz h n = operator_new" "hook_deallocate uc sz h p n = operator_delete p"
  using assms by (auto simp: default_hooks_def choice_defs fun_eq_iff)

text \<open>
  What the user's allocators promise: memory nobody has, and taking back what they gave out. The
  heap satisfies it.
\<close>

definition user_contract :: "('h, 'c) user_code \<Rightarrow> 'c \<Rightarrow> bool" where
  "user_contract uc c \<longleftrightarrow>
     (\<forall>sz. \<exists>own. operation_allocator mem_inv handed_out own (uc_allocate uc c sz) (\<lambda>p. uc_deallocate uc c p sz))"

definition portable :: "('h, 'c) user_code \<Rightarrow> ('h, 'c) allocator \<Rightarrow> bool" where
  "portable uc a \<longleftrightarrow>
     (case a of
        Std_Allocator \<Rightarrow> True
      | Recycling_Allocator \<Rightarrow> False
      | Hook_Allocator h \<Rightarrow> False
      | User_Allocator c \<Rightarrow> uc_stateless uc c \<and> user_contract uc c)"

lemma portable_stateless: "portable uc a \<Longrightarrow> \<not> has_state uc a"
  by (cases a) (simp_all add: portable_def has_state_def)

definition is_heap :: "pointer \<Rightarrow> bool" where
  "is_heap p \<longleftrightarrow> (case p of Heap n \<Rightarrow> True | Storage t \<Rightarrow> False)"

interpretation heap: operation_allocator mem_inv handed_out is_heap operator_new operator_delete
proof unfold_locales
  fix m p assume inv: "mem_inv m" and out: "handed_out m p" and "is_heap p"
  then show "\<exists>m'. operator_delete p m = Inr m' \<and> mem_inv m' \<and> (\<forall>q. handed_out m' q \<longleftrightarrow> handed_out m q \<and> q \<noteq> p)"
    using operator_delete_live [OF inv] by (cases p) (auto simp: is_heap_def)
qed (use operator_new_live in \<open>blast+, auto simp: is_heap_def operator_new_def\<close>)

text \<open>The allocation and the deallocation an \<open>eptr\<close> ends up with.\<close>

definition eptr_deallocate ::
    "('h, 'c) user_code \<Rightarrow> thread_contexts \<Rightarrow> nat \<Rightarrow> ('h, 'c) allocator \<Rightarrow> pointer \<Rightarrow> memory \<Rightarrow> fault + memory" where
  "eptr_deallocate uc stack sz a p = ba_deallocate uc stack (rebind_alloc (get_recycling_allocator a) sz) p 1"

lemma eptr_family:
  "eptr_allocate uc stack sz Std_Allocator = operator_new"
  "eptr_deallocate uc stack sz Std_Allocator = operator_delete"
  "eptr_allocate uc stack sz (Hook_Allocator h) = hook_allocate uc sz h 1"
  "eptr_deallocate uc stack sz (Hook_Allocator h) = (\<lambda>p. hook_deallocate uc sz h p 1)"
  "eptr_allocate uc stack sz (User_Allocator c) = uc_allocate uc c sz"
  "eptr_deallocate uc stack sz (User_Allocator c) = (\<lambda>p. uc_deallocate uc c p sz)"
  by (simp_all add: fun_eq_iff eptr_allocate_def eptr_deallocate_def rebind_alloc_def get_recycling_allocator_def
      ba_allocate_def ba_deallocate_def)

text \<open>One allocator for all of the threads \<open>K\<close>, given by their call stacks; and for every thread.\<close>

definition allocator_on ::
    "thread_contexts set \<Rightarrow> ('h, 'c) user_code \<Rightarrow> ('h, 'c) allocator \<Rightarrow> nat \<Rightarrow> (pointer \<Rightarrow> bool) \<Rightarrow> bool" where
  "allocator_on K uc a sz own \<longleftrightarrow>
     (\<forall>stack \<in> K.
        operation_allocator mem_inv handed_out own (eptr_allocate uc stack sz a) (eptr_deallocate uc stack sz a))"

definition any_thread_allocator :: "('h, 'c) user_code \<Rightarrow> ('h, 'c) allocator \<Rightarrow> nat \<Rightarrow> (pointer \<Rightarrow> bool) \<Rightarrow> bool" where
  "any_thread_allocator uc a sz own \<longleftrightarrow>
     (\<forall>stack :: thread_contexts.
        operation_allocator mem_inv handed_out own (eptr_allocate uc stack sz a) (eptr_deallocate uc stack sz a))"

lemma portable_any_thread: "portable uc a \<Longrightarrow> \<exists>own. any_thread_allocator uc a sz own"
proof (cases a)
  case (User_Allocator c)
  assume "portable uc a"
  with User_Allocator show ?thesis
    by (simp add: portable_def user_contract_def any_thread_allocator_def eptr_family)
qed (auto simp: portable_def any_thread_allocator_def eptr_family intro: heap.operation_allocator_axioms)

text \<open>
  Where completing is defined: an allocator that serves all threads, or \<open>recycling_allocator\<close> when
  the threads of \<open>K\<close> are one, so that memory goes back to the slot it came from.
\<close>

definition serves :: "thread_contexts set \<Rightarrow> ('h, 'c) user_code \<Rightarrow> ('h, 'c) allocator \<Rightarrow> bool" where
  "serves K uc a \<longleftrightarrow>
     portable uc a \<or> a = Recycling_Allocator \<and> (\<exists>top. \<forall>stack \<in> K. cs_top stack = top)"

lemma serves_allocator: "serves K uc a \<Longrightarrow> \<exists>own. allocator_on K uc a sz own"
  unfolding serves_def
proof (elim disjE conjE exE)
  assume "portable uc a"
  then show ?thesis using portable_any_thread unfolding any_thread_allocator_def allocator_on_def by blast
next
  fix top assume a: "a = Recycling_Allocator" and top: "\<forall>stack \<in> K. cs_top stack = top"
  have "eptr_allocate uc stack sz a = tib_allocate (cs_top stack) sz"
    "eptr_deallocate uc stack sz a = (\<lambda>p. tib_deallocate (cs_top stack) p sz)" for stack
    by (simp_all add: a fun_eq_iff eptr_allocate_def eptr_deallocate_def rebind_alloc_def
        get_recycling_allocator_def ba_allocate_def ba_deallocate_def ra_allocate_def ra_deallocate_def)
  with top show ?thesis unfolding allocator_on_def using tib.operation_allocator_axioms by metis
qed

lemma serves_stateless: "serves K uc a \<Longrightarrow> \<not> has_state uc a"
  using portable_stateless by (auto simp: serves_def has_state_def)

subsection \<open>Well-formed memory\<close>

text \<open>
  \<open>m0\<close> is the memory before the first event. The operations held by the scheduler have distinct
  places, each taken from an allocator of its own kind, and what is handed out is exactly what was
  handed out at first and those places.
\<close>

definition held_well :: "thread_contexts set \<Rightarrow> ('h, 'c) user_code \<Rightarrow> memory \<Rightarrow> ('h, 'c) allocator held_ops \<Rightarrow> bool" where
  "held_well K uc m0 st \<longleftrightarrow>
     (case st of (ops, m) \<Rightarrow>
        mem_inv m \<and> distinct (map (snd \<circ> snd) ops) \<and>
        (\<forall>q. handed_out m q \<longleftrightarrow> handed_out m0 q \<or> q \<in> (snd \<circ> snd) ` set ops) \<and>
        (\<forall>(a, sz, v) \<in> set ops.
          \<not> handed_out m0 v \<and> \<not> has_state uc a \<and> (\<exists>own. allocator_on K uc a sz own \<and> own v)))"

lemma held_well_start: "mem_inv m0 \<Longrightarrow> held_well K uc m0 ([], m0)"
  by (simp add: held_well_def)

lemma eptr_reset_eq:
  "eptr_reset uc stack sz a \<lparr>ptr_v = None, ptr_p = None\<rparr> m = Inr (\<lparr>ptr_v = None, ptr_p = None\<rparr>, 0, m)"
  "eptr_deallocate uc stack sz a v m = Inr m' \<Longrightarrow>
     eptr_reset uc stack sz a \<lparr>ptr_v = Some v, ptr_p = None\<rparr> m = Inr (\<lparr>ptr_v = None, ptr_p = None\<rparr>, 0, m')"
  "eptr_deallocate uc stack sz a v m = Inr m' \<Longrightarrow>
     eptr_reset uc stack sz a \<lparr>ptr_v = Some v, ptr_p = Some v\<rparr> m = Inr (\<lparr>ptr_v = None, ptr_p = None\<rparr>, 1, m')"
  by (simp_all add: eptr_reset_def eptr_deallocate_def ptr_reset_def)

lemma eptr_reset_in_op_eq:
  "eptr_reset_in_op uc stack sz a \<lparr>ptr_v = x, ptr_p = None\<rparr> m = eptr_reset uc stack sz a \<lparr>ptr_v = x, ptr_p = None\<rparr> m"
  "\<not> has_state uc a \<Longrightarrow> eptr_deallocate uc stack sz a v m = Inr m' \<Longrightarrow>
     eptr_reset_in_op uc stack sz a \<lparr>ptr_v = Some v, ptr_p = Some v\<rparr> m = Inr (\<lparr>ptr_v = None, ptr_p = None\<rparr>, 1, m')"
  by (simp_all add: eptr_reset_in_op_def eptr_reset_eq)

lemma held_well_post:
  assumes st: "held_well K uc m0 (ops, m)" and a: "serves K uc a" and stack: "stack \<in> K"
  shows "\<exists>st'. run_event (eptr_allocate uc) (eptr_reset_in_op uc) (stack, Post a sz) (ops, m) = Inr st' \<and> held_well K uc m0 st'"
    "\<exists>st'. run_event (eptr_allocate uc) (eptr_reset_in_op uc) (stack, Post_Throws a sz) (ops, m) = Inr st' \<and> held_well K uc m0 st'"
proof -
  obtain own where any: "allocator_on K uc a sz own" using serves_allocator [OF a] by blast
  then have al: "operation_allocator mem_inv handed_out own (eptr_allocate uc stack sz a) (eptr_deallocate uc stack sz a)"
    using stack by (simp add: allocator_on_def)
  have inv: "mem_inv m" using st by (simp add: held_well_def)
  obtain v m1 where v: "eptr_allocate uc stack sz a m = (v, m1)" by force
  note taken = operation_allocator.alloc_inv [OF al inv v] operation_allocator.alloc_fresh [OF al inv v]
    operation_allocator.alloc_out [OF al inv v] operation_allocator.alloc_own [OF al v]
  have "held_well K uc m0 (ops @ [(a, sz, v)], m1)"
    using st taken any serves_stateless [OF a] by (auto simp: held_well_def)
  then show "\<exists>st'. run_event (eptr_allocate uc) (eptr_reset_in_op uc) (stack, Post a sz) (ops, m) = Inr st' \<and> held_well K uc m0 st'"
    by (simp add: v eptr_reset_eq eptr_reset_in_op_eq)
  obtain m2 where m2: "eptr_deallocate uc stack sz a v m1 = Inr m2" "mem_inv m2" "\<forall>q. handed_out m2 q \<longleftrightarrow> handed_out m q"
    using operation_allocator.alloc_dealloc [OF al inv v] by blast
  then have "held_well K uc m0 (ops, m2)" using st by (simp add: held_well_def)
  with m2(1) show "\<exists>st'. run_event (eptr_allocate uc) (eptr_reset_in_op uc) (stack, Post_Throws a sz) (ops, m) = Inr st' \<and> held_well K uc m0 st'"
    by (simp add: v eptr_reset_eq eptr_reset_in_op_eq)
qed

lemma held_well_complete:
  assumes st: "held_well K uc m0 (ops, m)" and stack: "stack \<in> K"
  shows "\<exists>st'. run_event (eptr_allocate uc) (eptr_reset_in_op uc) (stack, Completed j) (ops, m) = Inr st' \<and> held_well K uc m0 st'"
proof (cases "j < length ops")
  case True
  obtain a sz v where op: "ops ! j = (a, sz, v)" by (cases "ops ! j")
  have split: "ops = take j ops @ (a, sz, v) # drop (Suc j) ops" using id_take_nth_drop [OF True] op by simp
  then have mem: "(a, sz, v) \<in> set ops" by (metis in_set_conv_decomp)
  then obtain own where any: "allocator_on K uc a sz own" and own: "own v" and plain: "\<not> has_state uc a" using st by (auto simp: held_well_def)
  have held: "mem_inv m" "handed_out m v" using st mem by (force simp: held_well_def)+
  from any have "operation_allocator mem_inv handed_out own (eptr_allocate uc stack sz a) (eptr_deallocate uc stack sz a)"
    using stack by (simp add: allocator_on_def)
  from operation_allocator.dealloc_ok [OF this held own] obtain m' where m': "eptr_deallocate uc stack sz a v m = Inr m'" "mem_inv m'"
      "\<forall>q. handed_out m' q \<longleftrightarrow> handed_out m q \<and> q \<noteq> v"
    by blast
  have "held_well K uc m0 (take j ops @ (a, sz, v) # drop (Suc j) ops, m)" using st split by simp
  then have "held_well K uc m0 (take j ops @ drop (Suc j) ops, m')"
    using m' by (auto simp: held_well_def)
  with True op m'(1) plain show ?thesis by (simp add: eptr_reset_in_op_eq)
qed (use st in simp)

lemma held_well_events:
  assumes "held_well K uc m0 st"
    and "\<And>stack e a. (stack, e) \<in> set es \<Longrightarrow> event_owner e = Some a \<Longrightarrow> serves K uc a"
    and "fst ` set es \<subseteq> K"
  shows "\<exists>st'. run_events (eptr_allocate uc) (eptr_reset_in_op uc) es st = Inr st' \<and> held_well K uc m0 st'"
  using assms
proof (induction es arbitrary: st)
  case (Cons x es)
  obtain stack e ops m where x: "x = (stack, e)" "st = (ops, m)" by (cases x, cases st)
  have stack: "stack \<in> K" using Cons.prems(3) x by simp
  have well: "held_well K uc m0 (ops, m)" using Cons.prems(1) x by simp
  have owner: "serves K uc a" if "event_owner e = Some a" for a
    using Cons.prems(2) [of stack e a] x that by simp
  have "\<exists>st'. run_event (eptr_allocate uc) (eptr_reset_in_op uc) x st = Inr st' \<and> held_well K uc m0 st'"
  proof (cases e)
    case (Post a sz)
    then show ?thesis using held_well_post(1) [OF well owner stack, of a sz] x by simp
  next
    case (Post_Throws a sz)
    then show ?thesis using held_well_post(2) [OF well owner stack, of a sz] x by simp
  next
    case (Completed j)
    then show ?thesis using held_well_complete [OF well stack, of j] x by simp
  qed
  then obtain st1 where st1: "run_event (eptr_allocate uc) (eptr_reset_in_op uc) x st = Inr st1" "held_well K uc m0 st1"
    by blast
  have more: "serves K uc a" if "(stack, e) \<in> set es" "event_owner e = Some a" for stack e a
    using Cons.prems(2) that by (meson list.set_intros(2))
  from Cons.IH [OF st1(2) more] st1(1) Cons.prems(3) show ?case by simp
qed simp

text \<open>C27. Memory of operations is well typed: the allocation, the \<open>ptr\<close> and the \<open>do_complete\<close> of
  \<open>executor_op\<close>, under any sequence of posts, of constructions that throw and of completions, by
  threads of any call stacks, with \<open>std::allocator\<close>, with user allocators that keep the allocator
  contract and have no members, and with \<open>recycling_allocator\<close> when all of the sequence happens in one
  thread: no step is undefined, no two live operations share memory, and what is handed out is what
  was handed out before and one place per live operation, so nothing is leaked when none is left.
  Left out is what does go wrong: allocators with state, which \<open>do_complete\<close> reads after it destroyed
  them, and \<open>recycling_allocator\<close> across threads. Overloaded hooks play no part in \<open>executor_op\<close>.\<close>

theorem operation_memory_stays_well_formed:
  assumes "mem_inv m0"
    and "\<And>stack e a. (stack, e) \<in> set es \<Longrightarrow> event_owner e = Some a \<Longrightarrow> serves (fst ` set es) uc a"
  shows "\<exists>ops m. run_events (eptr_allocate uc) (eptr_reset_in_op uc) es ([], m0) = Inr (ops, m) \<and>
    mem_inv m \<and> distinct (map (snd \<circ> snd) ops) \<and>
    (\<forall>(a, sz, v) \<in> set ops. \<not> handed_out m0 v) \<and>
    (\<forall>q. handed_out m q \<longleftrightarrow> handed_out m0 q \<or> q \<in> (snd \<circ> snd) ` set ops)"
  using held_well_events [OF held_well_start [OF assms(1)] assms(2) subset_refl] by (force simp: held_well_def)

text \<open>Without that: completing an operation whose allocator has a member is undefined.\<close>

lemma stateful_allocator_undefined:
  assumes "has_state uc a"
  shows "run_events (eptr_allocate uc) (eptr_reset_in_op uc) [(stack, Post a sz), (stack', Completed 0)] ([], m) =
    Inl Undefined_Behaviour"
  using assms by (simp add: eptr_reset_in_op_def eptr_reset_eq split: prod.splits)

definition demo_user :: "(nat, nat) user_code" where
  "demo_user = \<lparr>uc_has_hooks = True, uc_handler_allocate = (\<lambda>h. None), uc_handler_deallocate = (\<lambda>h. None),
     uc_stateless = (\<lambda>c. True), uc_allocate = (\<lambda>c sz. operator_new), uc_deallocate = (\<lambda>c p sz. operator_delete p)\<rparr>"

abbreviation demo_heap :: memory where
  "demo_heap \<equiv> \<lparr>in_use = (\<lambda>_. False), live = [1], fresh = 4\<rparr>"

text \<open>Posted by a thread inside a run of context 0, completed by a thread outside any.\<close>

theorem operation_memory_stays_well_formed_witness:
  "\<exists>ops m. run_events (eptr_allocate demo_user) (eptr_reset_in_op demo_user)
      [([(0, 7)], Post (User_Allocator 2) 64), ([(0, 7)], Post Std_Allocator 48), ([], Completed 0)] ([], demo_heap) =
      Inr (ops, m) \<and> (\<forall>q. handed_out m q \<longleftrightarrow> handed_out demo_heap q \<or> q \<in> (snd \<circ> snd) ` set ops)"
proof -
  have "user_contract demo_user 2"
    unfolding user_contract_def using heap.operation_allocator_axioms by (auto simp: demo_user_def)
  then have "serves (fst ` set [([(0 :: nat, 7 :: nat)], Post (User_Allocator 2) 64), ([(0, 7)], Post Std_Allocator 48), ([], Completed 0)]) demo_user a" if "event_owner e = Some a" "(stack, e) \<in> set
      [([(0 :: nat, 7 :: nat)], Post (User_Allocator 2) 64), ([(0, 7)], Post Std_Allocator 48), ([], Completed 0)]"
      for stack e a
    using that by (auto simp: serves_def portable_def demo_user_def)
  with operation_memory_stays_well_formed [of demo_heap "[([(0, 7)], Post (User_Allocator 2) 64),
      ([(0, 7)], Post Std_Allocator 48), ([], Completed 0)]" demo_user] show ?thesis
    by (fastforce simp: mem_inv_def)
qed

subsection \<open>The three owners are one\<close>

lemma aptr_eq: "aptr_allocate uc = eptr_allocate uc" "aptr_reset uc = eptr_reset uc"
  by (simp_all add: fun_eq_iff aptr_allocate_def eptr_allocate_def aptr_reset_def eptr_reset_def ptr_reset_def
      Let_def split: option.split)

lemma hook_or_heap:
  assumes "default_hooks uc h"
  shows "ba_allocate uc stack (rebind_alloc (get_hook_allocator h a) sz) n =
      ba_allocate uc stack (rebind_alloc (get_recycling_allocator a) sz) n"
    "ba_deallocate uc stack (rebind_alloc (get_hook_allocator h a) sz) v n =
      ba_deallocate uc stack (rebind_alloc (get_recycling_allocator a) sz) v n"
  using default_hooks_heap [OF assms]
  by (cases a; simp add: fun_eq_iff get_hook_allocator_def get_recycling_allocator_def rebind_alloc_def
      ba_allocate_def ba_deallocate_def)+

lemma hptr_eq:
  assumes "default_hooks uc (fst h)"
  shows "hptr_allocate uc stack sz h = eptr_allocate uc stack sz (handler_allocator h)"
    "hptr_reset uc stack sz h = eptr_reset uc stack sz (handler_allocator h)"
  by (simp_all add: fun_eq_iff hptr_allocate_def eptr_allocate_def hptr_reset_def eptr_reset_def ptr_reset_def
      Let_def hook_or_heap [OF assms] del: One_nat_def split: option.split)

text \<open>Reading the handlers of held operations and events as their allocators.\<close>

abbreviation as_allocators :: "('h, 'c) handler held_ops \<Rightarrow> ('h, 'c) allocator held_ops" where
  "as_allocators \<equiv> apfst (map (apfst handler_allocator))"

abbreviation allocator_events ::
    "(thread_contexts \<times> ('h, 'c) handler memory_event) list \<Rightarrow> (thread_contexts \<times> ('h, 'c) allocator memory_event) list" where
  "allocator_events \<equiv> map (apsnd (map_memory_event handler_allocator))"

lemma hptr_event:
  assumes "\<And>h. event_owner e = Some h \<Longrightarrow> default_hooks uc (fst h)"
    and "\<forall>op \<in> set ops. default_hooks uc (fst (fst op))"
  shows "map_sum id as_allocators (run_event (hptr_allocate uc) (hptr_reset uc) (stack, e) (ops, m)) =
      run_event (eptr_allocate uc) (eptr_reset uc) (stack, map_memory_event handler_allocator e) (as_allocators (ops, m))"
proof (cases e)
  case (Completed j)
  have "hptr_reset uc stack sz h = eptr_reset uc stack sz (handler_allocator h)"
    if "j < length ops" "ops ! j = (h, sz, v)" for h sz v
    using that assms(2) hptr_eq(2) by (metis fst_conv nth_mem)
  with Completed show ?thesis
    by (auto simp: take_map drop_map split: prod.splits sum.splits)
qed (use assms(1) in \<open>auto simp: hptr_eq split: prod.splits sum.splits\<close>)

lemma hptr_events:
  assumes "\<And>stack e h. (stack, e) \<in> set es \<Longrightarrow> event_owner e = Some h \<Longrightarrow> default_hooks uc (fst h)"
    and "\<forall>op \<in> set ops. default_hooks uc (fst (fst op))"
  shows "map_sum id as_allocators (run_events (hptr_allocate uc) (hptr_reset uc) es (ops, m)) =
      run_events (eptr_allocate uc) (eptr_reset uc) (allocator_events es) (as_allocators (ops, m))"
  using assms
proof (induction es arbitrary: ops m)
  case (Cons x es)
  obtain stack e where x: "x = (stack, e)" by force
  have own: "default_hooks uc (fst h)" if "event_owner e = Some h" for h
    using Cons.prems(1) x that by (metis list.set_intros(1))
  have more: "\<And>stack e h. (stack, e) \<in> set es \<Longrightarrow> event_owner e = Some h \<Longrightarrow> default_hooks uc (fst h)"
    using Cons.prems(1) by (metis list.set_intros(2))
  note ev = hptr_event [where e = e and ops = ops and stack = stack and m = m, OF own Cons.prems(2), symmetric]
  show ?case
  proof (cases "run_event (hptr_allocate uc) (hptr_reset uc) (stack, e) (ops, m)")
    case (Inl f)
    with ev x show ?thesis by simp
  next
    case (Inr st')
    obtain ops' m' where st': "st' = (ops', m')" by force
    have "\<forall>op \<in> set ops'. default_hooks uc (fst (fst op))"
      using run_event_owners [OF Inr [unfolded st'], of "\<lambda>h. default_hooks uc (fst h)"] own Cons.prems(2) by blast
    from Cons.IH [OF more this] Inr ev x st' show ?thesis by simp
  qed
qed simp

text \<open>C28. The three \<open>ptr\<close> structs are interchangeable: for handlers whose hooks are not overloaded, the
  struct of \<^verbatim>\<open>BOOST_ASIO_DEFINE_HANDLER_PTR\<close> (which goes through \<open>hook_allocator\<close>), the one of
  \<^verbatim>\<open>BOOST_ASIO_DEFINE_HANDLER_ALLOCATOR_PTR\<close> and the one of \<open>executor_op\<close> lead any sequence of posts,
  throwing constructions and completions, on any threads and from any memory, to the same faults,
  the same live operations at the same places and the same memory. (Each with the object its first
  member points at alive, as while building an operation.)\<close>

theorem operation_owners_agree:
  assumes "\<And>stack e h. (stack, e) \<in> set es \<Longrightarrow> event_owner e = Some h \<Longrightarrow> default_hooks uc (fst h)"
  shows "map_sum id as_allocators (run_events (hptr_allocate uc) (hptr_reset uc) es ([], m)) =
      run_events (eptr_allocate uc) (eptr_reset uc) (allocator_events es) ([], m) \<and>
    run_events (aptr_allocate uc) (aptr_reset uc) (allocator_events es) ([], m) =
      run_events (eptr_allocate uc) (eptr_reset uc) (allocator_events es) ([], m)"
  using hptr_events [where es = es and uc = uc and ops = "[]" and m = m, OF assms] by (simp add: aptr_eq)

theorem operation_owners_agree_witness:
  "\<exists>ops m. run_events (hptr_allocate demo_user) (hptr_reset demo_user)
      [([(0, 7)], Post (5, None) 64), ([], Post (6, Some Recycling_Allocator) 48), ([], Completed 0)] ([], demo_heap) =
      Inr (ops, m) \<and>
    run_events (aptr_allocate demo_user) (aptr_reset demo_user)
      [([(0, 7)], Post Std_Allocator 64), ([], Post Recycling_Allocator 48), ([], Completed 0)] ([], demo_heap) =
      Inr (as_allocators (ops, m))"
proof -
  let ?es = "[([(0, 7)], Post (5, None) 64), ([], Post (6, Some Recycling_Allocator) 48), ([], Completed 0)]
    :: (thread_contexts \<times> (nat, nat) handler memory_event) list"
  have "default_hooks demo_user h" for h by (simp add: default_hooks_def demo_user_def)
  note agree = operation_owners_agree [of ?es demo_user demo_heap, OF this]
  have es: "allocator_events ?es =
      [([(0, 7)], Post Std_Allocator 64), ([], Post Recycling_Allocator 48), ([], Completed 0)]"
    by (simp add: handler_allocator_def associated_allocator_def get_associated_allocator_def)
  obtain ops m where run: "run_events (hptr_allocate demo_user) (hptr_reset demo_user) ?es ([], demo_heap) = Inr (ops, m)"
    by (simp add: hptr_allocate_def hptr_reset_def handler_allocator_def choice_defs ba_allocate_def ba_deallocate_def
        demo_user_def ra_allocate_def tib_allocate_def cs_top_def operator_new_def)
  have "run_events (aptr_allocate demo_user) (aptr_reset demo_user) (allocator_events ?es) ([], demo_heap) =
      Inr (as_allocators (ops, m))"
    using agree [THEN conjunct1] agree [THEN conjunct2] run by (simp only: map_sum.simps)
  with run es show ?thesis by (simp only:) blast
qed

subsection \<open>Recycling\<close>

lemma heap_keeps_slots:
  "operator_new m = (v, m') \<Longrightarrow> in_use m' = in_use m"
  "operator_delete p m = Inr m' \<Longrightarrow> in_use m' = in_use m"
  by (cases p; auto simp: operator_new_def split: if_splits)+

lemma std_reset:
  "eptr_reset uc (stack :: thread_contexts) sz Std_Allocator x m = ptr_reset operator_delete x m"
proof -
  have "(\<lambda>v. ba_deallocate uc stack (rebind_alloc (get_recycling_allocator Std_Allocator) sz) v 1) = operator_delete"
    by (simp add: fun_eq_iff eptr_family(2) [unfolded fun_eq_iff eptr_deallocate_def, rule_format] del: One_nat_def)
  then show ?thesis by (simp only: eptr_reset_def)
qed

lemma ptr_reset_slots: "ptr_reset operator_delete x m = Inr (x', n, m') \<Longrightarrow> in_use m' = in_use m"
  by (auto simp: ptr_reset_def Let_def split: option.splits sum.splits dest: heap_keeps_slots(2))

text \<open>The default allocator never uses the slot of a thread: \<open>get_recycling_allocator\<close> maps
  \<open>std::allocator\<close> to itself and not to \<open>recycling_allocator\<close>.\<close>

theorem default_memory_not_recycled:
  assumes "\<forall>(stack, e) \<in> set es. event_owner e \<in> {None, Some Std_Allocator}"
    and "\<forall>op \<in> set ops. fst op = Std_Allocator"
    and "run_events (eptr_allocate uc) (eptr_reset uc) es (ops, m) = Inr (ops', m')"
  shows "in_use m' = in_use m"
  using assms
proof (induction es arbitrary: ops m)
  case (Cons x es)
  obtain stack e where x: "x = (stack, e)" by force
  obtain ops1 m1 where step: "run_event (eptr_allocate uc) (eptr_reset uc) (stack, e) (ops, m) = Inr (ops1, m1)"
    and rest: "run_events (eptr_allocate uc) (eptr_reset uc) es (ops1, m1) = Inr (ops', m')"
    using Cons.prems(3) x by (auto split: sum.splits)
  have own: "\<And>a. event_owner e = Some a \<Longrightarrow> a = Std_Allocator" using Cons.prems(1) x by auto
  have held: "\<forall>op \<in> set ops1. fst op = Std_Allocator"
    using run_event_owners [OF step, of "\<lambda>a. a = Std_Allocator"] own Cons.prems(2) by blast
  have "in_use m1 = in_use m"
  proof (cases e)
    case (Completed j)
    have "fst (ops ! j) = Std_Allocator" if "j < length ops" using that Cons.prems(2) by auto
    with Completed step show ?thesis
      by (auto simp: std_reset split: if_splits prod.splits sum.splits dest: ptr_reset_slots)
  qed (use step own in \<open>auto simp: std_reset eptr_family split: prod.splits sum.splits
      dest!: ptr_reset_slots heap_keeps_slots(1)\<close>)
  with Cons.IH [OF _ held rest] Cons.prems(1) show ?case by simp
qed simp

theorem default_memory_not_recycled_witness:
  "\<exists>ops m. run_events (eptr_allocate demo_user) (eptr_reset demo_user)
      [([(0, 7)], Post Std_Allocator 64)] ([], demo_heap) = Inr (ops, m) \<and> \<not> in_use m 7"
proof -
  obtain ops m where run: "run_events (eptr_allocate demo_user) (eptr_reset demo_user)
      [([(0, 7)], Post Std_Allocator 64)] ([], demo_heap) = Inr (ops, m)"
    by (simp add: eptr_family std_reset operator_new_def ptr_reset_def)
  with default_memory_not_recycled [OF _ _ this] show ?thesis by simp
qed

end
