(* ===== verification/Quiet_Steps.thy ===== *)
theory Quiet_Steps
  imports Scheduler_Properties
begin

text \<open>
  Executions of the system of threads in which nobody calls \<open>stop()\<close> of his own accord, and the
  program of \<^verbatim>\<open>main.cc\<close>, which is one: what holds as long as somebody keeps a work guard.
\<close>

subsection \<open>Steps without stop\<close>

text \<open>
  A step that stops the scheduler is the \<open>stop()\<close> of a thread that has seen the count of work reach
  zero, or finds it stopped already.
\<close>

definition quiet_step :: "nat \<Rightarrow> shared \<Rightarrow> thread \<Rightarrow> shared \<Rightarrow> thread \<Rightarrow> bool" where
  "quiet_step self sh t sh' t' \<longleftrightarrow>
     local_step self sh t sh' t' \<and>
     (sch_stopped (sh_sched sh') \<longrightarrow> sch_stopped (sh_sched sh) \<or> th_must_stop t)"

inductive quiet_sys :: "nat \<Rightarrow> system \<Rightarrow> system \<Rightarrow> bool" for self :: nat where
  spawn: "quiet_sys self (sh, ts) (sh, ts @ [new_thread])"
| step: "i < length ts \<Longrightarrow> quiet_step self sh (ts ! i) sh' t' \<Longrightarrow>
     quiet_sys self (sh, ts) (sh', ts[i := t'])"

inductive_cases quiet_sysE: "quiet_sys self (sh, ts) sy'"

text \<open>Executions in which a guard is held throughout, with fewer than \<open>2 ^ 64\<close> operations.\<close>

definition guarded :: "system \<Rightarrow> bool" where
  "guarded sy \<longleftrightarrow> 0 < sh_guards (fst sy) \<and> work_total (fst sy) (snd sy) < 2 ^ 64"

inductive guarded_run :: "nat \<Rightarrow> system \<Rightarrow> system \<Rightarrow> bool" for self :: nat where
  refl: "guarded sy \<Longrightarrow> guarded_run self sy sy"
| step: "guarded_run self sy sy' \<Longrightarrow> quiet_sys self sy' sy'' \<Longrightarrow> guarded sy'' \<Longrightarrow> guarded_run self sy sy''"

lemma quiet_sys_step: "quiet_sys self sy sy' \<Longrightarrow> sys_step self sy sy'"
  by (auto elim!: quiet_sys.cases simp: quiet_step_def intro: sys_step.intros)

subsection \<open>What a step can do to the count and to the threads\<close>

lemma owes_goto_next: "th_must_stop (goto_next n nx t) = th_must_stop t"
  by (cases nx) simp_all

lemma owes_stop_when_zero:
  assumes "local_step self sh t sh' t'" and "th_must_stop t'" and "\<not> th_must_stop t"
  shows "sch_outstanding_work (sh_sched sh') = 0"
  using assms(1)
  by (cases rule: local_step.cases)
     (use assms(2,3) in \<open>auto simp: decrement_work_eq set_info_def owes_goto_next\<close>)

lemma loop_head_returns: "loop_head s = (s', Return_Zero) \<Longrightarrow> sch_stopped s"
  by (cases s rule: loop_head_cases) (auto simp: loop_head_simps)

lemma wait_return_returns: "wait_return s = (s', Return_Zero) \<Longrightarrow> sch_stopped s"
  by (cases s rule: wait_return_cases) (auto dest: loop_head_returns)

lemma goto_next_returned: "th_pc (goto_next n nx t) = Returned k \<Longrightarrow> nx = Return_Zero"
  by (cases nx) simp_all

lemma returns_only_when_over:
  assumes "local_step self sh t sh' t'" and "th_pc t' = Returned n"
  shows "th_pc t = Returned n \<or> sch_stopped (sh_sched sh) \<or> sch_outstanding_work (sh_sched sh) = 0"
  using assms(1)
proof (cases rule: local_step.cases)
  case (task_relock m s1 ti s' nx)
  moreover have "sch_stopped s1 = sch_stopped (sh_sched sh)"
    using task_relock by (auto simp: task_cleanup_locked_def push_private_queue_eq push_op_def)
  ultimately show ?thesis using assms(2) by (auto dest: goto_next_returned loop_head_returns)
qed (use assms(2) in \<open>auto dest!: goto_next_returned loop_head_returns wait_return_returns simp: set_info_def\<close>)

subsection \<open>A guard keeps every run going\<close>

definition going :: "system \<Rightarrow> bool" where
  "going sy \<longleftrightarrow> \<not> sch_stopped (sh_sched (fst sy)) \<and> (\<forall>t \<in> set (snd sy). \<not> th_must_stop t)"

lemma guarded_counts:
  assumes "system_inv self (sh, ts)" "guarded (sh, ts)"
  shows "sch_outstanding_work (sh_sched sh) \<noteq> 0"
  using zero_count_no_work [OF assms(1)] assms(2) by (auto simp: guarded_def work_total_def)

lemma quiet_step_going:
  assumes "system_inv self (sh, ts)" "guarded (sh, ts)" "going (sh, ts)" "i < length ts"
    and "quiet_step self sh (ts ! i) sh' t'" and "guarded (sh', ts[i := t'])"
  shows "going (sh', ts[i := t']) \<and> (\<forall>n. th_pc t' = Returned n \<longrightarrow> th_pc (ts ! i) = Returned n)"
proof -
  have st: "local_step self sh (ts ! i) sh' t'" using assms(5) by (simp add: quiet_step_def)
  have owe: "\<not> th_must_stop (ts ! i)" using assms(3,4) by (simp add: going_def)
  have "system_inv self (sh', ts[i := t'])" using assms(1,4) st by (rule system_inv_step)
  with assms(6) have "sch_outstanding_work (sh_sched sh') \<noteq> 0" by (rule guarded_counts [rotated -1])
  with owes_stop_when_zero [OF st] owe have "\<not> th_must_stop t'" by blast
  moreover have "\<not> sch_stopped (sh_sched sh')" using assms(3,5) owe by (simp add: quiet_step_def going_def)
  ultimately have "going (sh', ts[i := t'])"
    using assms(3) by (auto simp: going_def dest!: subsetD [OF set_update_subset_insert])
  moreover have "sch_outstanding_work (sh_sched sh) \<noteq> 0" using assms(1,2) by (rule guarded_counts)
  ultimately show ?thesis
    using returns_only_when_over [OF st] assms(3) by (auto simp: going_def)
qed

text \<open>Threads of the later state keep their place; new ones come at the end.\<close>

definition no_new_return :: "thread list \<Rightarrow> thread list \<Rightarrow> bool" where
  "no_new_return ts ts' \<longleftrightarrow> length ts \<le> length ts' \<and>
     (\<forall>i < length ts'. \<forall>n. th_pc (ts' ! i) = Returned n \<longrightarrow> i < length ts \<and> th_pc (ts ! i) = Returned n)"

lemma no_new_return_refl: "no_new_return ts ts"
  by (simp add: no_new_return_def)

lemma no_new_return_trans: "no_new_return ts ts' \<Longrightarrow> no_new_return ts' ts'' \<Longrightarrow> no_new_return ts ts''"
  by (auto simp: no_new_return_def)

lemma quiet_sys_going:
  assumes "quiet_sys self sy sy'" "system_inv self sy" "guarded sy" "going sy" "guarded sy'"
  shows "system_inv self sy' \<and> going sy' \<and> no_new_return (snd sy) (snd sy')"
  using assms(1)
proof cases
  case (spawn sh ts)
  with assms have "system_inv self sy'" by (simp add: system_inv_spawn)
  moreover have "going sy'" using assms(4) spawn by (auto simp: going_def new_thread_def)
  ultimately show ?thesis using spawn by (auto simp: no_new_return_def nth_append new_thread_def split: if_splits)
next
  case (step i ts sh sh' t')
  then have "system_inv self sy'" using assms(2) by (auto simp: quiet_step_def intro: system_inv_step)
  moreover have "going sy' \<and> (\<forall>n. th_pc t' = Returned n \<longrightarrow> th_pc (ts ! i) = Returned n)"
    using quiet_step_going [of self sh ts i sh' t'] assms(2-5) step by simp
  ultimately show ?thesis using step by (auto simp: no_new_return_def nth_list_update split: if_splits)
qed

lemma guarded_run_going:
  assumes "guarded_run self sy sy'" "system_inv self sy" "going sy"
  shows "guarded sy \<and> guarded sy' \<and> system_inv self sy' \<and> going sy' \<and> no_new_return (snd sy) (snd sy')"
  using assms
proof (induction rule: guarded_run.induct)
  case (refl sy)
  then show ?case by (simp add: no_new_return_refl)
next
  case (step sy sy' sy'')
  with quiet_sys_going [OF step.hyps(2)] show ?case using no_new_return_trans by blast
qed

text \<open>C16. As long as somebody holds a work guard and nobody calls \<open>stop()\<close>, the scheduler is not
  stopped and no \<open>run\<close> returns, whatever the interleaving of any number of threads, the operations
  they post, start, cancel and complete, and the threads that join: a thread that is back from \<open>run\<close>
  was so at the start.\<close>

theorem guard_keeps_run_going:
  assumes "reachable self (sh, ts)" and "\<not> sch_stopped (sh_sched sh)" and "\<forall>t \<in> set ts. \<not> th_must_stop t"
    and "guarded_run self (sh, ts) (sh', ts')"
  shows "\<not> sch_stopped (sh_sched sh') \<and> sch_outstanding_work (sh_sched sh') \<noteq> 0 \<and>
    (\<forall>i < length ts'. \<forall>n. th_pc (ts' ! i) = Returned n \<longrightarrow> i < length ts \<and> th_pc (ts ! i) = Returned n)"
proof -
  have "going (sh, ts)" using assms(2,3) by (simp add: going_def)
  from guarded_run_going [OF assms(4) reachable_inv [OF assms(1)] this]
  show ?thesis using guarded_counts [of self sh' ts'] by (simp add: going_def no_new_return_def)
qed

subsection \<open>The program main\<close>

text \<open>
  \<^verbatim>\<open>main.cc\<close> after its declarations: the \<open>io_context\<close> with the hint of its default constructor, one
  work guard on it, and a thread for each processor beside the main thread, all of which will
  call \<open>run\<close>. What \<open>main\<close> posts afterwards (\<open>init_task\<close> and a hundred \<open>print\<close>) and what the posted
  functions do are steps of the system, none of them a call to \<open>stop()\<close>; the guard lives until
  \<open>main\<close> is back from \<open>run\<close>.
\<close>

definition main_start :: "scheduler \<Rightarrow> nat \<Rightarrow> system" where
  "main_start raw hardware_concurrency =
     (let ioc = scheduler_ctor raw (1 + int hardware_concurrency);
          work = work_started ioc;
          threads = replicate hardware_concurrency new_thread
      in (\<lparr>sh_sched = work, sh_pending = {#}, sh_guards = 1\<rparr>, new_thread # threads))"

lemma reachable_spawned:
  "zeroed raw \<Longrightarrow> reachable self (initial_shared raw hint, replicate n new_thread)"
proof (induction n)
  case 0
  then show ?case by (simp add: reachable.start)
next
  case (Suc n)
  with sys_step.spawn [of self "initial_shared raw hint" "replicate n new_thread"] show ?case
    by (simp add: replicate_append_same) (metis reachable.step replicate_Suc)
qed

lemma reachable_main:
  assumes "zeroed raw"
  shows "reachable self (main_start raw n)"
proof -
  let ?ts = "replicate (Suc n) new_thread" and ?sh = "initial_shared raw (1 + int n)"
  have "local_step self ?sh (?ts ! 0) (?sh\<lparr>sh_sched := work_started (sh_sched ?sh), sh_guards := Suc (sh_guards ?sh)\<rparr>) (?ts ! 0)"
    using local_step.call_work_started [OF demo_may_call, of self ?sh] by simp
  from sys_step.step [OF _ this] have "sys_step self (?sh, ?ts) (main_start raw n)"
    by (simp add: main_start_def initial_shared_def Let_def)
  with reachable_spawned [OF assms] show ?thesis by (rule reachable.step)
qed

text \<open>The program of \<^verbatim>\<open>main.cc\<close> never ends: the guard \<open>work\<close> is destroyed after \<open>ioc.run()\<close> has
  returned, so in every execution, on any number of processors, no thread's \<open>run\<close> returns and the
  scheduler is never stopped.\<close>

theorem main_never_returns:
  assumes "zeroed raw" and "guarded_run self (main_start raw n) (sh', ts')"
  shows "\<not> sch_stopped (sh_sched sh') \<and> (\<forall>t \<in> set ts'. \<forall>k. th_pc t \<noteq> Returned k)"
proof -
  obtain sh ts where start: "main_start raw n = (sh, ts)" by force
  then have "sh_sched sh = work_started (scheduler_ctor raw (1 + int n))" "ts = replicate (Suc n) new_thread"
    by (auto simp: main_start_def Let_def)
  then have "going (main_start raw n)" "\<forall>t \<in> set ts. \<forall>k. th_pc t \<noteq> Returned k"
    using assms(1) start
    by (auto simp: going_def zeroed_def new_thread_def work_started_def scheduler_ctor_def)
  with guarded_run_going [OF assms(2) reachable_inv [OF reachable_main [OF assms(1)]]] start
  show ?thesis by (fastforce simp: going_def no_new_return_def in_set_conv_nth)
qed

lemma demo_zeroed: "zeroed demo_raw"
  by (simp add: zeroed_def demo_raw_def)

text \<open>The main thread of a machine with one processor enters \<open>run\<close>.\<close>

lemma demo_main:
  "\<exists>sh ts. main_start demo_raw 1 = (sh, ts) \<and> reachable 0 (sh, ts) \<and> going (sh, ts) \<and>
     guarded_run 0 (sh, ts) (sh, ts[0 := new_thread\<lparr>th_pc := At_Loop 0, th_stack := [(0, fresh_info)]\<rparr>])"
proof -
  let ?t = "new_thread\<lparr>th_pc := At_Loop 0, th_stack := [(0, fresh_info)]\<rparr>"
  obtain sh ts where start: "main_start demo_raw 1 = (sh, ts)" by force
  then have eqs: "sh = \<lparr>sh_sched = work_started (scheduler_ctor demo_raw 2), sh_pending = {#}, sh_guards = 1\<rparr>"
      "ts = [new_thread, new_thread]"
    by (auto simp: main_start_def Let_def)
  have going: "going (sh, ts)"
    by (simp add: eqs going_def new_thread_def work_started_def scheduler_ctor_def demo_raw_def)
  have "local_step 0 sh (ts ! 0) sh ?t"
    using local_step.run_enter [of new_thread sh 0]
    by (simp add: eqs new_thread_def work_started_def scheduler_ctor_def demo_raw_def cs_enter_def)
  then have "quiet_step 0 sh (ts ! 0) sh ?t" by (simp add: quiet_step_def)
  then have "quiet_sys 0 (sh, ts) (sh, ts[0 := ?t])" by (intro quiet_sys.step) (simp_all add: eqs)
  moreover have "guarded (sh, ts)" "guarded (sh, ts[0 := ?t])"
    by (simp_all add: eqs guarded_def work_total_def th_queued_def new_thread_def scheduler_ctor_def work_started_def)
  ultimately have "guarded_run 0 (sh, ts) (sh, ts[0 := ?t])"
    by (blast intro: guarded_run.intros)
  moreover have "reachable 0 (sh, ts)"
    using reachable_main [of demo_raw 0 1] start by (metis demo_zeroed)
  ultimately show ?thesis using start going by blast
qed

theorem guard_keeps_run_going_witness:
  "\<exists>sh ts. reachable 0 (sh, ts) \<and> guarded_run 0 (sh, ts) (sh, ts) \<and> \<not> sch_stopped (sh_sched sh) \<and>
     sch_outstanding_work (sh_sched sh) \<noteq> 0"
proof -
  obtain sh ts where run: "reachable 0 (sh, ts)" "going (sh, ts)" "guarded_run 0 (sh, ts)
      (sh, ts[0 := new_thread\<lparr>th_pc := At_Loop 0, th_stack := [(0, fresh_info)]\<rparr>])"
    using demo_main by blast
  then have "guarded_run 0 (sh, ts) (sh, ts)" by (auto elim: guarded_run.cases intro: guarded_run.refl dest: guarded_run_going [OF _ reachable_inv])
  with guard_keeps_run_going [OF run(1) _ _ run(3)] run(1,2) show ?thesis by (auto simp: going_def)
qed

theorem main_never_returns_witness:
  "\<exists>sh ts. guarded_run 0 (main_start demo_raw 1) (sh, ts) \<and> th_pc (ts ! 0) = At_Loop 0 \<and>
     \<not> sch_stopped (sh_sched sh)"
proof -
  obtain sh ts where run: "main_start demo_raw 1 = (sh, ts)" "guarded_run 0 (sh, ts)
      (sh, ts[0 := new_thread\<lparr>th_pc := At_Loop 0, th_stack := [(0, fresh_info)]\<rparr>])"
    using demo_main by blast
  then have "0 < length ts" by (auto simp: main_start_def Let_def)
  then show ?thesis
    using demo_zeroed main_never_returns [of demo_raw 0 1] run
    by (intro exI [of _ sh] exI [of _ "ts[0 := new_thread\<lparr>th_pc := At_Loop 0, th_stack := [(0, fresh_info)]\<rparr>]"]) auto
qed

end
