(* ===== verification/Run_Steps.thy ===== *)
theory Run_Steps
  imports Quiet_Steps
begin

text \<open>
  The functions of Scheduler that describe \<open>run\<close> by one thread are executions of the steps of
  Threads. The relation \<open>run_steps\<close> also counts the calls user code makes on the way, so that the
  number of operations is bounded at every moment by what was there and what was called.
\<close>

subsection \<open>What a step does to the number of operations\<close>

lemma loop_head_work:
  "loop_head s = (s', nx) \<Longrightarrow> work_in (sch_op_queue s') + started nx = work_in (sch_op_queue s)"
  by (cases s rule: loop_head_cases) (auto simp: loop_head_simps frame_simps started_def)

lemma wait_return_work:
  "wait_return s = (s', nx) \<Longrightarrow> work_in (sch_op_queue s') + started nx = work_in (sch_op_queue s)"
  by (cases s rule: wait_return_cases) (auto simp: started_def dest: loop_head_work)

lemma goto_next_work:
  "executing (th_pc (goto_next n nx t)) = started nx" "th_queued (goto_next n nx t) \<le> th_queued t"
  by (cases nx; simp add: started_def)
     (cases nx; cases "th_stack t"; auto simp: th_queued_def cs_leave_def)

lemma outside_queued: "th_ok self t \<Longrightarrow> \<not> in_run (th_pc t) \<Longrightarrow> th_queued t = work_in (th_leaked t)"
  by (simp add: th_ok_def th_queued_def)

lemma call_post_work:
  assumes "th_ok self t" and "post_immediate_completion self op c s (th_stack t) = (s', stk)"
  shows "work_in (sch_op_queue s') + th_queued (t\<lparr>th_stack := stk\<rparr>) \<le> work_in (sch_op_queue s) + th_queued t + 1"
proof -
  obtain ti where "th_stack t = [] \<or> th_stack t = [(self, ti)]" using th_ok_stack [OF assms(1)] by blast
  then show ?thesis
  proof
    assume "th_stack t = []"
    with assms(2) show ?thesis
      by (auto simp: post_immediate_completion_def th_queued_def frame_simps push_op_def oq_push_def
          work_started_def Let_def split: if_splits)
  next
    assume "th_stack t = [(self, ti)]"
    with assms(2) show ?thesis
      by (cases t) (auto simp: post_immediate_completion_def th_queued_def frame_simps push_op_def oq_push_def
          work_started_def Let_def split: if_splits)
  qed
qed

lemma deferred_work:
  assumes "th_stack t = [] \<or> th_stack t = [(self, ti)]"
    and "post_deferred_completions self (map Reactor_Op is) s (th_stack t) = (s', stk, lost)"
  shows "work_in (sch_op_queue s') + th_queued (t\<lparr>th_stack := stk, th_leaked := th_leaked t @ lost\<rparr>) =
    work_in (sch_op_queue s) + th_queued t + length is"
  using assms
  by (auto simp: post_deferred_completions_def th_queued_def frame_simps oq_splice_def Let_def
      split: if_splits)

lemma th_queued_pc [simp]:
  "th_queued (t\<lparr>th_pc := p\<rparr>) = th_queued t" "th_queued (t\<lparr>th_must_stop := b\<rparr>) = th_queued t"
  by (simp_all add: th_queued_def)

lemma th_queued_set_info:
  "th_ok self t \<Longrightarrow> in_run (th_pc t) \<Longrightarrow>
   th_queued (set_info self ti t) + work_in (private_op_queue (th_info self t)) =
   th_queued t + work_in (private_op_queue ti)"
  by (auto simp: th_ok_def th_queued_def set_info_def th_info_def)

text \<open>Only a call from user code can add an operation or a guard, and it adds one at most.\<close>

lemma call_work:
  "may_call t \<Longrightarrow> executing (th_pc t) = (if in_handler (th_pc t) then 1 else 0)"
  by (cases "th_pc t") (auto simp: may_call_def)

lemma work_kept:
  "sch_op_queue (work_started s) = sch_op_queue s"
  "sch_op_queue (sch_restart s) = sch_op_queue s"
  "work_in (sch_op_queue (init_task r s)) = work_in (sch_op_queue s)"
  "is_work op \<Longrightarrow> work_in (sch_op_queue (do_dispatch op s)) = work_in (sch_op_queue s) + 1"
  "decrement_work s = (s', z) \<Longrightarrow> sch_op_queue s' = sch_op_queue s"
  "flush_private_work s ti = (s', ti') \<Longrightarrow> sch_op_queue s' = sch_op_queue s"
  by (auto simp: work_started_def sch_restart_def init_task_def do_dispatch_def push_op_def oq_push_def
      decrement_work_eq flush_private_work_def frame_simps Let_def)

lemma local_step_total:
  assumes "local_step self sh t sh' t'" and ok: "th_ok self t"
  shows "work_total sh' [t'] \<le> work_total sh [t] + of_bool (may_call t \<and> th_pc t' = th_pc t)"
  using assms(1)
proof (cases rule: local_step.cases)
  case (turn n s' nx)
  with loop_head_work [of "sh_sched sh" s' nx] goto_next_work [of n nx t] show ?thesis
    by (simp add: work_total_def)
next
  case (wake n s' nx)
  with wait_return_work [of "sh_sched sh" s' nx] goto_next_work [of n nx t] show ?thesis
    by (simp add: work_total_def)
next
  case (task_run n usec ti ds)
  with th_queued_set_info [OF ok, of ti] show ?thesis
    by (simp add: work_total_def set_info_def th_queued_def)
next
  case (task_flush n s' ti)
  have "private_op_queue ti = private_op_queue (th_info self t)" using flush_info task_flush by fastforce
  with task_flush th_queued_set_info [OF ok, of ti] work_kept(6) show ?thesis
    by (simp add: work_total_def set_info_def th_queued_def)
next
  case (task_relock n s1 ti s' nx)
  have "sch_op_queue s1 = sch_op_queue (sh_sched sh) @ private_op_queue (th_info self t) @ [Task_Operation]"
    "private_op_queue ti = []"
    using task_relock by (auto simp: task_cleanup_locked_def push_private_queue_eq push_op_def oq_push_def)
  with task_relock loop_head_work [of s1 s' nx] goto_next_work [of n nx "set_info self ti t"]
    th_queued_set_info [OF ok, of ti] show ?thesis
    by (simp add: work_total_def)
next
  case (perform_io n d i "is" s' stk lost)
  obtain ti where st: "th_stack t = [] \<or> th_stack t = [(self, ti)]" using th_ok_stack [OF ok] by blast
  have "work_in (sch_op_queue s') + th_queued (t\<lparr>th_stack := stk, th_leaked := th_leaked t @ lost\<rparr>) =
      work_in (sch_op_queue (sh_sched sh)) + th_queued t + length is"
    using perform_io(5) deferred_work [OF st, of "is" "sh_sched sh" s' stk lost] by (cases "is = []") auto
  moreover have "size (sh_pending sh) = size (sh_pending sh - mset (i # is)) + length (i # is)"
    using perform_io(4) by (metis add.commute size_Diff_submset size_mset size_mset_mono le_add_diff_inverse)
  ultimately show ?thesis using perform_io by (simp add: work_total_def th_queued_def)
next
  case (work_flush n s' ti)
  have "private_op_queue ti = private_op_queue (th_info self t)" using flush_info work_flush by fastforce
  with work_flush th_queued_set_info [OF ok, of ti] work_kept(6) show ?thesis
    by (simp add: work_total_def set_info_def th_queued_def)
next
  case (relock_throws n s' ti)
  then show ?thesis using ok
    by (auto simp: work_total_def th_ok_def th_queued_def cs_leave_def push_private_queue_eq th_info_def)
next
  case (call_post op c s' stk)
  with call_post_work [OF ok, of op c "sh_sched sh" s' stk] show ?thesis by (simp add: work_total_def)
next
  case (call_cancel_ops "is" s' stk lost)
  obtain ti where st: "th_stack t = [] \<or> th_stack t = [(self, ti)]" using th_ok_stack [OF ok] by blast
  have "size (sh_pending sh) = size (sh_pending sh - mset is) + length is"
    using call_cancel_ops(4) by (metis add.commute size_Diff_submset size_mset size_mset_mono le_add_diff_inverse)
  with call_cancel_ops deferred_work [OF st, of "is" "sh_sched sh" s' stk lost] show ?thesis
    by (simp add: work_total_def th_queued_def)
qed (use ok outside_ok [of "th_pc t"] in
     \<open>auto simp: work_total_def work_kept frame_simps th_queued_def cs_enter_def cs_leave_def th_ok_def\<close>)

lemma total_update:
  assumes "i < length ts" "work_total sh' [t'] \<le> work_total sh [ts ! i] + c"
  shows "work_total sh' (ts[i := t']) \<le> work_total sh ts + c"
  using assms(2) sum_list_map_update_nat [OF assms(1), of th_queued t']
    sum_list_map_update_nat [OF assms(1), of "executing \<circ> th_pc" t']
  by (simp add: work_total_def)

text \<open>Only the \<open>stop()\<close> a thread owes and calls from user code can stop the scheduler.\<close>

lemma loop_head_stops: "loop_head s = (s', nx) \<Longrightarrow> sch_stopped s' = sch_stopped s"
  by (cases s rule: loop_head_cases) (auto simp: loop_head_simps frame_simps)

lemma wait_return_stops: "wait_return s = (s', nx) \<Longrightarrow> sch_stopped s' = sch_stopped s"
  by (cases s rule: wait_return_cases) (auto dest: loop_head_stops)

lemma stopped_kept:
  "decrement_work s = (s', z) \<Longrightarrow> sch_stopped s' = sch_stopped s"
  "flush_private_work s ti = (s', ti') \<Longrightarrow> sch_stopped s' = sch_stopped s"
  "push_private_queue s ti = (s', ti') \<Longrightarrow> sch_stopped s' = sch_stopped s"
  "task_cleanup_locked s ti = (s', ti') \<Longrightarrow> sch_stopped s' = sch_stopped s"
  "post_immediate_completion self op c s stk = (s', stk') \<Longrightarrow> sch_stopped s' = sch_stopped s"
  "post_deferred_completions self ops s stk = (s', stk', lost) \<Longrightarrow> sch_stopped s' = sch_stopped s"
  by (auto simp: decrement_work_eq flush_private_work_def push_private_queue_eq task_cleanup_locked_def
      push_op_def work_started_def post_immediate_completion_def post_deferred_completions_def
      oq_splice_def frame_simps Let_def split: if_splits option.splits)

lemma who_stops:
  assumes "local_step self sh t sh' t'" and "sch_stopped (sh_sched sh')" and "\<not> sch_stopped (sh_sched sh)"
  shows "th_must_stop t \<or> may_call t \<and> th_pc t' = th_pc t"
  using assms(1)
proof (cases rule: local_step.cases)
  case (perform_io n d i "is" s' stk lost)
  then have "sch_stopped s' = sch_stopped (sh_sched sh)"
    using perform_io_post [OF perform_io(5)] stopped_kept(6) by metis
  with perform_io assms(2,3) show ?thesis by simp
next
  case (task_relock n s1 ti s' nx)
  then show ?thesis using assms(2,3) by (simp add: loop_head_stops stopped_kept(4))
qed (use assms(2,3) in \<open>auto simp: loop_head_stops wait_return_stops stopped_kept\<close>)

subsection \<open>Executions inside run\<close>

text \<open>
  A configuration is the shared state, the running thread and the number of calls user code has
  made. With \<open>allow\<close> the thread may call \<open>stop()\<close>. A call that finds nothing to do is no step of
  the system.
\<close>

type_synonym config = "shared \<times> thread \<times> nat"

definition run_step :: "nat \<Rightarrow> bool \<Rightarrow> config \<Rightarrow> config \<Rightarrow> bool" where
  "run_step self allow c c' \<longleftrightarrow>
     (case c of (sh, t, k) \<Rightarrow> case c' of (sh', t', k') \<Rightarrow>
        (sh', t') = (sh, t) \<and> k \<le> k' \<or>
        local_step self sh t sh' t' \<and> in_run (th_pc t) \<and> (allow \<or> quiet_step self sh t sh' t') \<and>
        k \<le> k' \<and> work_total sh' [t'] + k \<le> work_total sh [t] + k')"

abbreviation run_steps :: "nat \<Rightarrow> bool \<Rightarrow> config \<Rightarrow> config \<Rightarrow> bool" where
  "run_steps self allow \<equiv> (run_step self allow)\<^sup>*\<^sup>*"

lemma run_step_machine:
  assumes "local_step self sh t sh' t'" and "th_ok self t" and "in_run (th_pc t)"
    and "th_pc t' \<noteq> th_pc t \<or> \<not> may_call t"
  shows "run_step self allow (sh, t, k) (sh', t', k)"
  using assms who_stops [OF assms(1)] local_step_total [OF assms(1,2)]
  by (auto simp: run_step_def quiet_step_def split: if_splits)

lemma run_step_call:
  assumes "local_step self sh t sh' t'" and "th_ok self t" and "in_run (th_pc t)"
    and "allow \<or> (sch_stopped (sh_sched sh') \<longrightarrow> sch_stopped (sh_sched sh))"
  shows "run_step self allow (sh, t, k) (sh', t', Suc k)"
  using assms local_step_total [OF assms(1,2)]
  by (auto simp: run_step_def quiet_step_def of_bool_def split: if_splits)

lemma run_steps_th_ok:
  assumes "run_steps self allow (sh, t, k) (sh', t', k')" and "th_ok self t"
  shows "th_ok self t'"
proof -
  have "run_steps self allow c c' \<Longrightarrow> th_ok self (fst (snd c)) \<Longrightarrow> th_ok self (fst (snd c'))" for c c'
    by (induction rule: rtranclp_induct) (auto simp: run_step_def dest: local_step_balance)
  from this [OF assms(1)] assms(2) show ?thesis by simp
qed

text \<open>The number of operations never exceeds what was there and the calls made.\<close>

lemma run_steps_total:
  assumes "run_steps self allow (sh, t, k) (sh', t', k')"
  shows "k \<le> k' \<and> work_total sh' [t'] + k \<le> work_total sh [t] + k'"
proof -
  have "run_steps self allow c c' \<Longrightarrow> snd (snd c) \<le> snd (snd c') \<and>
      work_total (fst c') [fst (snd c')] + snd (snd c) \<le> work_total (fst c) [fst (snd c)] + snd (snd c')" for c c'
    by (induction rule: rtranclp_induct) (auto simp: run_step_def)
  from this [OF assms] show ?thesis by simp
qed

text \<open>An execution of one thread is one of the system, at the place of the thread.\<close>

lemma run_steps_sys:
  assumes "run_steps self allow (sh, t, k) (sh', t', k')" and "i < length ts"
  shows "(sys_step self)\<^sup>*\<^sup>* (sh, ts[i := t]) (sh', ts[i := t'])"
proof -
  have "run_steps self allow c c' \<Longrightarrow>
      (sys_step self)\<^sup>*\<^sup>* (fst c, ts[i := fst (snd c)]) (fst c', ts[i := fst (snd c')])" for c c'
  proof (induction rule: rtranclp_induct)
    case (step c1 c2)
    obtain sh1 t1 k1 sh2 t2 k2 where c: "c1 = (sh1, t1, k1)" "c2 = (sh2, t2, k2)" by (metis prod_cases3)
    then consider "sh2 = sh1" "t2 = t1" | "local_step self sh1 t1 sh2 t2"
      using step.hyps(2) by (auto simp: run_step_def)
    then show ?case
    proof cases
      case 2
      with assms(2) have "sys_step self (sh1, ts[i := t1]) (sh2, ts[i := t1, i := t2])"
        by (intro sys_step.step) auto
      with step.IH c show ?thesis by simp
    qed (use step.IH c in simp)
  qed simp
  from this [OF assms(1)] show ?thesis by simp
qed

text \<open>
  Without \<open>stop()\<close> and with fewer than \<open>2 ^ 64\<close> operations: once the thread has seen no work, or the
  scheduler is stopped, there is none.
\<close>

definition idle_when_over :: "nat \<Rightarrow> config \<Rightarrow> bool" where
  "idle_when_over self c \<longleftrightarrow>
     (case c of (sh, t, k) \<Rightarrow> system_inv self (sh, [t]) \<and>
        (sch_stopped (sh_sched sh) \<or> th_must_stop t \<longrightarrow> work_total sh [t] = 0))"

lemma idle_when_over_step:
  assumes "run_step self False (sh, t, k) (sh', t', k')" and "idle_when_over self (sh, t, k)"
    and "work_total sh' [t'] < 2 ^ 64"
  shows "idle_when_over self (sh', t', k')"
proof (cases "(sh', t') = (sh, t)")
  case True
  with assms(2) show ?thesis by (simp add: idle_when_over_def)
next
  case False
  then have step: "local_step self sh t sh' t'" "quiet_step self sh t sh' t'" and run: "in_run (th_pc t)"
    using assms(1) by (auto simp: run_step_def)
  have inv: "system_inv self (sh, [t])" using assms(2) by (simp add: idle_when_over_def)
  then have ok: "th_ok self t" by (simp add: system_inv_def)
  have inv': "system_inv self (sh', [t'])"
    using system_inv_step [OF inv _ , of 0 sh' t'] step(1) by simp
  show ?thesis
  proof (cases "work_total sh [t] = 0")
    case True
    then have "\<not> in_handler (th_pc t)" by (cases "th_pc t") (auto simp: work_total_def)
    moreover have "\<not> is_outside (th_pc t)" using run outside_ok by blast
    ultimately have "\<not> may_call t" by (simp add: may_call_def)
    with local_step_total [OF step(1) ok] True inv' show ?thesis by (simp add: idle_when_over_def)
  next
    case False
    then have "\<not> sch_stopped (sh_sched sh)" "\<not> th_must_stop t"
      using assms(2) by (auto simp: idle_when_over_def)
    moreover from this have "\<not> sch_stopped (sh_sched sh')" using step(2) by (simp add: quiet_step_def)
    moreover have "work_total sh' [t'] = 0" if "th_must_stop t'"
      using owes_stop_when_zero [OF step(1) that] \<open>\<not> th_must_stop t\<close> zero_count_no_work [OF inv'] assms(3) by simp
    ultimately show ?thesis using inv' by (auto simp: idle_when_over_def)
  qed
qed

lemma idle_when_over_steps:
  assumes "run_steps self False (sh, t, k) (sh', t', k')" and "idle_when_over self (sh, t, k)"
    and "work_total sh [t] + k' < 2 ^ 64 + k"
  shows "idle_when_over self (sh', t', k')"
proof -
  have "run_steps self False c c' \<Longrightarrow> run_steps self False c' (sh', t', k') \<Longrightarrow> c = (sh, t, k) \<Longrightarrow>
      idle_when_over self c'" for c c'
  proof (induction rule: rtranclp_induct)
    case base
    with assms(2) show ?case by simp
  next
    case (step c1 c2)
    obtain sh1 t1 k1 sh2 t2 k2 where c: "c1 = (sh1, t1, k1)" "c2 = (sh2, t2, k2)"
      by (metis prod_cases3)
    have "idle_when_over self c1" using step by (auto intro: converse_rtranclp_into_rtranclp)
    moreover have "run_steps self False (sh, t, k) (sh2, t2, k2)"
      using step.hyps step.prems(2) c by (metis rtranclp.rtrancl_into_rtrancl)
    from run_steps_total [OF this] run_steps_total [of self False sh2 t2 k2 sh' t' k'] step.prems(1) c(2) assms(3)
    have "work_total sh2 [t2] < 2 ^ 64" by simp
    ultimately show ?case using idle_when_over_step step.hyps(2) c by blast
  qed
  with assms(1) show ?thesis by blast
qed

end
