(* ===== verification/Run_Refinement.thy ===== *)
theory Run_Refinement
  imports Run_Steps
begin

text \<open>
  \<open>do_run_one\<close>, \<open>run_loop\<close> and \<open>sched_run\<close> of theory Scheduler, one thread running alone with
  handlers and a reactor as parameters, simulate the steps of theory Threads, when the handlers and
  the reactor do. The interface is the locale \<open>run_world\<close>; theory Whole_Run provides it.
\<close>

subsection \<open>The rest of the world\<close>

text \<open>What the steps of the system see of the world a handler runs in, and whether it is still sound.\<close>

record 'w view =
  vw_ok :: "'w \<Rightarrow> bool"
  vw_pending :: "'w \<Rightarrow> nat multiset"
  vw_guards :: "'w \<Rightarrow> nat"
  vw_leaked :: "'w \<Rightarrow> op_ref list"
  vw_calls :: "'w \<Rightarrow> nat"

definition world_shared :: "'w view \<Rightarrow> 'w \<Rightarrow> scheduler \<Rightarrow> shared" where
  "world_shared vw w s = \<lparr>sh_sched = s, sh_pending = vw_pending vw w, sh_guards = vw_guards vw w\<rparr>"

definition world_thread :: "'w view \<Rightarrow> 'w \<Rightarrow> pc \<Rightarrow> thread_stack \<Rightarrow> thread" where
  "world_thread vw w p stk = \<lparr>th_pc = p, th_stack = stk, th_must_stop = False, th_leaked = vw_leaked vw w\<rparr>"

definition config :: "'w view \<Rightarrow> 'w \<Rightarrow> scheduler \<Rightarrow> pc \<Rightarrow> thread_stack \<Rightarrow> config" where
  "config vw w s p stk = (world_shared vw w s, world_thread vw w p stk, vw_calls vw w)"

text \<open>The configuration after a turn of the loop.\<close>

definition config_next :: "'w view \<Rightarrow> 'w \<Rightarrow> scheduler \<Rightarrow> size_t \<Rightarrow> run_next \<Rightarrow> thread_stack \<Rightarrow> config" where
  "config_next vw w s n nx stk =
     (world_shared vw w s, goto_next n nx (world_thread vw w (At_Loop n) stk), vw_calls vw w)"

lemma config_next_simps:
  "config_next vw w s n Return_Zero stk = config vw w s (Returned n) (cs_leave stk)"
  "config_next vw w s n (Run_Task u) stk = config vw w s (In_Task n u) stk"
  "config_next vw w s n (Complete op) stk = config vw w s (In_Op n op) stk"
  by (simp_all add: config_next_def config_def world_thread_def)

text \<open>
  \<open>c\<close> is about to enter a turn of the loop in \<open>s\<close>: it reaches whatever \<open>loop_head\<close> makes of it.
\<close>

definition enters :: "nat \<Rightarrow> bool \<Rightarrow> 'w view \<Rightarrow> config \<Rightarrow> 'w \<Rightarrow> scheduler \<Rightarrow> size_t \<Rightarrow> thread_stack \<Rightarrow> bool" where
  "enters self allow vw c w s n stk \<longleftrightarrow>
     (\<forall>s' nx. loop_head s = (s', nx) \<longrightarrow> run_steps self allow c (config_next vw w s' n nx stk))"

text \<open>The count of \<open>run\<close>, which does not wrap.\<close>

definition next_count :: "size_t \<Rightarrow> size_t" where
  "next_count n = (if n \<noteq> - 1 then n + 1 else n)"

lemma enters_at_loop:
  assumes "th_ok self (world_thread vw w (At_Loop n) stk)"
    and "run_steps self allow c (config vw w s (At_Loop n) stk)"
  shows "enters self allow vw c w s n stk"
  unfolding enters_def
proof (intro allI impI)
  fix s' nx assume lh: "loop_head s = (s', nx)"
  let ?t = "world_thread vw w (At_Loop n) stk"
  have pc: "th_pc (goto_next n nx ?t) \<noteq> th_pc ?t" by (cases nx) (simp_all add: world_thread_def)
  have "local_step self (world_shared vw w s) ?t ((world_shared vw w s)\<lparr>sh_sched := s'\<rparr>) (goto_next n nx ?t)"
    using lh by (intro local_step.turn) (simp_all add: world_thread_def world_shared_def)
  then have "local_step self (world_shared vw w s) ?t (world_shared vw w s') (goto_next n nx ?t)"
    by (simp add: world_shared_def)
  from run_step_machine [OF this assms(1) _ disjI1 [OF pc]] assms(2)
  show "run_steps self allow c (config_next vw w s' n nx stk)"
    by (auto simp: config_def config_next_def world_thread_def intro: rtranclp.rtrancl_into_rtrancl)
qed

subsection \<open>The clean-ups\<close>

lemma frame_of:
  assumes "th_ok self (world_thread vw w p stk)" "in_run p"
  obtains ti where "stk = [(self, ti)]"
  using assms by (auto simp: th_ok_def world_thread_def)

lemma config_step:
  assumes "local_step self sh t sh' t'" and "th_ok self t" and "in_run (th_pc t)"
    and "th_pc t' \<noteq> th_pc t \<or> \<not> may_call t" and "run_steps self allow c (sh, t, k)"
  shows "run_steps self allow c (sh', t', k) \<and> th_ok self t'"
  using run_step_machine [OF assms(1-4), of allow k] assms(5) local_step_balance [OF assms(1,2)]
  by (auto intro: rtranclp.rtrancl_into_rtrancl)

lemma work_cleanup_steps:
  assumes ok: "th_ok self (world_thread vw w (After_Op n) stk)"
    and wc: "on_this_thread self work_cleanup s stk = (s', stk', owns)" and "\<not> owns"
    and c: "run_steps self allow c (config vw w s (After_Op n) stk)"
  shows "run_steps self allow c (config vw w s' (At_Loop (next_count n)) stk') \<and>
    th_ok self (world_thread vw w (At_Loop (next_count n)) stk')"
proof -
  obtain ti where stk: "stk = [(self, ti)]" using ok by (auto elim: frame_of)
  let ?sh = "world_shared vw w" and ?t = "world_thread vw w"
  obtain s1 ti1 where fl: "flush_private_work s ti = (s1, ti1)" by force
  obtain s2 zero where dec: "decrement_work s1 = (s2, zero)" by force
  have fin: "work_finished s1 = (if zero then sch_stop s2 else s2)" by (simp add: work_finished_def dec)
  have none_left: "private_op_queue ti1 = []" and out: "s' = work_finished s1" "stk' = [(self, ti1)]"
    using wc stk fl assms(3) by (auto simp: on_this_thread_def work_cleanup_def oq_empty_def Let_def split: if_splits prod.splits)
  have "local_step self (?sh s) (?t (After_Op n) stk) (?sh s1) (?t (Work_Dec n) [(self, ti1)])"
    using local_step.work_flush [of "?t (After_Op n) stk" n "?sh s" self s1 ti1] fl stk
    by (simp add: world_shared_def world_thread_def th_info_def set_info_def)
  from config_step [OF this ok _ _ c [unfolded config_def]]
  have 1: "run_steps self allow c (?sh s1, ?t (Work_Dec n) [(self, ti1)], vw_calls vw w)"
    "th_ok self (?t (Work_Dec n) [(self, ti1)])" by (simp_all add: world_thread_def)
  have "local_step self (?sh s1) (?t (Work_Dec n) [(self, ti1)]) (?sh s2)
      ((?t (Push_Private n) [(self, ti1)])\<lparr>th_must_stop := zero\<rparr>)"
    using local_step.work_dec [of "?t (Work_Dec n) [(self, ti1)]" n "?sh s1" s2 zero self] dec
    by (simp add: world_shared_def world_thread_def)
  from config_step [OF this 1(2) _ _ 1(1)]
  have 2: "run_steps self allow c (?sh s2, (?t (Push_Private n) [(self, ti1)])\<lparr>th_must_stop := zero\<rparr>, vw_calls vw w)"
    "th_ok self ((?t (Push_Private n) [(self, ti1)])\<lparr>th_must_stop := zero\<rparr>)" by (simp_all add: world_thread_def)
  have 3: "run_steps self allow c (?sh s', ?t (Push_Private n) [(self, ti1)], vw_calls vw w) \<and>
      th_ok self (?t (Push_Private n) [(self, ti1)])"
  proof (cases zero)
    case True
    have "local_step self (?sh s2) ((?t (Push_Private n) [(self, ti1)])\<lparr>th_must_stop := zero\<rparr>) (?sh s')
        (?t (Push_Private n) [(self, ti1)])"
      using local_step.must_stop [of "(?t (Push_Private n) [(self, ti1)])\<lparr>th_must_stop := zero\<rparr>" self "?sh s2"]
        True fin out by (simp add: world_shared_def world_thread_def)
    from config_step [OF this 2(2) _ _ 2(1)] True show ?thesis by (simp add: world_thread_def may_call_def)
  next
    case False
    then have "(?t (Push_Private n) [(self, ti1)])\<lparr>th_must_stop := zero\<rparr> = ?t (Push_Private n) [(self, ti1)]"
      by (simp add: world_thread_def)
    with 2 False fin out show ?thesis by simp
  qed
  have "local_step self (?sh s') (?t (Push_Private n) [(self, ti1)]) (?sh s') (?t (At_Loop (next_count n)) stk')"
    using local_step.next_turn [of "?t (Push_Private n) [(self, ti1)]" n self "?sh s'"] none_left out
    by (simp add: world_thread_def th_info_def oq_empty_def next_count_def)
  from config_step [OF this conjunct2 [OF 3] _ _ conjunct1 [OF 3]] show ?thesis
    by (simp add: config_def world_thread_def)
qed

lemma task_cleanup_steps:
  assumes ok: "th_ok self (world_thread vw w (Task_Done n) stk)"
    and tc: "on_this_thread self (\<lambda>s ti. case task_cleanup s ti of (s, ti) \<Rightarrow> (s, ti, ())) s stk = (s', stk', u)"
    and c: "run_steps self allow c (config vw w s (Task_Done n) stk)"
  shows "enters self allow vw c w s' n stk'"
proof -
  obtain ti where stk: "stk = [(self, ti)]" using ok by (auto elim: frame_of)
  let ?sh = "world_shared vw w" and ?t = "world_thread vw w"
  obtain s1 ti1 where fl: "flush_private_work s ti = (s1, ti1)" by force
  obtain s2 ti2 where tl: "task_cleanup_locked s1 ti1 = (s2, ti2)" by force
  have out: "s' = s2" "stk' = [(self, ti2)]"
    using tc stk fl tl by (auto simp: on_this_thread_def task_cleanup_def)
  have "local_step self (?sh s) (?t (Task_Done n) stk) (?sh s1) (?t (Task_Flushed n) [(self, ti1)])"
    using local_step.task_flush [of "?t (Task_Done n) stk" n "?sh s" self s1 ti1] fl stk
    by (simp add: world_shared_def world_thread_def th_info_def set_info_def)
  from config_step [OF this ok _ _ c [unfolded config_def]]
  have 1: "run_steps self allow c (?sh s1, ?t (Task_Flushed n) [(self, ti1)], vw_calls vw w)"
    "th_ok self (?t (Task_Flushed n) [(self, ti1)])" by (simp_all add: world_thread_def)
  show ?thesis
    unfolding enters_def
  proof (intro allI impI)
    fix s3 nx assume lh: "loop_head s' = (s3, nx)"
    let ?u = "goto_next n nx (?t (At_Loop n) stk')"
    have u: "goto_next n nx (?t (Task_Flushed n) stk') = ?u" by (cases nx) (simp_all add: world_thread_def)
    have pc: "th_pc ?u \<noteq> Task_Flushed n" by (cases nx) (simp_all add: world_thread_def)
    have "local_step self (?sh s1) (?t (Task_Flushed n) [(self, ti1)]) (?sh s3) ?u"
      using local_step.task_relock [of "?t (Task_Flushed n) [(self, ti1)]" n "?sh s1" self s2 ti2 s3 nx] tl lh out u
      by (simp add: world_shared_def world_thread_def th_info_def set_info_def)
    from config_step [OF this 1(2) _ _ 1(1)] pc
    show "run_steps self allow c (config_next vw w s3 n nx stk')"
      by (simp add: config_next_def world_thread_def)
  qed
qed

subsection \<open>The interface\<close>

text \<open>
  What \<open>run\<close> asks of the handlers and of the reactor: completing an operation, from its taking off
  the queue to the end of its handler, and running the reactor are executions of the system; a world
  that is sound afterwards was sound before.
\<close>

locale run_world =
  fixes self :: nat and allow :: bool and vw :: "'w view"
    and complete :: "op_ref \<Rightarrow> 'w run_state \<Rightarrow> 'w run_state"
    and task_run :: "int \<Rightarrow> 'w run_state \<Rightarrow> 'w run_state"
  assumes complete_ok: "complete op (s, stk, w) = (s', stk', w') \<Longrightarrow> vw_ok vw w' \<Longrightarrow> vw_ok vw w"
    and task_ok: "task_run usec (s, stk, w) = (s', stk', w') \<Longrightarrow> vw_ok vw w' \<Longrightarrow> vw_ok vw w"
    and complete_steps: "complete op (s, stk, w) = (s', stk', w') \<Longrightarrow> vw_ok vw w' \<Longrightarrow>
      th_ok self (world_thread vw w (In_Op n op) stk) \<Longrightarrow>
      run_steps self allow (config vw w s (In_Op n op) stk) (config vw w' s' (After_Op n) stk')"
    and task_steps: "task_run usec (s, stk, w) = (s', stk', w') \<Longrightarrow> vw_ok vw w' \<Longrightarrow>
      th_ok self (world_thread vw w (In_Task n usec) stk) \<Longrightarrow>
      run_steps self allow (config vw w s (In_Task n usec) stk) (config vw w' s' (Task_Done n) stk')"
begin

text \<open>What is shown of one call of \<open>do_run_one\<close>, and of the loop.\<close>

definition one_ok :: "'w run_state \<Rightarrow> nat \<times> bool \<times> 'w run_state \<Rightarrow> bool" where
  "one_ok st res \<longleftrightarrow>
     (case st of (s, stk, w) \<Rightarrow> case res of (r, owns, s', stk', w') \<Rightarrow>
        vw_ok vw w' \<longrightarrow> vw_ok vw w \<and>
        (\<forall>n c. th_ok self (fst (snd c)) \<and> enters self allow vw c w s n stk \<longrightarrow>
          (r = 0 \<longrightarrow> run_steps self allow c (config vw w' s' (Returned n) (cs_leave stk')) \<and> sch_stopped s') \<and>
          (r \<noteq> 0 \<and> \<not> owns \<longrightarrow>
             run_steps self allow c (config vw w' s' (At_Loop (next_count n)) stk') \<and>
             th_ok self (world_thread vw w' (At_Loop (next_count n)) stk'))))"

definition loop_ok :: "size_t \<Rightarrow> 'w run_state \<Rightarrow> fault + size_t \<times> 'w run_state \<Rightarrow> bool" where
  "loop_ok n st res \<longleftrightarrow>
     (case st of (s, stk, w) \<Rightarrow>
        (\<forall>n' s' stk' w'. res = Inr (n', s', stk', w') \<and> vw_ok vw w' \<longrightarrow> vw_ok vw w \<and>
          (\<forall>c. th_ok self (fst (snd c)) \<and> th_ok self (world_thread vw w (At_Loop n) stk) \<and>
             run_steps self allow c (config vw w s (At_Loop n) stk) \<longrightarrow>
             run_steps self allow c (config vw w' s' (Returned n') (cs_leave stk')) \<and> sch_stopped s')))"

lemma run_steps_config_ok:
  assumes "run_steps self allow c (config vw w s p stk)" "th_ok self (fst (snd c))"
  shows "th_ok self (world_thread vw w p stk)"
  using assms run_steps_th_ok by (cases c) (auto simp: config_def)

lemma one_stopped: "loop_head s = (s1, Return_Zero) \<Longrightarrow> one_ok (s, stk, w) (0, True, s1, stk, w)"
  by (auto simp: one_ok_def enters_def config_next_simps dest: loop_head_returns loop_head_stops)

lemma one_complete:
  assumes lh: "loop_head s = (s1, Complete op)" and op: "complete op (s1, stk, w) = (s2, stk2, w2)"
    and wc: "on_this_thread self work_cleanup s2 stk2 = (s3, stk3, owns)"
  shows "one_ok (s, stk, w) (1, owns, s3, stk3, w2)"
  unfolding one_ok_def
proof (clarsimp, intro conjI impI allI)
  assume ok: "vw_ok vw w2"
  then show "vw_ok vw w" using op complete_ok by blast
  fix n sh t k
  assume c: "th_ok self t \<and> enters self allow vw (sh, t, k) w s n stk" and "\<not> owns"
  with lh have "run_steps self allow (sh, t, k) (config vw w s1 (In_Op n op) stk)"
    by (auto simp: enters_def config_next_simps)
  moreover from run_steps_config_ok [OF this] c have "th_ok self (world_thread vw w (In_Op n op) stk)" by simp
  ultimately have "run_steps self allow (sh, t, k) (config vw w2 s2 (After_Op n) stk2)"
    using complete_steps [OF op ok] by (blast intro: rtranclp_trans)
  with work_cleanup_steps [OF run_steps_config_ok [OF this] wc \<open>\<not> owns\<close> this] c
  show "run_steps self allow (sh, t, k) (config vw w2 s3 (At_Loop (next_count n)) stk3)"
    "th_ok self (world_thread vw w2 (At_Loop (next_count n)) stk3)" by auto
qed

lemma one_task:
  assumes lh: "loop_head s = (s1, Run_Task usec)" and task: "task_run usec (s1, stk, w) = (s2, stk2, w2)"
    and tc: "on_this_thread self (\<lambda>s ti. case task_cleanup s ti of (s, ti) \<Rightarrow> (s, ti, ())) s2 stk2 = (s3, stk3, u)"
    and rest: "one_ok (s3, stk3, w2) res"
  shows "one_ok (s, stk, w) res"
proof -
  obtain r owns s' stk' w' where res: "res = (r, owns, s', stk', w')" by (metis prod_cases5)
  have ok: "vw_ok vw w2" if "vw_ok vw w'" using rest res that by (simp add: one_ok_def)
  have "enters self allow vw c w2 s3 n stk3"
    if c: "th_ok self (fst (snd c))" "enters self allow vw c w s n stk" and "vw_ok vw w'" for c n
  proof -
    have 1: "run_steps self allow c (config vw w s1 (In_Task n usec) stk)"
      using lh c(2) by (auto simp: enters_def config_next_simps)
    from task_steps [OF task ok [OF that(3)] run_steps_config_ok [OF this c(1)]]
    have "run_steps self allow c (config vw w2 s2 (Task_Done n) stk2)" using 1 by (blast intro: rtranclp_trans)
    from task_cleanup_steps [OF run_steps_config_ok [OF this c(1)] tc this] show ?thesis .
  qed
  then show ?thesis using rest res ok task task_ok unfolding one_ok_def by fastforce
qed

lemma do_run_one_ok:
  assumes "do_run_one self complete task_run st = Some res"
  shows "one_ok st res"
proof -
  let ?P = "\<lambda>i comp task st res. i = self \<and> comp = complete \<and> task = task_run \<longrightarrow> one_ok st res"
  have "?P self complete task_run st res"
  proof (rule do_run_one.raw_induct [where P = ?P, OF _ assms], intro impI, elim conjE)
    fix f :: "nat \<Rightarrow> (op_ref \<Rightarrow> 'w run_state \<Rightarrow> 'w run_state) \<Rightarrow> (int \<Rightarrow> 'w run_state \<Rightarrow> 'w run_state) \<Rightarrow>
        'w run_state \<Rightarrow> (nat \<times> bool \<times> 'w run_state) option"
      and i comp task and st :: "'w run_state" and res
    assume IH: "\<And>i comp task st res. f i comp task st = Some res \<Longrightarrow> ?P i comp task st res"
      and body: "(case loop_head (fst st) of (s1, next_step) \<Rightarrow>
        (case next_step of
           Return_Zero \<Rightarrow> Some (0, True, s1, snd st)
         | Block \<Rightarrow> None
         | Run_Task usec \<Rightarrow>
             (case task usec (s1, snd st) of (s2, stk2, w2) \<Rightarrow>
              case on_this_thread i (\<lambda>s ti. case task_cleanup s ti of (s, ti) \<Rightarrow> (s, ti, ())) s2 stk2 of
                (s3, stk3, _) \<Rightarrow> f i comp task (s3, stk3, w2))
         | Complete o_ptr \<Rightarrow>
             (case comp o_ptr (s1, snd st) of (s2, stk2, w2) \<Rightarrow>
              case on_this_thread i work_cleanup s2 stk2 of
                (s3, stk3, owns) \<Rightarrow> Some (1, owns, s3, stk3, w2)))) = Some res"
      and eqs: "i = self" "comp = complete" "task = task_run"
    obtain s stk w where st: "st = (s, stk, w)" by (metis prod_cases3)
    obtain s1 nx where lh: "loop_head s = (s1, nx)" by force
    show "one_ok st res"
    proof (cases nx)
      case Return_Zero
      with body lh st one_stopped show ?thesis by auto
    next
      case (Run_Task usec)
      obtain s2 stk2 w2 where task: "task_run usec (s1, stk, w) = (s2, stk2, w2)" by (metis prod_cases3)
      obtain s3 stk3 u where
        tc: "on_this_thread self (\<lambda>s ti. case task_cleanup s ti of (s, ti) \<Rightarrow> (s, ti, ())) s2 stk2 = (s3, stk3, u)"
        by (metis prod_cases3)
      have "f i comp task (s3, stk3, w2) = Some res"
        using body Run_Task lh st eqs task tc by simp
      with IH eqs have "one_ok (s3, stk3, w2) res" by blast
      with one_task [OF _ task tc] lh Run_Task st show ?thesis by simp
    next
      case (Complete op)
      obtain s2 stk2 w2 where op: "complete op (s1, stk, w) = (s2, stk2, w2)" by (metis prod_cases3)
      obtain s3 stk3 owns where wc: "on_this_thread self work_cleanup s2 stk2 = (s3, stk3, owns)"
        by (metis prod_cases3)
      have "res = (1, owns, s3, stk3, w2)" using body Complete lh st eqs op wc by simp
      with one_complete [OF _ op wc] lh Complete st show ?thesis by simp
    qed (use body lh st in simp)
  qed
  then show ?thesis by blast
qed

lemma run_loop_ok:
  assumes "run_loop self complete task_run n st = Some res"
  shows "loop_ok n st res"
proof -
  let ?P = "\<lambda>i comp task n st res. i = self \<and> comp = complete \<and> task = task_run \<longrightarrow> loop_ok n st res"
  have "?P self complete task_run n st res"
  proof (rule run_loop.raw_induct [where P = ?P, OF _ assms], intro impI, elim conjE)
    fix f :: "nat \<Rightarrow> (op_ref \<Rightarrow> 'w run_state \<Rightarrow> 'w run_state) \<Rightarrow> (int \<Rightarrow> 'w run_state \<Rightarrow> 'w run_state) \<Rightarrow>
        size_t \<Rightarrow> 'w run_state \<Rightarrow> (fault + size_t \<times> 'w run_state) option"
      and i comp task n and st :: "'w run_state" and res
    assume IH: "\<And>i comp task n st res. f i comp task n st = Some res \<Longrightarrow> ?P i comp task n st res"
      and body: "(case do_run_one i comp task st of
          None \<Rightarrow> None
        | Some (r, owns, st') \<Rightarrow>
            if r = 0 then Some (Inr (n, st'))
            else if owns then Some (Inl Throw_System_Error)
            else f i comp task (if n \<noteq> - 1 then n + 1 else n) st') = Some res"
      and eqs: "i = self" "comp = complete" "task = task_run"
    obtain s stk w where st: "st = (s, stk, w)" by (metis prod_cases3)
    obtain r owns s1 stk1 w1 where one: "do_run_one self complete task_run st = Some (r, owns, s1, stk1, w1)"
      using body eqs by (auto split: option.splits)
    note first = do_run_one_ok [OF one, unfolded one_ok_def st]
    show "loop_ok n st res"
    proof (cases "r = 0 \<or> owns")
      case True
      show ?thesis
      proof (cases "r = 0")
        case True
        with body one eqs have "res = Inr (n, s1, stk1, w1)" by simp
        with first True show ?thesis by (simp add: loop_ok_def st) (meson enters_at_loop)
      next
        case False
        with \<open>r = 0 \<or> owns\<close> body one eqs show ?thesis by (auto simp: loop_ok_def st)
      qed
    next
      case False
      with body one eqs have "f i comp task (next_count n) (s1, stk1, w1) = Some res"
        by (simp add: next_count_def)
      with IH eqs have rest: "loop_ok (next_count n) (s1, stk1, w1) res" by blast
      show ?thesis
        unfolding loop_ok_def st
      proof (clarsimp, intro conjI allI impI)
        fix n' s' stk' w' assume res: "res = Inr (n', s', stk', w')" "vw_ok vw w'"
        with rest have ok: "vw_ok vw w1" by (auto simp: loop_ok_def)
        then show "vw_ok vw w" using first by simp
        fix sh t k
        assume c: "th_ok self t \<and> th_ok self (world_thread vw w (At_Loop n) stk) \<and>
            run_steps self allow (sh, t, k) (config vw w s (At_Loop n) stk)"
        then have "enters self allow vw (sh, t, k) w s n stk" by (intro enters_at_loop) auto
        with first ok False c have "run_steps self allow (sh, t, k) (config vw w1 s1 (At_Loop (next_count n)) stk1)"
          "th_ok self (world_thread vw w1 (At_Loop (next_count n)) stk1)" by auto
        with rest res c show "run_steps self allow (sh, t, k) (config vw w' s' (Returned n') (cs_leave stk'))" "sch_stopped s'"
          by (auto simp: loop_ok_def)
      qed
    qed
  qed
  then show ?thesis by blast
qed

text \<open>From entering \<open>run\<close> to its return.\<close>

lemma sched_run_steps:
  assumes run: "sched_run self complete task_run (s, [], w) = Some (Inr (n, s', stk', w'))"
    and "sch_outstanding_work s \<noteq> 0" and "vw_ok vw w'"
    and ok: "th_ok self (world_thread vw w (At_Loop 0) [(self, fresh_info)])"
  shows "run_steps self allow (config vw w s (At_Loop 0) [(self, fresh_info)]) (config vw w' s' (Returned n) stk')"
    "vw_ok vw w" "sch_stopped s'" "stk' = []"
proof -
  obtain stk1 where loop: "run_loop self complete task_run 0 (s, [(self, fresh_info)], w) = Some (Inr (n, s', stk1, w'))"
    and stk': "stk' = cs_leave stk1"
    using run assms(2) by (auto simp: sched_run_def cs_enter_def split: option.splits sum.splits)
  from run_loop_ok [OF loop] assms(3) ok
  show steps: "run_steps self allow (config vw w s (At_Loop 0) [(self, fresh_info)]) (config vw w' s' (Returned n) stk')"
    and "vw_ok vw w" "sch_stopped s'"
    by (auto simp: loop_ok_def stk' config_def)
  have "th_ok self (world_thread vw w' (Returned n) stk')"
    using run_steps_config_ok [OF steps] ok by (simp add: config_def)
  then show "stk' = []" by (simp add: th_ok_def world_thread_def)
qed

end

end
