(* ===== verification/Whole_Run.thy ===== *)
theory Whole_Run
  imports Run_Refinement Reactor_Properties
begin

text \<open>
  \<open>run\<close> with the reactor and user code in place: \<open>epoll_reactor::run\<close> down to \<open>epoll_wait\<close>,
  \<open>scheduler_operation::complete\<close> for every kind of operation, and handlers as programs of calls to
  the scheduler, the reactor and work guards. It provides the interface of Run_Refinement.
\<close>

subsection \<open>User code\<close>

text \<open>
  What a handler can call: \<open>post\<close> or \<open>defer\<close> and \<open>dispatch\<close> a function object, start, cancel and
  deregister on the reactor, register a descriptor, hold and let go a work guard, and the rest of
  the scheduler's interface.
\<close>

datatype call =
    Post_Function nat bool
  | Dispatch_Function nat
  | Start op_type int "nat option" nat bool bool
  | Cancel "nat option"
  | Deregister int "nat option" bool
  | Register int
  | Hold_Work
  | Release_Work
  | Stop
  | Restart
  | Init_Task nat

text \<open>
  The world of handlers: the reactor, the guards held, what destroyed local queues still held, and
  how many calls were made. It ends in a fault, or in a call that does not return (None).
\<close>

record 'io world =
  wd_reactor :: "'io reactor"
  wd_guards :: nat
  wd_leaked :: "op_ref list"
  wd_calls :: nat

type_synonym 'io outcome = "fault option + 'io world"

fun exec_call ::
    "'io perform \<Rightarrow> 'io epoll_ctl \<Rightarrow> nat \<Rightarrow> call \<Rightarrow> scheduler \<times> thread_stack \<times> 'io world \<Rightarrow>
     'io outcome run_state"
where
  "exec_call perform ctl self (Post_Function op c) (s, stk, w) =
     (case post_immediate_completion self (Executor_Op op) c s stk of (s', stk') \<Rightarrow> (s', stk', Inr w))"
| "exec_call perform ctl self (Dispatch_Function op) (s, stk, w) =
     (do_dispatch (Executor_Op op) s, stk, Inr w)"
| "exec_call perform ctl self (Start ot fd data op c spec) (s, stk, w) =
     (case start_op perform ctl self ot fd data op c spec (wd_reactor w, s, stk) of
        Inl e \<Rightarrow> (s, stk, Inl (Some e))
      | Inr (rx, s', stk') \<Rightarrow> (s', stk', Inr (w\<lparr>wd_reactor := rx\<rparr>)))"
| "exec_call perform ctl self (Cancel data) (s, stk, w) =
     (case cancel_ops self data (wd_reactor w, s, stk) of
        None \<Rightarrow> (s, stk, Inl None)
      | Some (Inl e) \<Rightarrow> (s, stk, Inl (Some e))
      | Some (Inr ((rx, s', stk'), lost)) \<Rightarrow>
          (s', stk', Inr (w\<lparr>wd_reactor := rx, wd_leaked := wd_leaked w @ lost\<rparr>)))"
| "exec_call perform ctl self (Deregister fd data closing) (s, stk, w) =
     (case deregister_descriptor ctl self fd data closing (wd_reactor w, s, stk) of
        None \<Rightarrow> (s, stk, Inl None)
      | Some (Inl e) \<Rightarrow> (s, stk, Inl (Some e))
      | Some (Inr (data', (rx, s', stk'), lost)) \<Rightarrow>
          (s', stk', Inr (w\<lparr>wd_reactor := rx, wd_leaked := wd_leaked w @ lost\<rparr>)))"
| "exec_call perform ctl self (Register fd) (s, stk, w) =
     (case register_descriptor ctl fd (wd_reactor w) of
        (e, d, rx) \<Rightarrow> (s, stk, Inr (w\<lparr>wd_reactor := rx\<rparr>)))"
| "exec_call perform ctl self Hold_Work (s, stk, w) =
     (work_started s, stk, Inr (w\<lparr>wd_guards := Suc (wd_guards w)\<rparr>))"
| "exec_call perform ctl self Release_Work (s, stk, w) =
     (case wd_guards w of
        0 \<Rightarrow> (s, stk, Inr w)
      | Suc g \<Rightarrow> (work_finished s, stk, Inr (w\<lparr>wd_guards := g\<rparr>)))"
| "exec_call perform ctl self Stop (s, stk, w) = (sch_stop s, stk, Inr w)"
| "exec_call perform ctl self Restart (s, stk, w) = (sch_restart s, stk, Inr w)"
| "exec_call perform ctl self (Init_Task r) (s, stk, w) = (init_task r s, stk, Inr w)"

text \<open>One after the other; nothing follows a fault.\<close>

fun exec_calls ::
    "'io perform \<Rightarrow> 'io epoll_ctl \<Rightarrow> nat \<Rightarrow> call list \<Rightarrow> 'io outcome run_state \<Rightarrow> 'io outcome run_state"
where
  "exec_calls perform ctl self [] st = st"
| "exec_calls perform ctl self (c # cs) (s, stk, Inl f) = (s, stk, Inl f)"
| "exec_calls perform ctl self (c # cs) (s, stk, Inr w) =
     exec_calls perform ctl self cs (exec_call perform ctl self c (s, stk, w\<lparr>wd_calls := Suc (wd_calls w)\<rparr>))"

subsection \<open>Completing an operation\<close>

text \<open>
  \<open>o->complete(this, ec, task_result)\<close> by the class of the operation: a descriptor performs I/O and
  completes the first finished operation; what carries a handler runs it. \<open>handler\<close> gives the
  program of an operation's handler in the state the reactor is in. The marker is never completed.
\<close>

definition complete_op ::
    "'io perform \<Rightarrow> 'io epoll_ctl \<Rightarrow> (op_ref \<Rightarrow> 'io reactor \<Rightarrow> call list) \<Rightarrow> nat \<Rightarrow> op_ref \<Rightarrow>
     'io outcome run_state \<Rightarrow> 'io outcome run_state"
where
  "complete_op perform ctl handler self op st =
     (case st of
        (s, stk, Inl f) \<Rightarrow> st
      | (s, stk, Inr w) \<Rightarrow>
          (case op of
             Task_Operation \<Rightarrow> (s, stk, Inl (Some Undefined_Behaviour))
           | Descriptor_State d \<Rightarrow>
               (case deref (wd_reactor w) d of
                  None \<Rightarrow> (s, stk, Inl (Some Undefined_Behaviour))
                | Some ds \<Rightarrow>
                    (case do_complete perform self True d (ucast (ds_task_result ds)) (wd_reactor w, s, stk) of
                       Inl e \<Rightarrow> (s, stk, Inl (Some e))
                     | Inr (None, (rx, s', stk'), lost) \<Rightarrow>
                         (s', stk', Inr (w\<lparr>wd_reactor := rx, wd_leaked := wd_leaked w @ lost\<rparr>))
                     | Inr (Some r, (rx, s', stk'), lost) \<Rightarrow>
                         exec_calls perform ctl self (handler (Reactor_Op r) rx)
                           (s', stk', Inr (w\<lparr>wd_reactor := rx, wd_leaked := wd_leaked w @ lost\<rparr>))))
           | _ \<Rightarrow> exec_calls perform ctl self (handler op (wd_reactor w)) st))"

subsection \<open>Running the reactor\<close>

text \<open>
  \<open>::epoll_wait\<close> with room for 128 events and a timeout; None when it never returns. The events of
  a failed call are none.
\<close>

type_synonym 'io epoll_wait = "nat \<Rightarrow> int \<Rightarrow> 'io \<Rightarrow> ((event_ptr \<times> uint32) list \<times> 'io) option"

definition epoll_run ::
    "'io epoll_wait \<Rightarrow> int \<Rightarrow> 'io reactor \<Rightarrow> op_ref op_queue \<Rightarrow> (fault + 'io reactor \<times> op_ref op_queue) option" where
  "epoll_run wait usec rx ops =
     (let timeout = run_timeout usec
      in case wait 128 timeout (rx_io rx) of
           None \<Rightarrow> None
         | Some (events, io) \<Rightarrow> Some (reactor_run events (rx\<lparr>rx_io := io\<rparr>) ops))"

text \<open>\<open>task_->run(usec, this_thread.private_op_queue)\<close>.\<close>

definition run_reactor_task ::
    "'io epoll_wait \<Rightarrow> nat \<Rightarrow> int \<Rightarrow> 'io outcome run_state \<Rightarrow> 'io outcome run_state" where
  "run_reactor_task wait self usec st =
     (case st of
        (s, stk, Inl f) \<Rightarrow> st
      | (s, stk, Inr w) \<Rightarrow>
          (case cs_contains self stk of
             None \<Rightarrow> (s, stk, Inl (Some Undefined_Behaviour))
           | Some ti \<Rightarrow>
               (case epoll_run wait usec (wd_reactor w) (private_op_queue ti) of
                  None \<Rightarrow> (s, stk, Inl None)
                | Some (Inl e) \<Rightarrow> (s, stk, Inl (Some e))
                | Some (Inr (rx, ops)) \<Rightarrow>
                    (s, cs_modify self (\<lambda>_. ti\<lparr>private_op_queue := ops\<rparr>) stk, Inr (w\<lparr>wd_reactor := rx\<rparr>)))))"

subsection \<open>Each call is a step\<close>

definition world_view :: "'io outcome view" where
  "world_view = \<lparr>vw_ok = (\<lambda>w. case w of Inl f \<Rightarrow> False | Inr wd \<Rightarrow> True),
     vw_pending = (\<lambda>w. pending (wd_reactor (projr w))), vw_guards = wd_guards \<circ> projr,
     vw_leaked = wd_leaked \<circ> projr, vw_calls = wd_calls \<circ> projr\<rparr>"

lemma world_view_simps [simp]:
  "vw_ok world_view (Inr w)" "\<not> vw_ok world_view (Inl f)"
  "vw_pending world_view (Inr w) = pending (wd_reactor w)" "vw_guards world_view (Inr w) = wd_guards w"
  "vw_leaked world_view (Inr w) = wd_leaked w" "vw_calls world_view (Inr w) = wd_calls w"
  by (simp_all add: world_view_def)

lemma vw_ok_iff: "vw_ok world_view w \<longleftrightarrow> (\<exists>wd. w = Inr wd)"
  by (cases w) simp_all

abbreviation wconfig :: "'io world \<Rightarrow> scheduler \<Rightarrow> pc \<Rightarrow> thread_stack \<Rightarrow> config" where
  "wconfig w \<equiv> config world_view (Inr w)"

abbreviation wshared :: "'io world \<Rightarrow> scheduler \<Rightarrow> shared" where
  "wshared w \<equiv> world_shared world_view (Inr w)"

abbreviation wthread :: "'io world \<Rightarrow> pc \<Rightarrow> thread_stack \<Rightarrow> thread" where
  "wthread w \<equiv> world_thread world_view (Inr w)"

lemma wshared_eq: "wshared w s = \<lparr>sh_sched = s, sh_pending = pending (wd_reactor w), sh_guards = wd_guards w\<rparr>"
  by (simp add: world_shared_def)

lemma wthread_eq: "wthread w p stk = \<lparr>th_pc = p, th_stack = stk, th_must_stop = False, th_leaked = wd_leaked w\<rparr>"
  by (simp add: world_thread_def)

lemmas wconfig_eqs = config_def wshared_eq wthread_eq

lemma handler_in_run: "in_handler p \<Longrightarrow> in_run p"
  by (cases p) auto

lemma handler_may_call: "in_handler p \<Longrightarrow> may_call (wthread w p stk)"
  by (simp add: may_call_def wthread_eq)

lemma call_step:
  assumes "th_ok self (wthread w p stk)" and "in_handler p"
    and "local_step self (wshared w s) (wthread w p stk) (wshared w' s') (wthread w' p stk')"
    and "allow \<or> (sch_stopped s' \<longrightarrow> sch_stopped s)" and "wd_calls w' = Suc (wd_calls w)"
  shows "run_steps self allow (wconfig w s p stk) (wconfig w' s' p stk')"
  using run_step_call [OF assms(3,1), of allow "wd_calls w"] assms(2,4,5) handler_in_run
  by (auto simp: wconfig_eqs intro: r_into_rtranclp)

lemma no_step:
  assumes "pending (wd_reactor w') = pending (wd_reactor w)" "wd_guards w' = wd_guards w"
    and "wd_leaked w' = wd_leaked w" "wd_calls w' = Suc (wd_calls w)"
  shows "run_steps self allow (wconfig w s p stk) (wconfig w' s p stk)"
  using assms by (intro r_into_rtranclp) (simp add: wconfig_eqs run_step_def)

text \<open>Handing operations over, or nothing: what \<open>cancel_ops\<close> and \<open>deregister_descriptor\<close> come to.\<close>

lemma hand_over_steps:
  assumes ok: "th_ok self (wthread w p stk)" and h: "in_handler p"
    and "(rx, s', stk', lost) = (wd_reactor w, s, stk, []) \<or>
      (\<exists>q. post_deferred_completions self (map Reactor_Op q) s stk = (s', stk', lost) \<and>
        pending (wd_reactor w) = pending rx + mset q)"
  shows "run_steps self allow (wconfig w s p stk)
    (wconfig (w\<lparr>wd_calls := Suc (wd_calls w), wd_reactor := rx, wd_leaked := wd_leaked w @ lost\<rparr>) s' p stk')"
  using assms(3)
proof
  assume "(rx, s', stk', lost) = (wd_reactor w, s, stk, [])"
  then show ?thesis by (auto intro: no_step)
next
  assume "\<exists>q. post_deferred_completions self (map Reactor_Op q) s stk = (s', stk', lost) \<and>
      pending (wd_reactor w) = pending rx + mset q"
  then obtain q where q: "post_deferred_completions self (map Reactor_Op q) s stk = (s', stk', lost)"
    "pending (wd_reactor w) = pending rx + mset q" by blast
  have "local_step self (wshared w s) (wthread w p stk)
      (wshared (w\<lparr>wd_calls := Suc (wd_calls w), wd_reactor := rx, wd_leaked := wd_leaked w @ lost\<rparr>) s')
      (wthread (w\<lparr>wd_calls := Suc (wd_calls w), wd_reactor := rx, wd_leaked := wd_leaked w @ lost\<rparr>) p stk')"
    using local_step.call_cancel_ops [OF handler_may_call [OF h], of q "wshared w s" self w stk s' stk' lost] q
    by (simp add: wshared_eq wthread_eq)
  from call_step [OF ok h this] stopped_kept(6) [OF q(1)] show ?thesis by simp
qed

lemma start_op_steps:
  assumes ok: "th_ok self (wthread w p stk)" and h: "in_handler p"
    and start: "start_op perform ctl self ot fd data op c spec (wd_reactor w, s, stk) = Inr (rx, s', stk')"
  shows "run_steps self allow (wconfig w s p stk)
    (wconfig (w\<lparr>wd_calls := Suc (wd_calls w), wd_reactor := rx\<rparr>) s' p stk')"
proof -
  let ?w = "w\<lparr>wd_calls := Suc (wd_calls w), wd_reactor := rx\<rparr>"
  note call = handler_may_call [OF h, of w stk]
  from start_op_outcome [OF start] consider
      (post) "pending rx = pending (wd_reactor w)" "(s', stk') = post_immediate_completion self (Reactor_Op op) c s stk"
    | (leave) "pending rx = add_mset op (pending (wd_reactor w))" "s' = work_started s" "stk' = stk"
    by (auto simp: posted_def left_pending_def)
  then show ?thesis
  proof cases
    case post
    then have "local_step self (wshared w s) (wthread w p stk) (wshared ?w s') (wthread ?w p stk')"
      using local_step.call_post [OF call, of "Reactor_Op op" self c "wshared w s" s' stk']
      by (simp add: wshared_eq wthread_eq)
    from call_step [OF ok h this] stopped_kept(5) [OF post(2) [symmetric]] show ?thesis by simp
  next
    case leave
    then have "local_step self (wshared w s) (wthread w p stk) (wshared ?w s') (wthread ?w p stk')"
      using local_step.call_start_op [OF call, of self "wshared w s" op] by (simp add: wshared_eq wthread_eq)
    from call_step [OF ok h this] leave show ?thesis by (simp add: work_started_def)
  qed
qed

lemma release_steps:
  assumes ok: "th_ok self (wthread w p stk)" and h: "in_handler p" and g: "wd_guards w = Suc g"
  shows "run_steps self allow (wconfig w s p stk)
    (wconfig (w\<lparr>wd_calls := Suc (wd_calls w), wd_guards := g\<rparr>) (work_finished s) p stk)"
proof -
  let ?w = "w\<lparr>wd_calls := Suc (wd_calls w), wd_guards := g\<rparr>"
  obtain s1 zero where dec: "decrement_work s = (s1, zero)" by force
  let ?t = "(wthread ?w p stk)\<lparr>th_must_stop := zero\<rparr>"
  have fin: "work_finished s = (if zero then sch_stop s1 else s1)" by (simp add: work_finished_def dec)
  have step: "local_step self (wshared w s) (wthread w p stk) (wshared ?w s1) ?t"
    using local_step.call_work_finished [OF handler_may_call [OF h, of w stk], of "wshared w s" g s1 zero self] g dec
    by (simp add: wshared_eq wthread_eq)
  have 1: "run_step self allow (wconfig w s p stk) (wshared ?w s1, ?t, wd_calls ?w)"
    using run_step_call [OF step ok, of allow "wd_calls w"] h handler_in_run stopped_kept(1) [OF dec]
    by (simp add: config_def wshared_eq wthread_eq)
  have ok1: "th_ok self ?t" using local_step_balance [OF step ok] by simp
  show ?thesis
  proof (cases zero)
    case True
    have "local_step self (wshared ?w s1) ?t (wshared ?w (sch_stop s1)) (wthread ?w p stk)"
      using local_step.must_stop [of ?t self "wshared ?w s1"] True by (simp add: wshared_eq wthread_eq)
    from run_step_machine [OF this ok1, of allow "wd_calls ?w"] True h handler_in_run
    have "run_step self allow (wshared ?w s1, ?t, wd_calls ?w) (wconfig ?w (work_finished s) p stk)"
      by (simp add: fin config_def wthread_eq may_call_def)
    with 1 show ?thesis by (blast intro: rtranclp.rtrancl_into_rtrancl)
  next
    case False
    then have "(wshared ?w s1, ?t, wd_calls ?w) = wconfig ?w (work_finished s) p stk"
      by (simp add: fin config_def wthread_eq)
    with 1 show ?thesis by (metis r_into_rtranclp)
  qed
qed

text \<open>A call either fails or is executed by the system; only \<open>Stop\<close> needs the leave to stop.\<close>

lemma exec_call_steps:
  assumes call: "exec_call perform ctl self c (s, stk, w\<lparr>wd_calls := Suc (wd_calls w)\<rparr>) = (s', stk', Inr w')"
    and ok: "th_ok self (wthread w p stk)" and h: "in_handler p" and "allow \<or> c \<noteq> Stop"
  shows "run_steps self allow (wconfig w s p stk) (wconfig w' s' p stk')"
proof -
  note may = handler_may_call [OF h, of w stk]
  let ?w = "w\<lparr>wd_calls := Suc (wd_calls w)\<rparr>"
  show ?thesis
  proof (cases c)
    case (Post_Function op b)
    then have post: "post_immediate_completion self (Executor_Op op) b s stk = (s', stk')" and w': "w' = ?w"
      using call by (auto split: prod.splits)
    then have "local_step self (wshared w s) (wthread w p stk) (wshared w' s') (wthread w' p stk')"
      using local_step.call_post [OF may, of "Executor_Op op" self b "wshared w s" s' stk']
      by (simp add: wshared_eq wthread_eq)
    from call_step [OF ok h this] stopped_kept(5) [OF post] w' show ?thesis by simp
  next
    case (Dispatch_Function op)
    then have out: "s' = do_dispatch (Executor_Op op) s" "stk' = stk" "w' = ?w"
      using call by auto
    then have "local_step self (wshared w s) (wthread w p stk) (wshared w' s') (wthread w' p stk')"
      using local_step.call_dispatch [OF may, of "Executor_Op op" self "wshared w s"] by (simp add: wshared_eq wthread_eq)
    from call_step [OF ok h this] out show ?thesis by (simp add: do_dispatch_def push_op_def work_started_def frame_simps)
  next
    case (Start ot fd data op b spec)
    then obtain rx where "start_op perform ctl self ot fd data op b spec (wd_reactor w, s, stk) = Inr (rx, s', stk')"
      "w' = ?w\<lparr>wd_reactor := rx\<rparr>"
      using call by (auto split: sum.splits prod.splits)
    with start_op_steps [OF ok h this(1)] show ?thesis by simp
  next
    case (Cancel data)
    then obtain rx lost where "cancel_ops self data (wd_reactor w, s, stk) = Some (Inr ((rx, s', stk'), lost))"
      "w' = ?w\<lparr>wd_reactor := rx, wd_leaked := wd_leaked w @ lost\<rparr>"
      using call by (auto split: option.splits sum.splits prod.splits)
    with hand_over_steps [OF ok h cancel_ops_outcome [OF this(1)]] show ?thesis by simp
  next
    case (Deregister fd data closing)
    then obtain rx data' lost where
      "deregister_descriptor ctl self fd data closing (wd_reactor w, s, stk) = Some (Inr (data', (rx, s', stk'), lost))"
      "w' = ?w\<lparr>wd_reactor := rx, wd_leaked := wd_leaked w @ lost\<rparr>"
      using call by (auto split: option.splits sum.splits prod.splits)
    with hand_over_steps [OF ok h deregister_descriptor_outcome [OF this(1)]] show ?thesis by simp
  next
    case (Register fd)
    then obtain e d rx where "register_descriptor ctl fd (wd_reactor w) = (e, d, rx)" "w' = ?w\<lparr>wd_reactor := rx\<rparr>"
      "s' = s" "stk' = stk"
      using call by (auto split: prod.splits)
    with no_step [of w' w] register_pending [OF this(1)] show ?thesis by simp
  next
    case Hold_Work
    then have out: "s' = work_started s" "stk' = stk" "w' = ?w\<lparr>wd_guards := Suc (wd_guards w)\<rparr>"
      using call by auto
    then have "local_step self (wshared w s) (wthread w p stk) (wshared w' s') (wthread w' p stk')"
      using local_step.call_work_started [OF may, of self "wshared w s"] by (simp add: wshared_eq wthread_eq)
    from call_step [OF ok h this] out show ?thesis by (simp add: work_started_def)
  next
    case Release_Work
    show ?thesis
    proof (cases "wd_guards w")
      case 0
      with Release_Work call no_step [of w' w] show ?thesis by auto
    next
      case (Suc g)
      with release_steps [OF ok h this] Release_Work call show ?thesis by auto
    qed
  next
    case Stop
    then have out: "s' = sch_stop s" "stk' = stk" "w' = ?w"
      using call by auto
    then have "local_step self (wshared w s) (wthread w p stk) (wshared w' s') (wthread w' p stk')"
      using local_step.call_stop [OF may, of self "wshared w s"] by (simp add: wshared_eq wthread_eq)
    from call_step [OF ok h this] out assms(4) Stop show ?thesis by (simp add: frame_simps)
  next
    case Restart
    then have out: "s' = sch_restart s" "stk' = stk" "w' = ?w"
      using call by auto
    then have "local_step self (wshared w s) (wthread w p stk) (wshared w' s') (wthread w' p stk')"
      using local_step.call_restart [OF may, of self "wshared w s"] by (simp add: wshared_eq wthread_eq)
    from call_step [OF ok h this] out show ?thesis by (simp add: sch_restart_def)
  next
    case (Init_Task r)
    then have out: "s' = init_task r s" "stk' = stk" "w' = ?w"
      using call by auto
    then have "local_step self (wshared w s) (wthread w p stk) (wshared w' s') (wthread w' p stk')"
      using local_step.call_init_task [OF may, of self "wshared w s" r] by (simp add: wshared_eq wthread_eq)
    from call_step [OF ok h this] out show ?thesis by (simp add: init_task_def push_op_def frame_simps)
  qed
qed

lemma exec_calls_fault: "exec_calls perform ctl self cs (s, stk, Inl f) = (s, stk, Inl f)"
  by (cases cs) simp_all

lemma exec_calls_steps:
  assumes "exec_calls perform ctl self cs (s, stk, Inr w) = (s', stk', Inr w')"
    and "th_ok self (wthread w p stk)" and "in_handler p" and "allow \<or> Stop \<notin> set cs"
  shows "run_steps self allow (wconfig w s p stk) (wconfig w' s' p stk')"
  using assms
proof (induction cs arbitrary: s stk w)
  case (Cons c cs)
  obtain s1 stk1 o1 where one: "exec_call perform ctl self c (s, stk, w\<lparr>wd_calls := Suc (wd_calls w)\<rparr>) = (s1, stk1, o1)"
    by (metis prod_cases3)
  with Cons.prems(1) obtain w1 where o1: "o1 = Inr w1" by (cases o1) (auto simp: exec_calls_fault)
  have step: "run_steps self allow (wconfig w s p stk) (wconfig w1 s1 p stk1)"
    using exec_call_steps [OF one [unfolded o1] Cons.prems(2,3)] Cons.prems(4) by auto
  have disj: "allow \<or> Stop \<notin> set cs" using Cons.prems(4) by auto
  have "th_ok self (wthread w1 p stk1)"
    using run_steps_th_ok step Cons.prems(2) by (metis config_def)
  with Cons.IH [of s1 stk1 w1] Cons.prems one o1 disj
  have "run_steps self allow (wconfig w1 s1 p stk1) (wconfig w' s' p stk')" by simp
  with step show ?case by (rule rtranclp_trans)
qed simp

text \<open>The end of a handler.\<close>

lemma handler_ends:
  assumes "th_ok self (wthread w (In_Op n op) stk)" and "is_work op"
  shows "run_steps self allow (wconfig w s (In_Op n op) stk) (wconfig w s (After_Op n) stk)"
proof -
  have "local_step self (wshared w s) (wthread w (In_Op n op) stk) (wshared w s) (wthread w (After_Op n) stk)"
    using local_step.handler_done [of "wthread w (In_Op n op) stk" n op self "wshared w s"] assms(2)
    by (simp add: wthread_eq)
  from run_step_machine [OF this assms(1), of allow] show ?thesis
    by (auto simp: config_def wthread_eq intro: r_into_rtranclp)
qed

lemma handler_steps:
  assumes "exec_calls perform ctl self cs (s, stk, Inr w) = (s', stk', Inr w')"
    and "th_ok self (wthread w (In_Op n op) stk)" and "is_work op" and "allow \<or> Stop \<notin> set cs"
  shows "run_steps self allow (wconfig w s (In_Op n op) stk) (wconfig w' s' (After_Op n) stk')"
proof -
  have steps: "run_steps self allow (wconfig w s (In_Op n op) stk) (wconfig w' s' (In_Op n op) stk')"
    using exec_calls_steps [OF assms(1,2) _ assms(4)] assms(3) by simp
  then have "th_ok self (wthread w' (In_Op n op) stk')"
    using run_steps_th_ok assms(2) by (metis config_def)
  from handler_ends [OF this assms(3)] steps show ?thesis by (blast intro: rtranclp_trans)
qed

text \<open>A descriptor performs I/O and goes on with the first finished operation.\<close>

lemma perform_steps:
  assumes "do_complete perform self True d bytes (wd_reactor w, s, stk) = Inr (Some r, (rx, s', stk'), lost)"
    and ok: "th_ok self (wthread w (In_Op n (Descriptor_State d)) stk)"
  defines "w' \<equiv> w\<lparr>wd_reactor := rx, wd_leaked := wd_leaked w @ lost\<rparr>"
  shows "run_steps self allow (wconfig w s (In_Op n (Descriptor_State d)) stk) (wconfig w' s' (In_Op n (Reactor_Op r)) stk') \<and>
    th_ok self (wthread w' (In_Op n (Reactor_Op r)) stk')"
proof -
  have "perform_io perform self d (ucast bytes) (wd_reactor w, s, stk) = Inr (r, (rx, s', stk'), lost)"
    using assms(1) by (auto simp: do_complete_def split: sum.splits)
  from perform_io_outcome [OF this] obtain rest where
    taken: "pending (wd_reactor w) = pending rx + mset (r # rest)"
    and out: "(s', stk', lost) = (if rest = [] then (s, stk, [])
      else post_deferred_completions self (map Reactor_Op rest) s stk)" by blast
  have "local_step self (wshared w s) (wthread w (In_Op n (Descriptor_State d)) stk)
      (wshared w' s') (wthread w' (In_Op n (Reactor_Op r)) stk')"
    using local_step.perform_io [of "wthread w (In_Op n (Descriptor_State d)) stk" n d r rest "wshared w s" s' stk' lost self]
      taken out by (simp add: wshared_eq wthread_eq w'_def)
  with run_step_machine [OF this ok, of allow "wd_calls w"] local_step_balance [OF this ok] show ?thesis
    by (auto simp: config_def wthread_eq w'_def intro: r_into_rtranclp)
qed

lemma complete_op_steps:
  assumes run: "complete_op perform ctl handler self op (s, stk, w) = (s', stk', w')" and "vw_ok world_view w'"
    and ok: "th_ok self (world_thread world_view w (In_Op n op) stk)"
    and "allow \<or> (\<forall>op rx. Stop \<notin> set (handler op rx))"
  shows "run_steps self allow (config world_view w s (In_Op n op) stk) (config world_view w' s' (After_Op n) stk')"
proof -
  obtain wd wd' where w: "w = Inr wd" "w' = Inr wd'"
    using assms(1,2) by (cases w) (auto simp: complete_op_def vw_ok_iff)
  have cs: "allow \<or> Stop \<notin> set (handler op rx)" for op rx using assms(4) by blast
  show ?thesis
  proof (cases op)
    case Task_Operation
    with ok show ?thesis by (simp add: th_ok_def world_thread_def)
  next
    case (Descriptor_State d)
    obtain ds where ds: "deref (wd_reactor wd) d = Some ds"
      using run Descriptor_State w by (auto simp: complete_op_def split: option.splits)
    obtain r rx s1 stk1 lost where
      dc: "do_complete perform self True d (ucast (ds_task_result ds)) (wd_reactor wd, s, stk) =
        Inr (Some r, (rx, s1, stk1), lost)"
      using run Descriptor_State w ds
      by (auto simp: complete_op_def do_complete_def split: sum.splits)
    let ?wd = "wd\<lparr>wd_reactor := rx, wd_leaked := wd_leaked wd @ lost\<rparr>"
    have "exec_calls perform ctl self (handler (Reactor_Op r) rx) (s1, stk1, Inr ?wd) = (s', stk', Inr wd')"
      using run Descriptor_State w ds dc by (simp add: complete_op_def)
    note rest = handler_steps [OF this, where n = n and op = "Reactor_Op r" and allow = allow]
    from perform_steps [OF dc, of n allow] ok w Descriptor_State
    have "run_steps self allow (wconfig wd s (In_Op n op) stk) (wconfig ?wd s1 (In_Op n (Reactor_Op r)) stk1)"
      "th_ok self (wthread ?wd (In_Op n (Reactor_Op r)) stk1)" by auto
    with rest cs w show ?thesis by (auto intro: rtranclp_trans)
  next
    case (Reactor_Op i)
    with run w handler_steps [of perform ctl self "handler op (wd_reactor wd)" s stk wd s' stk' wd' n op allow] cs ok
    show ?thesis by (simp add: complete_op_def)
  next
    case (Executor_Op i)
    with run w handler_steps [of perform ctl self "handler op (wd_reactor wd)" s stk wd s' stk' wd' n op allow] cs ok
    show ?thesis by (simp add: complete_op_def)
  qed
qed

lemma reactor_task_steps:
  assumes run: "run_reactor_task wait self usec (s, stk, w) = (s', stk', w')" and "vw_ok world_view w'"
    and ok: "th_ok self (world_thread world_view w (In_Task n usec) stk)"
  shows "run_steps self allow (config world_view w s (In_Task n usec) stk) (config world_view w' s' (Task_Done n) stk')"
proof -
  obtain wd wd' where w: "w = Inr wd" "w' = Inr wd'"
    using assms(1,2) by (cases w) (auto simp: run_reactor_task_def vw_ok_iff)
  obtain ti where ti: "stk = [(self, ti)]" using ok by (auto elim: frame_of)
  obtain rx ops where er: "epoll_run wait usec (wd_reactor wd) (private_op_queue ti) = Some (Inr (rx, ops))"
    and out: "s' = s" "stk' = [(self, ti\<lparr>private_op_queue := ops\<rparr>)]" "wd' = wd\<lparr>wd_reactor := rx\<rparr>"
    using run w ti by (auto simp: run_reactor_task_def split: option.splits sum.splits)
  then obtain events io where "reactor_run events ((wd_reactor wd)\<lparr>rx_io := io\<rparr>) (private_op_queue ti) = Inr (rx, ops)"
    by (auto simp: epoll_run_def Let_def split: option.splits)
  from reactor_run_appends [OF this] obtain ds where
    ds: "ops = private_op_queue ti @ map Descriptor_State ds" and "pending rx = pending (wd_reactor wd)"
    by (auto simp: pending_def)
  then have "local_step self (wshared wd s) (wthread wd (In_Task n usec) stk) (wshared wd' s) (wthread wd' (Task_Done n) stk')"
    using local_step.task_run [of "wthread wd (In_Task n usec) stk" n usec "ti\<lparr>private_op_queue := ops\<rparr>" self ds "wshared wd s"]
      ti out by (simp add: wshared_eq wthread_eq th_info_def set_info_def)
  from run_step_machine [OF this, of allow "wd_calls wd"] ok w out show ?thesis
    by (auto simp: config_def wthread_eq intro: r_into_rtranclp)
qed

lemma world_ok_before:
  "complete_op perform ctl handler self op (s, stk, w) = (s', stk', w') \<Longrightarrow> vw_ok world_view w' \<Longrightarrow> vw_ok world_view w"
  "run_reactor_task wait self usec (s, stk, w) = (s', stk', w') \<Longrightarrow> vw_ok world_view w' \<Longrightarrow> vw_ok world_view w"
  by (cases w; auto simp: complete_op_def run_reactor_task_def)+

definition never_stop :: "(op_ref \<Rightarrow> 'io reactor \<Rightarrow> call list) \<Rightarrow> op_ref \<Rightarrow> 'io reactor \<Rightarrow> call list" where
  "never_stop handler op rx = filter (\<lambda>c. c \<noteq> Stop) (handler op rx)"

interpretation any: run_world self True world_view "complete_op perform ctl handler self" "run_reactor_task wait self"
  for self perform ctl handler wait
  by unfold_locales (auto intro: complete_op_steps reactor_task_steps world_ok_before)

interpretation quiet: run_world self False world_view "complete_op perform ctl (never_stop handler) self"
    "run_reactor_task wait self"
  for self perform ctl handler wait
  by unfold_locales
    (auto simp: never_stop_def intro: complete_op_steps reactor_task_steps world_ok_before)

subsection \<open>Runs are executions of the system\<close>

text \<open>The scheduler, the reactor and the guards as the shared state of the system of threads.\<close>

definition shows_world :: "'io world \<Rightarrow> shared \<Rightarrow> thread \<Rightarrow> bool" where
  "shows_world w sh t \<longleftrightarrow>
     sh_pending sh = pending (wd_reactor w) \<and> sh_guards sh = wd_guards w \<and> th_leaked t = wd_leaked w"

lemma run_start:
  assumes "th_ok self t" and "is_outside (th_pc t)" and "\<not> th_must_stop t" and "shows_world w sh t"
    and "sch_outstanding_work (sh_sched sh) \<noteq> 0"
  shows "th_stack t = []" "wshared w (sh_sched sh) = sh"
    "local_step self sh t (wshared w (sh_sched sh)) (wthread w (At_Loop 0) [(self, fresh_info)])"
    "th_ok self (wthread w (At_Loop 0) [(self, fresh_info)])"
proof -
  show stk: "th_stack t = []" using assms(1,2) outside_ok by (auto simp: th_ok_def)
  show sh: "wshared w (sh_sched sh) = sh" using assms(4) by (simp add: wshared_eq shows_world_def)
  have "t\<lparr>th_pc := At_Loop 0, th_stack := cs_enter self fresh_info (th_stack t)\<rparr> =
      wthread w (At_Loop 0) [(self, fresh_info)]"
    using assms(3,4) stk by (cases t) (simp add: wthread_eq shows_world_def cs_enter_def)
  with local_step.run_enter [OF assms(3,2,5), of self] sh
  show step: "local_step self sh t (wshared w (sh_sched sh)) (wthread w (At_Loop 0) [(self, fresh_info)])" by simp
  show "th_ok self (wthread w (At_Loop 0) [(self, fresh_info)])"
    using local_step_balance [OF step assms(1)] by simp
qed

lemma run_without_work:
  assumes "\<not> th_must_stop t" and "is_outside (th_pc t)" and "sch_outstanding_work (sh_sched sh) = 0" and "i < length ts"
  shows "(sys_step self)\<^sup>*\<^sup>* (sh, ts[i := t]) (sh\<lparr>sh_sched := sch_stop (sh_sched sh)\<rparr>, ts[i := t\<lparr>th_pc := Returned 0\<rparr>])"
proof -
  let ?t = "t\<lparr>th_pc := Returned 0, th_must_stop := True\<rparr>"
  have "sys_step self (sh, ts[i := t]) (sh, ts[i := t, i := ?t])"
    using assms local_step.run_no_work by (intro sys_step.step) auto
  moreover have "t\<lparr>th_pc := Returned 0\<rparr> = ?t\<lparr>th_must_stop := False\<rparr>" using assms(1) by (cases t) simp
  moreover have "sys_step self (sh, ts[i := ?t])
      (sh\<lparr>sh_sched := sch_stop (sh_sched sh)\<rparr>, ts[i := ?t, i := ?t\<lparr>th_must_stop := False\<rparr>])"
    using assms(4) local_step.must_stop [of ?t self sh] by (intro sys_step.step) auto
  ultimately show ?thesis
    by (metis (no_types, lifting) list_update_overwrite r_into_rtranclp rtranclp.rtrancl_into_rtrancl)
qed

lemma reachable_steps:
  assumes "reachable self sy" and "(sys_step self)\<^sup>*\<^sup>* sy sy'"
  shows "reachable self sy'"
  using assms(2,1)
proof (induction rule: rtranclp_induct)
  case (step sy' sy'')
  show ?case by (rule reachable.step [OF step.IH [OF step.prems] step.hyps(2)])
qed simp

text \<open>C14. A thread that calls \<open>run\<close> while the others stand still, with the reactor, \<open>epoll_wait\<close>, I/O
  and handlers that call back into the scheduler and the reactor in place: if \<open>run\<close> returns normally
  then what it did, as a function from state to state, is an execution of the interleaved system of
  threads from the same state, ending with the thread back from \<open>run\<close> with the same count and with
  the same scheduler, pending operations and guards. So every property of reachable states holds
  after it.\<close>

theorem run_refines_threads:
  assumes "reachable self (sh, ts)" and "i < length ts" and "is_outside (th_pc (ts ! i))"
    and "\<not> th_must_stop (ts ! i)" and "shows_world w sh (ts ! i)"
    and "sched_run self (complete_op perform ctl handler self) (run_reactor_task wait self)
      (sh_sched sh, th_stack (ts ! i), Inr w) = Some (Inr (n, s', stk', Inr w'))"
  shows "\<exists>sh' t'. (sys_step self)\<^sup>*\<^sup>* (sh, ts) (sh', ts[i := t']) \<and> reachable self (sh', ts[i := t']) \<and>
    sh_sched sh' = s' \<and> shows_world w' sh' t' \<and> th_pc t' = Returned n \<and> th_stack t' = stk'"
proof -
  have "th_ok self (ts ! i)" using reachable_inv [OF assms(1)] assms(2) by (auto simp: system_inv_def)
  note start = run_start [OF this assms(3-5)]
  have "\<exists>sh' t'. (sys_step self)\<^sup>*\<^sup>* (sh, ts) (sh', ts[i := t']) \<and>
    sh_sched sh' = s' \<and> shows_world w' sh' t' \<and> th_pc t' = Returned n \<and> th_stack t' = stk'"
  proof (cases "sch_outstanding_work (sh_sched sh) = 0")
    case True
    with assms(6) have "n = 0" "s' = sch_stop (sh_sched sh)" "stk' = th_stack (ts ! i)" "w' = w"
      by (auto simp: sched_run_def)
    with run_without_work [OF assms(4,3) True assms(2), of self] assms(5) show ?thesis
      by (intro exI [of _ "sh\<lparr>sh_sched := sch_stop (sh_sched sh)\<rparr>"] exI [of _ "(ts ! i)\<lparr>th_pc := Returned 0\<rparr>"])
        (simp add: shows_world_def)
  next
    case False
    note run = any.sched_run_steps [OF assms(6) [unfolded start(1) [OF False]] False _ start(4) [OF False]]
    have "(sys_step self)\<^sup>*\<^sup>* (sh, ts[i := wthread w (At_Loop 0) [(self, fresh_info)]])
        (wshared w' s', ts[i := wthread w' (Returned n) stk'])"
      using run_steps_sys [OF run(1) [unfolded config_def] assms(2)] start(2) [OF False] by simp
    moreover have "sys_step self (sh, ts) (sh, ts[i := wthread w (At_Loop 0) [(self, fresh_info)]])"
      using sys_step.step [OF assms(2) start(3) [OF False]] start(2) [OF False] by simp
    ultimately show ?thesis
      by (intro exI [of _ "wshared w' s'"] exI [of _ "wthread w' (Returned n) stk'"])
         (auto simp: shows_world_def wshared_eq wthread_eq intro: converse_rtranclp_into_rtranclp)
  qed
  with reachable_steps [OF assms(1)] show ?thesis by blast
qed

lemma run_ends_idle:
  assumes "reachable self (sh, [t])" and "is_outside (th_pc t)" and "\<not> th_must_stop t" and "shows_world w sh t"
    and "\<not> sch_stopped (sh_sched sh)" and "\<And>op rx. Stop \<notin> set (handler op rx)"
    and "sched_run self (complete_op perform ctl handler self) (run_reactor_task wait self)
      (sh_sched sh, th_stack t, Inr w) = Some (Inr (n, s', stk', Inr w'))"
    and "work_total sh [t] + wd_calls w' < 2 ^ 64 + wd_calls w"
  shows "\<exists>sh' t'. sch_stopped s' \<and> system_inv self (sh', [t']) \<and> work_total sh' [t'] = 0 \<and> sh_sched sh' = s' \<and>
      shows_world w' sh' t' \<and> th_stack t' = []"
proof -
  have inv: "system_inv self (sh, [t])" by (rule reachable_inv [OF assms(1)])
  then have ok: "th_ok self t" by (simp add: system_inv_def)
  note start = run_start [OF ok assms(2-4)]
  have quiet: "never_stop handler = handler"
    using assms(6) by (auto simp: never_stop_def fun_eq_iff filter_id_conv)
  show ?thesis
  proof (cases "sch_outstanding_work (sh_sched sh) = 0")
    case True
    with assms(7) have out: "s' = sch_stop (sh_sched sh)" "w' = w" by (auto simp: sched_run_def)
    with assms(8) have "work_total sh [t] = 0" using zero_count_no_work [OF inv True] by simp
    moreover have "executing (th_pc t) = 0" "th_stack t = []"
      using assms(2) outside_ok [of "th_pc t"] ok by (auto simp: th_ok_def)
    moreover have "system_inv self (sh\<lparr>sh_sched := s'\<rparr>, [t\<lparr>th_pc := Returned 0\<rparr>])"
      using reachable_inv [OF reachable_steps [OF assms(1)]] run_without_work [OF assms(3,2) True, of 0 "[t]" self] out
      by simp
    ultimately show ?thesis using assms(4) out
      by (intro exI [of _ "sh\<lparr>sh_sched := s'\<rparr>"] exI [of _ "t\<lparr>th_pc := Returned 0\<rparr>"])
        (auto simp: work_total_def shows_world_def frame_simps)
  next
    case False
    note run = quiet.sched_run_steps [where handler = handler, unfolded quiet,
        OF assms(7) [unfolded start(1) [OF False]] False _ start(4) [OF False]]
    have inv0: "system_inv self (wshared w (sh_sched sh), [wthread w (At_Loop 0) [(self, fresh_info)]])"
      using system_inv_step [OF inv, of 0] start(3) [OF False] by simp
    then have "idle_when_over self (wconfig w (sh_sched sh) (At_Loop 0) [(self, fresh_info)])"
      using assms(5) by (simp add: idle_when_over_def config_def wshared_eq wthread_eq)
    moreover have "work_total (wshared w (sh_sched sh)) [wthread w (At_Loop 0) [(self, fresh_info)]] \<le> work_total sh [t]"
      using local_step_total [OF start(3) [OF False] ok] assms(2) by (cases "th_pc t") (simp_all add: wthread_eq)
    ultimately have "idle_when_over self (wconfig w' s' (Returned n) stk')"
      using idle_when_over_steps [OF run(1) [unfolded config_def]] assms(8) by (simp add: config_def)
    with run show ?thesis
      by (intro exI [of _ "wshared w' s'"] exI [of _ "wthread w' (Returned n) stk'"])
        (auto simp: idle_when_over_def config_def shows_world_def wshared_eq wthread_eq)
  qed
qed

text \<open>C15. When \<open>run\<close> returns to a thread that is alone, and neither it nor its handlers call \<open>stop()\<close>,
  everything is done: the scheduler is stopped, its count is 0, no operation is queued, none waits in
  a descriptor, no guard is held and none was lost. (The scheduler was not stopped before, and the
  calls the handlers make and the operations there were number fewer than \<open>2 ^ 64\<close>.)\<close>

theorem run_returns_when_idle:
  assumes "reachable self (sh, [t])" and "is_outside (th_pc t)" and "\<not> th_must_stop t" and "shows_world w sh t"
    and "\<not> sch_stopped (sh_sched sh)" and "\<And>op rx. Stop \<notin> set (handler op rx)"
    and "sched_run self (complete_op perform ctl handler self) (run_reactor_task wait self)
      (sh_sched sh, th_stack t, Inr w) = Some (Inr (n, s', stk', Inr w'))"
    and "work_total sh [t] + wd_calls w' < 2 ^ 64 + wd_calls w"
  shows "sch_stopped s' \<and> sch_outstanding_work s' = 0 \<and> work_in (sch_op_queue s') = 0 \<and>
    pending (wd_reactor w') = {#} \<and> wd_guards w' = 0 \<and> wd_leaked w' = []"
proof -
  obtain sh' t' where fin: "sch_stopped s'" "system_inv self (sh', [t'])" "work_total sh' [t'] = 0"
    "sh_sched sh' = s'" "shows_world w' sh' t'" "th_stack t' = []"
    using run_ends_idle [OF assms] by blast
  then have "work_in (sch_op_queue s') = 0" "pending (wd_reactor w') = {#}" "wd_guards w' = 0" "th_queued t' = 0"
    by (auto simp: work_total_def shows_world_def)
  moreover have "list_all is_work (th_leaked t')" using fin(2) by (simp add: system_inv_def th_ok_def)
  with \<open>th_queued t' = 0\<close> fin(5) have "wd_leaked w' = []"
    by (auto simp: th_queued_def shows_world_def work_in_all)
  moreover have "sch_outstanding_work s' = 0"
    using fin(2-4,6) balance_total [of sh' "[t']"] by (simp add: system_inv_def th_private_work_def)
  ultimately show ?thesis using fin(1) by blast
qed

subsection \<open>A whole run\<close>

text \<open>
  One read waits on descriptor 4 and \<open>epoll_wait\<close> finds it readable: \<open>run\<close> takes the marker, waits in
  the reactor, performs the read, runs its handler and stops, having run one handler.
\<close>

definition one_read :: "unit reactor" where
  "one_read = demo_rx\<lparr>rx_registered := [(4, 0)],
     rx_heap := [Some ((fresh_descriptor 4)\<lparr>ds_op_queue := (\<lambda>_. [])(Read_Op := [2])\<rparr>)]\<rparr>"

definition one_read_world :: "unit world" where
  "one_read_world = \<lparr>wd_reactor = one_read, wd_guards = 0, wd_leaked = [], wd_calls = 0\<rparr>"

definition one_read_sched :: scheduler where
  "one_read_sched = work_started (init_task 5 (scheduler_ctor demo_raw 2))"

definition readable :: "unit epoll_wait" where
  "readable maxevents timeout io = Some ([(Descriptor 0, EPOLLIN)], io)"

lemma one_read_sched_eq:
  "sch_op_queue one_read_sched = [Task_Operation]" "sch_outstanding_work one_read_sched = 1"
  "\<not> sch_stopped one_read_sched" "\<not> sch_one_thread one_read_sched"
  by (simp_all add: one_read_sched_def work_started_def init_task_def scheduler_ctor_def push_op_def oq_push_def
      demo_raw_def frame_simps)

lemmas evaluate_run =
  on_this_thread_def task_cleanup_def task_cleanup_locked_def work_cleanup_def flush_private_work_def
  push_private_queue_eq push_op_def oq_push_def oq_pop_def oq_empty_def cs_enter_def cs_leave_def frame_simps
  run_reactor_task_def epoll_run_def complete_op_def do_complete_def perform_io_def perform_all_types_def
  all_op_types_def perform_one_type_def flag_of_def epoll_flags deref_def write_ds_def fresh_descriptor_def

lemma one_read_run:
  "\<exists>s' w'. sched_run 0 (complete_op perform_even ctl_ok (\<lambda>op rx. []) 0) (run_reactor_task readable 0)
      (one_read_sched, [], Inr one_read_world) = Some (Inr (1, s', [], Inr w')) \<and> wd_calls w' = 0"
  apply (simp add: sched_run_def one_read_sched_eq)
  apply (subst run_loop.simps, subst do_run_one.simps)
  apply (simp add: loop_head_task one_read_sched_eq frame_simps)
  apply (simp add: evaluate_run one_read_world_def one_read_def readable_def)
  apply (subst do_run_one.simps)
  apply (simp add: loop_head_op one_read_sched_eq frame_simps)
  apply (simp add: evaluate_run one_read_sched_eq Let_def)
  apply (subst run_loop.simps)
  apply (simp add: do_run_one_stopped evaluate_run one_read_sched_eq)
  done

abbreviation one_read_shared :: shared where
  "one_read_shared \<equiv> \<lparr>sh_sched = one_read_sched, sh_pending = {#2#}, sh_guards = 0\<rparr>"

lemma one_read_reachable: "reachable 0 (one_read_shared, [new_thread])"
  using reachable_alone [OF reachable_alone [OF demo_spawned local_step.call_init_task [OF demo_may_call, where r = 5]]
      local_step.call_start_op [OF demo_may_call, where i = 2]]
  by (simp add: one_read_sched_def initial_shared_def)

lemma one_read_shows: "shows_world one_read_world one_read_shared new_thread"
  by (simp add: shows_world_def one_read_world_def one_read_def new_thread_def pending_def slot_pending_def
      ds_pending_def)

theorem run_refines_threads_witness:
  "\<exists>s' w' sh' t'. sched_run 0 (complete_op perform_even ctl_ok (\<lambda>op rx. []) 0) (run_reactor_task readable 0)
      (one_read_sched, [], Inr one_read_world) = Some (Inr (1, s', [], Inr w')) \<and>
    reachable 0 (sh', [t']) \<and> sh_sched sh' = s' \<and> th_pc t' = Returned 1"
proof -
  obtain s' w' where run: "sched_run 0 (complete_op perform_even ctl_ok (\<lambda>op rx. []) 0) (run_reactor_task readable 0)
      (one_read_sched, [], Inr one_read_world) = Some (Inr (1, s', [], Inr w'))" using one_read_run by blast
  from run_refines_threads [OF one_read_reachable, of 0 one_read_world perform_even ctl_ok "\<lambda>op rx. []" readable 1 s' "[]" w']
    run one_read_shows show ?thesis by (auto simp: new_thread_def)
qed

theorem run_returns_when_idle_witness:
  "\<exists>s' w'. sched_run 0 (complete_op perform_even ctl_ok (\<lambda>op rx. []) 0) (run_reactor_task readable 0)
      (one_read_sched, [], Inr one_read_world) = Some (Inr (1, s', [], Inr w')) \<and>
    sch_stopped s' \<and> pending (wd_reactor w') = {#}"
proof -
  obtain s' w' where run: "sched_run 0 (complete_op perform_even ctl_ok (\<lambda>op rx. []) 0) (run_reactor_task readable 0)
      (one_read_sched, [], Inr one_read_world) = Some (Inr (1, s', [], Inr w'))" "wd_calls w' = 0"
    using one_read_run by blast
  have "work_total one_read_shared [new_thread] = 1"
    by (simp add: work_total_def th_queued_def new_thread_def one_read_sched_eq)
  from run_returns_when_idle [OF one_read_reachable, of one_read_world "\<lambda>op rx. []" perform_even ctl_ok readable 1 s' "[]" w']
    run one_read_shows this show ?thesis
    by (auto simp: new_thread_def one_read_sched_eq one_read_world_def)
qed

end
