(* ===== verification/Posting.thy ===== *)
theory Posting
  imports Handler_Memory_Properties
begin

text \<open>
  How \<open>post\<close> finds an executor, an allocator and a scheduler: \<^verbatim>\<open>post.hpp\<close>, \<^verbatim>\<open>associated_executor.hpp\<close>,
  \<^verbatim>\<open>associated_allocator.hpp\<close>, \<^verbatim>\<open>is_executor.hpp\<close>, \<^verbatim>\<open>async_result.hpp\<close>, \<open>make_work_guard\<close> of
  \<^verbatim>\<open>executor_work_guard.hpp\<close>, \<^verbatim>\<open>system_executor.hpp\<close>, \<^verbatim>\<open>handler_invoke_hook.hpp\<close>,
  \<^verbatim>\<open>handler_invoke_helpers.hpp\<close> and the executor of \<^verbatim>\<open>io_context.hpp\<close>. What the compiler decides from
  the types of the arguments is decided here from a description of them; None is a call that does not
  compile.
\<close>

subsection \<open>Executors and the types that have one\<close>

datatype executor = System_Executor | Io_Executor nat

text \<open>The members the trait \<open>is_executor\<close> looks for.\<close>

datatype ex_member = Context_M | On_Work_Started_M | On_Work_Finished_M | Dispatch_M | Post_M | Defer_M

text \<open>
  A type as the templates see it: whether it is a class, which of those members it has, whether it
  converts to \<open>execution_context&\<close>, what \<open>get_executor\<close> returns if it names an \<open>executor_type\<close>, and
  the executor it is itself, if it is one.
\<close>

record cpp_type =
  ct_is_class :: bool
  ct_members :: "ex_member list"
  ct_is_context :: bool
  ct_executor :: "executor option"
  ct_self :: "executor option"

definition is_executor_class :: "cpp_type \<Rightarrow> bool" where
  "is_executor_class T \<longleftrightarrow>
     Context_M \<in> set (ct_members T) \<and> On_Work_Started_M \<in> set (ct_members T) \<and>
     On_Work_Finished_M \<in> set (ct_members T) \<and> Dispatch_M \<in> set (ct_members T) \<and>
     Post_M \<in> set (ct_members T) \<and> Defer_M \<in> set (ct_members T)"

definition is_executor :: "cpp_type \<Rightarrow> bool" where
  "is_executor T \<longleftrightarrow> (if ct_is_class T then is_executor_class T else False)"

definition associated_executor :: "cpp_type \<Rightarrow> bool" where
  "associated_executor T \<longleftrightarrow> ct_executor T \<noteq> None"

text \<open>The assertion wants every type with an executor to be an execution context.\<close>

definition get_associated_executor :: "cpp_type \<Rightarrow> executor \<Rightarrow> executor option" where
  "get_associated_executor T ex =
     (if associated_executor T
      then if ct_is_context T then ct_executor T else None
      else Some ex)"

text \<open>The executor the guard is built on.\<close>

definition make_work_guard :: "cpp_type \<Rightarrow> executor \<Rightarrow> executor option" where
  "make_work_guard T e =
     (if is_executor T then ct_self T
      else if associated_executor T then (if ct_is_context T then ct_executor T else None)
      else Some e)"

text \<open>The library's own types.\<close>

definition io_context_type :: "nat \<Rightarrow> cpp_type" where
  "io_context_type c =
     \<lparr>ct_is_class = True, ct_members = [], ct_is_context = True, ct_executor = Some (Io_Executor c), ct_self = None\<rparr>"

definition io_executor_type :: "nat \<Rightarrow> cpp_type" where
  "io_executor_type c =
     \<lparr>ct_is_class = True,
      ct_members = [Context_M, On_Work_Started_M, On_Work_Finished_M, Dispatch_M, Post_M, Defer_M],
      ct_is_context = False, ct_executor = None, ct_self = Some (Io_Executor c)\<rparr>"

definition system_executor_type :: cpp_type where
  "system_executor_type =
     \<lparr>ct_is_class = True,
      ct_members = [Context_M, On_Work_Started_M, On_Work_Finished_M, Dispatch_M, Post_M, Defer_M],
      ct_is_context = False, ct_executor = None, ct_self = Some System_Executor\<rparr>"

subsection \<open>Handlers\<close>

text \<open>A handler: its name, its type and the allocator its class provides, if any.\<close>

record ('h, 'c) token =
  tk_id :: nat
  tk_type :: cpp_type
  tk_allocator :: "('h, 'c) allocator option"

text \<open>\<open>async_completion\<close> keeps a copy of the token as the handler; the result of its \<open>get\<close> is void.\<close>

record ('h, 'c) async_completion =
  ac_handler :: "('h, 'c) token"

definition async_completion_ctor :: "('h, 'c) token \<Rightarrow> ('h, 'c) async_completion" where
  "async_completion_ctor token = \<lparr>ac_handler = token\<rparr>"

definition async_result_get :: "('h, 'c) async_completion \<Rightarrow> unit" where
  "async_result_get init = ()"

definition associated_alloc :: "('h, 'c) token \<Rightarrow> ('h, 'c) allocator" where
  "associated_alloc h = get_associated_allocator (tk_allocator h) Std_Allocator"

text \<open>The function object of an operation: a handler, or a \<open>work_dispatcher\<close> with the executor of its guard.\<close>

datatype ('h, 'c) function_object =
    Handler_Function "('h, 'c) token"
  | Dispatching "('h, 'c) token" executor dispatcher

record ('h, 'c) posted_op =
  po_function :: "('h, 'c) function_object"
  po_allocator :: "('h, 'c) allocator"
  po_place :: pointer

subsection \<open>The contexts\<close>

text \<open>
  The schedulers of the \<open>io_context\<close>s, the global \<open>system_context\<close> once it is built, the calling
  thread, the memory, the operations made so far (an \<open>Executor_Op\<close> is a place in this list) and the
  handlers called, in order.
\<close>

record ('h, 'c) contexts =
  cx_io :: "nat \<Rightarrow> scheduler"
  cx_system :: "system_context option"
  cx_stack :: thread_stack
  cx_recycling :: thread_contexts
  cx_memory :: memory
  cx_ops :: "('h, 'c) posted_op list"
  cx_called :: "nat list"

text \<open>The key of a context on the call stack of a thread.\<close>

fun executor_key :: "executor \<Rightarrow> nat" where
  "executor_key System_Executor = 0"
| "executor_key (Io_Executor c) = Suc c"

fun on_work_started :: "executor \<Rightarrow> ('h, 'c) contexts \<Rightarrow> ('h, 'c) contexts" where
  "on_work_started System_Executor w = w"
| "on_work_started (Io_Executor c) w = w\<lparr>cx_io := (cx_io w)(c := work_started (cx_io w c))\<rparr>"

fun on_work_finished :: "executor \<Rightarrow> ('h, 'c) contexts \<Rightarrow> ('h, 'c) contexts" where
  "on_work_finished System_Executor w = w"
| "on_work_finished (Io_Executor c) w = w\<lparr>cx_io := (cx_io w)(c := work_finished (cx_io w c))\<rparr>"

definition running_in_this_thread :: "nat \<Rightarrow> ('h, 'c) contexts \<Rightarrow> bool" where
  "running_in_this_thread c w = can_dispatch (executor_key (Io_Executor c)) (cx_stack w)"

text \<open>\<open>context()\<close> of the system's executor: the global instance, built on the first use.\<close>

definition system_executor_context ::
    "(unit \<Rightarrow> system_context) \<Rightarrow> ('h, 'c) contexts \<Rightarrow> system_context \<times> ('h, 'c) contexts" where
  "system_executor_context build w =
     (case global_get (\<lambda>w. (build (), w)) (cx_system w) w of (p, inst, w') \<Rightarrow> (p, w'\<lparr>cx_system := inst\<rparr>))"

subsection \<open>Calling a handler\<close>

text \<open>
  \<open>asio_handler_invoke\<close> calls the function, or a copy of it when it is const; a handler's class can
  bring an overload. \<open>invoke\<close> is the helper the library calls.
\<close>

definition asio_handler_invoke :: "bool \<Rightarrow> ('f \<Rightarrow> 'f) \<Rightarrow> ('f \<Rightarrow> 'w \<Rightarrow> 'w) \<Rightarrow> 'f \<Rightarrow> 'w \<Rightarrow> 'w" where
  "asio_handler_invoke is_const copy call function w =
     (if is_const then (let tmp = copy function in call tmp w) else call function w)"

definition handler_invoke ::
    "(('f \<Rightarrow> 'w \<Rightarrow> 'w) option) \<Rightarrow> bool \<Rightarrow> ('f \<Rightarrow> 'f) \<Rightarrow> ('f \<Rightarrow> 'w \<Rightarrow> 'w) \<Rightarrow> 'f \<Rightarrow> 'w \<Rightarrow> 'w" where
  "handler_invoke overload is_const copy call function w =
     (case overload of
        Some invoke_hook \<Rightarrow> invoke_hook function w
      | None \<Rightarrow> asio_handler_invoke is_const copy call function w)"

definition call_handler :: "nat \<Rightarrow> ('h, 'c) contexts \<Rightarrow> ('h, 'c) contexts" where
  "call_handler h w = w\<lparr>cx_called := cx_called w @ [h]\<rparr>"

text \<open>\<open>dispatch\<close> of the system's executor, for a handler without an overload.\<close>

definition system_dispatch :: "nat \<Rightarrow> ('h, 'c) contexts \<Rightarrow> ('h, 'c) contexts" where
  "system_dispatch func w = (let tmp = func in handler_invoke None False (\<lambda>f. f) call_handler tmp w)"

subsection \<open>Posting to an executor\<close>

text \<open>Copying a function object into an operation, and destroying one.\<close>

fun copy_function ::
    "('h, 'c) function_object \<Rightarrow> ('h, 'c) contexts \<Rightarrow> ('h, 'c) function_object \<times> ('h, 'c) contexts" where
  "copy_function (Handler_Function h) w = (Handler_Function h, w)"
| "copy_function (Dispatching h ex d) w =
     (case wd_copy (on_work_started ex) d w of (d', w') \<Rightarrow> (Dispatching h ex d', w'))"

fun destroy_function :: "('h, 'c) function_object \<Rightarrow> ('h, 'c) contexts \<Rightarrow> ('h, 'c) contexts" where
  "destroy_function (Handler_Function h) w = w"
| "destroy_function (Dispatching h ex d) w = wd_dtor (on_work_finished ex) d w"

text \<open>
  \<open>post\<close> and \<open>defer\<close> of either executor: the operation takes memory from the allocator, copies the
  function object and goes to the scheduler of the context.
\<close>

definition hand_over ::
    "('h, 'c) user_code \<Rightarrow> (unit \<Rightarrow> system_context) \<Rightarrow> nat \<Rightarrow> executor \<Rightarrow> bool \<Rightarrow> ('h, 'c) function_object \<Rightarrow>
     ('h, 'c) allocator \<Rightarrow> ('h, 'c) contexts \<Rightarrow> fault + ('h, 'c) contexts" where
  "hand_over uc build sizeof_op ex is_continuation func a w =
     (let (f, w1) = copy_function func w;
          op = length (cx_ops w1);
          over = exec_hand_over (eptr_allocate uc (cx_recycling w1) sizeof_op a)
            (eptr_deallocate uc (cx_recycling w1) sizeof_op a) (executor_key ex) op is_continuation;
          made = (\<lambda>v. \<lparr>po_function = f, po_allocator = a, po_place = the v\<rparr>)
      in case ex of
           Io_Executor c \<Rightarrow>
             (case over (cx_io w1 c, cx_stack w1, cx_memory w1) of
                Inl e \<Rightarrow> Inl e
              | Inr ((s, stk, m), v) \<Rightarrow>
                  Inr (w1\<lparr>cx_io := (cx_io w1)(c := s), cx_stack := stk, cx_memory := m,
                          cx_ops := cx_ops w1 @ [made v]\<rparr>))
         | System_Executor \<Rightarrow>
             (case system_executor_context build w1 of
                (ctx, w2) \<Rightarrow>
                  (case over (sc_scheduler ctx, cx_stack w2, cx_memory w2) of
                     Inl e \<Rightarrow> Inl e
                   | Inr ((s, stk, m), v) \<Rightarrow>
                       Inr (w2\<lparr>cx_system := Some (ctx\<lparr>sc_scheduler := s\<rparr>), cx_stack := stk, cx_memory := m,
                               cx_ops := cx_ops w2 @ [made v]\<rparr>))))"

definition system_post ::
    "('h, 'c) user_code \<Rightarrow> (unit \<Rightarrow> system_context) \<Rightarrow> nat \<Rightarrow> ('h, 'c) function_object \<Rightarrow> ('h, 'c) allocator \<Rightarrow>
     ('h, 'c) contexts \<Rightarrow> fault + ('h, 'c) contexts" where
  "system_post uc build sizeof_op func a w = hand_over uc build sizeof_op System_Executor False func a w"

definition system_defer ::
    "('h, 'c) user_code \<Rightarrow> (unit \<Rightarrow> system_context) \<Rightarrow> nat \<Rightarrow> ('h, 'c) function_object \<Rightarrow> ('h, 'c) allocator \<Rightarrow>
     ('h, 'c) contexts \<Rightarrow> fault + ('h, 'c) contexts" where
  "system_defer uc build sizeof_op func a w = hand_over uc build sizeof_op System_Executor True func a w"

definition executor_post ::
    "('h, 'c) user_code \<Rightarrow> (unit \<Rightarrow> system_context) \<Rightarrow> nat \<Rightarrow> executor \<Rightarrow> ('h, 'c) function_object \<Rightarrow>
     ('h, 'c) allocator \<Rightarrow> ('h, 'c) contexts \<Rightarrow> fault + ('h, 'c) contexts" where
  "executor_post uc build sizeof_op ex func a w =
     (case ex of
        System_Executor \<Rightarrow> system_post uc build sizeof_op func a w
      | Io_Executor c \<Rightarrow> hand_over uc build sizeof_op (Io_Executor c) False func a w)"

subsection \<open>The overloads of post\<close>

text \<open>\<open>post(token)\<close>: the handler itself, on its own executor.\<close>

definition post_token ::
    "('h, 'c) user_code \<Rightarrow> (unit \<Rightarrow> system_context) \<Rightarrow> nat \<Rightarrow> ('h, 'c) token \<Rightarrow> ('h, 'c) contexts \<Rightarrow>
     (fault + ('h, 'c) contexts) option" where
  "post_token uc build sizeof_op token w =
     (let init = async_completion_ctor token
      in case get_associated_executor (tk_type (ac_handler init)) System_Executor of
           None \<Rightarrow> None
         | Some ex \<Rightarrow>
             Some (executor_post uc build sizeof_op ex (Handler_Function (ac_handler init))
               (associated_alloc (ac_handler init)) w))"

text \<open>
  The other two wrap the handler in a temporary dispatcher, with a guard on the handler's own
  executor, and post that to the given executor; the temporary ends when \<open>post\<close> has returned.
\<close>

definition post_dispatching ::
    "('h, 'c) user_code \<Rightarrow> (unit \<Rightarrow> system_context) \<Rightarrow> nat \<Rightarrow> executor \<Rightarrow> ('h, 'c) token \<Rightarrow> ('h, 'c) contexts \<Rightarrow>
     (fault + ('h, 'c) contexts) option" where
  "post_dispatching uc build sizeof_op ex token w =
     (let h = ac_handler (async_completion_ctor token)
      in case get_associated_executor (tk_type h) System_Executor of
           None \<Rightarrow> None
         | Some e \<Rightarrow>
             (let (temp, w1) = wd_ctor (on_work_started e) (tk_id h) w
              in case executor_post uc build sizeof_op ex (Dispatching h e temp) (associated_alloc h) w1 of
                   Inl f \<Rightarrow> Some (Inl f)
                 | Inr w2 \<Rightarrow> Some (Inr (destroy_function (Dispatching h e temp) w2))))"

definition post_executor ::
    "('h, 'c) user_code \<Rightarrow> (unit \<Rightarrow> system_context) \<Rightarrow> nat \<Rightarrow> cpp_type \<Rightarrow> ('h, 'c) token \<Rightarrow> ('h, 'c) contexts \<Rightarrow>
     (fault + ('h, 'c) contexts) option" where
  "post_executor uc build sizeof_op E token w =
     (if is_executor E
      then (case ct_self E of None \<Rightarrow> None | Some ex \<Rightarrow> post_dispatching uc build sizeof_op ex token w)
      else None)"

definition post_context ::
    "('h, 'c) user_code \<Rightarrow> (unit \<Rightarrow> system_context) \<Rightarrow> nat \<Rightarrow> cpp_type \<Rightarrow> ('h, 'c) token \<Rightarrow> ('h, 'c) contexts \<Rightarrow>
     (fault + ('h, 'c) contexts) option" where
  "post_context uc build sizeof_op E token w =
     (if ct_is_context E
      then (case ct_executor E of None \<Rightarrow> None | Some ex \<Rightarrow> post_dispatching uc build sizeof_op ex token w)
      else None)"

subsection \<open>Completing an operation\<close>

text \<open>\<open>dispatch\<close> of an executor: at once, or like \<open>post\<close> when the thread does not run the context.\<close>

definition executor_dispatch ::
    "('h, 'c) user_code \<Rightarrow> (unit \<Rightarrow> system_context) \<Rightarrow> nat \<Rightarrow> executor \<Rightarrow> ('h, 'c) token \<Rightarrow>
     ('h, 'c) contexts \<Rightarrow> fault + ('h, 'c) contexts" where
  "executor_dispatch uc build sizeof_op ex h w =
     (case ex of
        System_Executor \<Rightarrow> Inr (system_dispatch (tk_id h) w)
      | Io_Executor c \<Rightarrow>
          if running_in_this_thread c w then Inr (call_handler (tk_id h) w)
          else hand_over uc build sizeof_op (Io_Executor c) False (Handler_Function h) (associated_alloc h) w)"

text \<open>Calling the function object: the handler, or \<open>work_dispatcher::operator()\<close>.\<close>

fun call_function ::
    "('h, 'c) user_code \<Rightarrow> (unit \<Rightarrow> system_context) \<Rightarrow> nat \<Rightarrow> ('h, 'c) function_object \<Rightarrow> ('h, 'c) contexts \<Rightarrow>
     fault + ('h, 'c) function_object \<times> ('h, 'c) contexts" where
  "call_function uc build sizeof_op (Handler_Function h) w = Inr (Handler_Function h, call_handler (tk_id h) w)"
| "call_function uc build sizeof_op (Dispatching h ex d) w =
     (case executor_dispatch uc build sizeof_op ex h w of
        Inl e \<Rightarrow> Inl e
      | Inr w1 \<Rightarrow>
          (case guard_reset (on_work_finished ex) (wd_work d) w1 of
             (g, w2) \<Rightarrow> Inr (Dispatching h ex (d\<lparr>wd_work := g\<rparr>), w2)))"

text \<open>
  \<open>executor_op::do_complete\<close> on the operation at a place of the list: copy the function object,
  destroy the operation and give back its memory (through the allocator that was destroyed with it),
  call the copy if there is an owner, destroy it.
\<close>

definition complete_executor_op ::
    "('h, 'c) user_code \<Rightarrow> (unit \<Rightarrow> system_context) \<Rightarrow> nat \<Rightarrow> bool \<Rightarrow> nat \<Rightarrow> ('h, 'c) contexts \<Rightarrow>
     fault + ('h, 'c) contexts" where
  "complete_executor_op uc build sizeof_op owner op w =
     (let o_op = cx_ops w ! op;
          (copy_handler, w1) = copy_function (po_function o_op) w;
          w2 = destroy_function (po_function o_op) w1
      in case eptr_reset_in_op uc (cx_recycling w2) sizeof_op (po_allocator o_op)
                \<lparr>ptr_v = Some (po_place o_op), ptr_p = Some (po_place o_op)\<rparr> (cx_memory w2) of
           Inl e \<Rightarrow> Inl e
         | Inr (_, _, m) \<Rightarrow>
             (let w3 = w2\<lparr>cx_memory := m\<rparr>
              in if owner
                 then (case call_function uc build sizeof_op copy_handler w3 of
                         Inl e \<Rightarrow> Inl e
                       | Inr (f, w4) \<Rightarrow> Inr (destroy_function f w4))
                 else Inr (destroy_function copy_handler w3)))"

end
