(* ===== verification/Posting_Properties.thy ===== *)
theory Posting_Properties
  imports Posting
begin

text \<open>
  What \<open>post\<close> promises, whichever overload and whichever type of argument: the right queue, the right
  count of work, the right memory, one call of the handler.
\<close>

subsection \<open>Counting the work of a context\<close>

lemma on_work_count:
  "sch_outstanding_work (cx_io (on_work_started ex w) c) =
     sch_outstanding_work (cx_io w c) + (if ex = Io_Executor c then 1 else 0)"
  "sch_outstanding_work (cx_io (on_work_finished ex w) c) =
     sch_outstanding_work (cx_io w c) - (if ex = Io_Executor c then 1 else 0)"
  by (cases ex; simp add: work_started_def work_finished_count)+

text \<open>The guards of an executor count work for its own context and for no other.\<close>

interpretation posting: work_counter "on_work_started ex" "on_work_finished ex"
    "\<lambda>w. sch_outstanding_work (cx_io w c)" "if ex = Io_Executor c then 1 else 0"
  for ex c
  by unfold_locales (rule on_work_count)+

text \<open>\<open>make_work_guard\<close> finds the executor: of an \<open>io_context\<close> its own, of an executor itself, of
  anything else the default; and a guard on it counts work for exactly that context.\<close>

theorem make_work_guard_counts:
  assumes "make_work_guard T e = Some ex"
    and "T \<in> {io_context_type c, io_executor_type c} \<or> T = system_executor_type \<or>
      \<not> is_executor T \<and> \<not> associated_executor T"
    and "guard_ctor (on_work_started ex) w = (g, w1)"
  shows "ex = (if T \<in> {io_context_type c, io_executor_type c} then Io_Executor c
      else if T = system_executor_type then System_Executor else e) \<and>
    (\<forall>c'. sch_outstanding_work (cx_io w1 c') =
      sch_outstanding_work (cx_io w c') + (if ex = Io_Executor c' then 1 else 0)) \<and>
    (\<forall>c'. sch_outstanding_work (cx_io (guard_dtor (on_work_finished ex) g w1) c') = sch_outstanding_work (cx_io w c'))"
proof -
  have "ex = (if T \<in> {io_context_type c, io_executor_type c} then Io_Executor c
      else if T = system_executor_type then System_Executor else e)"
    using assms(1,2)
    by (auto simp: make_work_guard_def is_executor_def is_executor_class_def associated_executor_def
        io_context_type_def io_executor_type_def system_executor_type_def)
  moreover have "sch_outstanding_work (cx_io (guard_dtor (on_work_finished ex) g w1) c') = sch_outstanding_work (cx_io w c')" for c'
    using posting.guards_balance [OF assms(3), of 0 c'] by simp
  ultimately show ?thesis using posting.ctor_work [OF assms(3)] by auto
qed

definition demo_contexts :: "(nat, nat) contexts" where
  "demo_contexts = \<lparr>cx_io = (\<lambda>_. demo_idle_sched), cx_system = None, cx_stack = [], cx_recycling = [(0, 7)],
     cx_memory = demo_heap, cx_ops = [], cx_called = []\<rparr>"

theorem make_work_guard_counts_witness:
  "\<exists>g w1. guard_ctor (on_work_started (Io_Executor 3)) demo_contexts = (g, w1) \<and>
     sch_outstanding_work (cx_io w1 3) = 1 \<and> sch_outstanding_work (cx_io w1 4) = 0"
proof -
  have guard: "make_work_guard (io_context_type 3) System_Executor = Some (Io_Executor 3)"
    by (simp add: make_work_guard_def io_context_type_def is_executor_def is_executor_class_def associated_executor_def)
  obtain g w1 where ctor: "guard_ctor (on_work_started (Io_Executor 3)) demo_contexts = (g, w1)" by force
  with make_work_guard_counts [OF guard _ ctor, of 3] show ?thesis
    by (auto simp: demo_contexts_def demo_idle_sched_def)
qed

subsection \<open>Posting\<close>

definition plain :: "('h, 'c) token \<Rightarrow> bool" where
  "plain h \<longleftrightarrow> \<not> associated_executor (tk_type h)"

lemma plain_executor: "plain h \<Longrightarrow> get_associated_executor (tk_type h) System_Executor = Some System_Executor"
  by (simp add: plain_def get_associated_executor_def)

text \<open>The dispatcher of a plain handler holds a guard that counts nothing.\<close>

abbreviation plain_dispatcher :: "('h, 'c) token \<Rightarrow> ('h, 'c) function_object" where
  "plain_dispatcher h \<equiv> Dispatching h System_Executor \<lparr>wd_work = \<lparr>gd_owns = True\<rparr>, wd_handler = tk_id h\<rparr>"

lemma system_guard:
  "wd_ctor (on_work_started System_Executor) (tk_id h) w =
     (\<lparr>wd_work = \<lparr>gd_owns = True\<rparr>, wd_handler = tk_id h\<rparr>, w)"
  "copy_function (plain_dispatcher h) w = (plain_dispatcher h, w)"
  "destroy_function (plain_dispatcher h) w = w"
  by (simp_all add: wd_ctor_def wd_copy_def wd_dtor_def guard_ctor_def guard_copy_def guard_dtor_def)

lemma post_immediate_shared:
  assumes "\<not> can_dispatch self stk \<or> \<not> sch_one_thread s"
  shows "post_immediate_completion self op False s stk = (do_dispatch op s, stk)"
  using assms
  by (auto simp: post_immediate_completion_def do_dispatch_def can_dispatch_def Let_def split: option.splits)

text \<open>Where a plain function ends up when it is posted to the context \<open>c\<close>.\<close>

lemma post_plain_eq:
  assumes "plain h" and "\<not> running_in_this_thread c w \<or> \<not> sch_one_thread (cx_io w c)"
    and "eptr_allocate uc (cx_recycling w) sz (associated_alloc h) (cx_memory w) = (v, m)"
  shows "post_dispatching uc build sz (Io_Executor c) h w =
    Some (Inr (w\<lparr>cx_io := (cx_io w)(c := do_dispatch (Executor_Op (length (cx_ops w))) (cx_io w c)), cx_memory := m,
      cx_ops := cx_ops w @ [\<lparr>po_function = plain_dispatcher h, po_allocator = associated_alloc h, po_place = v\<rparr>]\<rparr>))"
proof -
  have "post_immediate_completion (Suc c) (Executor_Op (length (cx_ops w))) False (cx_io w c) (cx_stack w) =
      (do_dispatch (Executor_Op (length (cx_ops w))) (cx_io w c), cx_stack w)"
    using assms(2) by (intro post_immediate_shared) (auto simp: running_in_this_thread_def)
  with assms(1,3) show ?thesis
    by (simp add: post_dispatching_def async_completion_ctor_def plain_executor system_guard executor_post_def
        hand_over_def hand_over_eq del: copy_function.simps destroy_function.simps)
qed

lemma complete_plain_eq:
  assumes "op < length (cx_ops w)" and "cx_ops w ! op = \<lparr>po_function = plain_dispatcher h, po_allocator = a, po_place = v\<rparr>"
    and "\<not> has_state uc a"
    and "eptr_deallocate uc (cx_recycling w) sz a v (cx_memory w) = Inr m"
  shows "complete_executor_op uc build sz owner op w =
    Inr (w\<lparr>cx_memory := m, cx_called := cx_called w @ (if owner then [tk_id h] else [])\<rparr>)"
  using assms
  by (simp add: complete_executor_op_def system_guard eptr_reset_in_op_eq executor_dispatch_def system_dispatch_def
      handler_invoke_def asio_handler_invoke_def call_handler_def guard_reset_def Let_def
      del: copy_function.simps destroy_function.simps)

lemma do_dispatch_queue:
  "sch_op_queue (do_dispatch op s) = sch_op_queue s @ [op]"
  "sch_outstanding_work (do_dispatch op s) = sch_outstanding_work s + 1"
  by (simp_all add: do_dispatch_def frame_simps push_op_def oq_push_def work_started_def)

text \<open>C29. A plain function posted to an \<open>io_context\<close>, by the context or by its executor, which come to
  the same: it takes memory nobody has and is queued once at the end of that context's queue with one
  unit of work; no other context is touched and the system's is not even built. When a thread of
  whatever call stack completes the operation, with any allocator that serves every thread and has
  no state (\<open>do_complete\<close> reads it when it is destroyed), its
  memory is given back and the handler is called exactly once, or not at all when the operation is
  destroyed instead; either way no count of work changes.\<close>

theorem posted_function_called_once:
  assumes "plain h" and "portable uc (associated_alloc h)" and "mem_inv (cx_memory w)"
    and "\<not> running_in_this_thread c w \<or> \<not> sch_one_thread (cx_io w c)"
  shows "\<exists>w1. post_context uc build sz (io_context_type c) h w = Some (Inr w1) \<and>
    post_executor uc build sz (io_executor_type c) h w = Some (Inr w1) \<and>
    sch_op_queue (cx_io w1 c) = sch_op_queue (cx_io w c) @ [Executor_Op (length (cx_ops w))] \<and>
    sch_outstanding_work (cx_io w1 c) = sch_outstanding_work (cx_io w c) + 1 \<and>
    (\<forall>c'. c' \<noteq> c \<longrightarrow> cx_io w1 c' = cx_io w c') \<and> cx_system w1 = cx_system w \<and>
    (\<forall>stk contexts owner. \<exists>w2.
      complete_executor_op uc build sz owner (length (cx_ops w)) (w1\<lparr>cx_stack := stk, cx_recycling := contexts\<rparr>) = Inr w2 \<and>
      cx_called w2 = cx_called w @ (if owner then [tk_id h] else []) \<and> cx_io w2 = cx_io w1 \<and>
      (\<forall>q. handed_out (cx_memory w2) q \<longleftrightarrow> handed_out (cx_memory w) q))"
proof -
  obtain own where any: "any_thread_allocator uc (associated_alloc h) sz own"
    using portable_any_thread [OF assms(2)] by blast
  then have al: "operation_allocator mem_inv handed_out own (eptr_allocate uc k sz (associated_alloc h))
      (eptr_deallocate uc k sz (associated_alloc h))" for k
    by (simp add: any_thread_allocator_def)
  obtain v m where v: "eptr_allocate uc (cx_recycling w) sz (associated_alloc h) (cx_memory w) = (v, m)" by force
  note taken = operation_allocator.alloc_inv [OF al assms(3) v] operation_allocator.alloc_fresh [OF al assms(3) v]
    operation_allocator.alloc_out [OF al assms(3) v] operation_allocator.alloc_own [OF al v]
  let ?w1 = "w\<lparr>cx_io := (cx_io w)(c := do_dispatch (Executor_Op (length (cx_ops w))) (cx_io w c)), cx_memory := m,
      cx_ops := cx_ops w @ [\<lparr>po_function = plain_dispatcher h, po_allocator = associated_alloc h, po_place = v\<rparr>]\<rparr>"
  have "\<exists>w2. complete_executor_op uc build sz owner (length (cx_ops w)) (?w1\<lparr>cx_stack := stk, cx_recycling := contexts\<rparr>) = Inr w2 \<and>
      cx_called w2 = cx_called w @ (if owner then [tk_id h] else []) \<and> cx_io w2 = cx_io ?w1 \<and>
      (\<forall>q. handed_out (cx_memory w2) q \<longleftrightarrow> handed_out (cx_memory w) q)" for stk contexts owner
  proof -
    let ?w = "?w1\<lparr>cx_stack := stk, cx_recycling := contexts\<rparr>"
    obtain m' where m': "eptr_deallocate uc contexts sz (associated_alloc h) v m = Inr m'"
      "\<forall>q. handed_out m' q \<longleftrightarrow> handed_out m q \<and> q \<noteq> v"
      using operation_allocator.dealloc_ok [OF al taken(1) _ taken(4)] taken(3) by blast
    have "complete_executor_op uc build sz owner (length (cx_ops w)) ?w =
        Inr (?w\<lparr>cx_memory := m', cx_called := cx_called ?w @ (if owner then [tk_id h] else [])\<rparr>)"
      by (rule complete_plain_eq [where a = "associated_alloc h" and v = v]) (simp_all add: m'(1) portable_stateless [OF assms(2)])
    moreover have "handed_out m' q \<longleftrightarrow> handed_out (cx_memory w) q" for q using m'(2) taken by metis
    ultimately show ?thesis by simp
  qed
  moreover have "post_context uc build sz (io_context_type c) h w = Some (Inr ?w1)"
    "post_executor uc build sz (io_executor_type c) h w = Some (Inr ?w1)"
    using post_plain_eq [OF assms(1,4) v, of build]
    by (simp_all add: post_context_def post_executor_def io_context_type_def io_executor_type_def is_executor_def
        is_executor_class_def)
  ultimately show ?thesis
    by (intro exI [of _ ?w1]) (simp add: do_dispatch_queue)
qed

definition plain_type :: cpp_type where
  "plain_type = \<lparr>ct_is_class = True, ct_members = [], ct_is_context = False, ct_executor = None, ct_self = None\<rparr>"

theorem posted_function_called_once_witness:
  "\<exists>w1 w2. post_context demo_user (\<lambda>_. system_context_ctor demo_idle_sched 1) 64 (io_context_type 3)
      \<lparr>tk_id = 5, tk_type = plain_type, tk_allocator = None\<rparr> demo_contexts = Some (Inr w1) \<and>
    sch_op_queue (cx_io w1 3) = [Executor_Op 0] \<and>
    complete_executor_op demo_user (\<lambda>_. system_context_ctor demo_idle_sched 1) 64 True 0
      (w1\<lparr>cx_stack := [], cx_recycling := []\<rparr>) = Inr w2 \<and> cx_called w2 = [5]"
proof -
  let ?h = "\<lparr>tk_id = 5, tk_type = plain_type, tk_allocator = None\<rparr> :: (nat, nat) token"
  have "plain ?h" "portable demo_user (associated_alloc ?h)"
    by (simp_all add: plain_def plain_type_def associated_executor_def associated_alloc_def
        associated_allocator_def get_associated_allocator_def portable_def)
  moreover have "mem_inv (cx_memory demo_contexts)" "\<not> running_in_this_thread 3 demo_contexts"
    by (simp_all add: demo_contexts_def mem_inv_def running_in_this_thread_def can_dispatch_def)
  ultimately obtain w1 where w1: "post_context demo_user (\<lambda>_. system_context_ctor demo_idle_sched 1) 64
      (io_context_type 3) ?h demo_contexts = Some (Inr w1)"
    "sch_op_queue (cx_io w1 3) = sch_op_queue (cx_io demo_contexts 3) @ [Executor_Op (length (cx_ops demo_contexts))]"
    "\<And>stk contexts owner. \<exists>w2. complete_executor_op demo_user (\<lambda>_. system_context_ctor demo_idle_sched 1) 64 owner
      (length (cx_ops demo_contexts)) (w1\<lparr>cx_stack := stk, cx_recycling := contexts\<rparr>) = Inr w2 \<and>
      cx_called w2 = cx_called demo_contexts @ (if owner then [tk_id ?h] else [])"
    using posted_function_called_once [of ?h demo_user demo_contexts 3 "\<lambda>_. system_context_ctor demo_idle_sched 1" 64]
    by blast
  obtain w2 where "complete_executor_op demo_user (\<lambda>_. system_context_ctor demo_idle_sched 1) 64 True 0
      (w1\<lparr>cx_stack := [], cx_recycling := []\<rparr>) = Inr w2" "cx_called w2 = [5]"
    using w1(3) [of True "[]" "[]"] by (auto simp: demo_contexts_def)
  with w1(1,2) show ?thesis by (auto simp: demo_contexts_def demo_idle_sched_def)
qed

text \<open>Without a context or an executor a plain function goes to the system's context, built on the way.\<close>

lemma plain_post_goes_to_system:
  assumes "plain h" and "cx_stack w = []"
    and "post_token uc build sz h w = Some (Inr w1)"
  shows "cx_io w1 = cx_io w \<and>
    (\<exists>ctx. cx_system w1 = Some ctx \<and>
      sch_op_queue (sc_scheduler ctx) =
        sch_op_queue (sc_scheduler (case cx_system w of None \<Rightarrow> build () | Some p \<Rightarrow> p)) @
        [Executor_Op (length (cx_ops w))])"
  using assms
  by (auto simp: post_token_def async_completion_ctor_def plain_executor executor_post_def system_post_def
      hand_over_def hand_over_eq system_executor_context_def global_get_def post_immediate_shared can_dispatch_def
      do_dispatch_queue split: prod.splits option.splits)

text \<open>
  A handler whose class names an \<open>executor_type\<close> cannot be posted in any way, unless it is an execution
  context: the assertion of \<open>get_associated_executor\<close> rejects it.
\<close>

lemma handler_with_executor_rejected:
  assumes "ct_executor (tk_type h) = Some ex" and "\<not> ct_is_context (tk_type h)"
  shows "post_token uc build sz h w = None" "post_executor uc build sz E h w = None"
    "post_context uc build sz E h w = None"
  using assms
  by (auto simp: post_token_def post_executor_def post_context_def post_dispatching_def async_completion_ctor_def
      get_associated_executor_def associated_executor_def split: option.splits)

end
