(* ===== verification/Context_Runs.thy ===== *)
theory Context_Runs
  imports Posting_Properties Addresses
begin

text \<open>
  \<^verbatim>\<open>scheduler_operation.hpp\<close>, the callers of \<open>run\<close> (\<^verbatim>\<open>io_context.cc\<close> and the threads of
  \<^verbatim>\<open>system_context.cpp\<close>) and \<open>scheduler::shutdown\<close> of \<^verbatim>\<open>scheduler.cc\<close>, over the contexts and the
  memory of Posting: what becomes of an operation that was posted, whether it is run or destroyed.
\<close>

subsection \<open>Operations\<close>

text \<open>\<open>func_\<close> is None when the function is empty; its first argument tells whether there is an owner.\<close>

record 'w operation =
  so_task_result :: uint32
  so_func :: "(bool \<Rightarrow> error_code \<Rightarrow> size_t \<Rightarrow> 'w \<Rightarrow> 'w) option"

definition operation_ctor :: "(bool \<Rightarrow> error_code \<Rightarrow> size_t \<Rightarrow> 'w \<Rightarrow> 'w) option \<Rightarrow> 'w operation" where
  "operation_ctor func = \<lparr>so_task_result = 0, so_func = func\<rparr>"

definition operation_complete :: "'w operation \<Rightarrow> bool \<Rightarrow> error_code \<Rightarrow> size_t \<Rightarrow> 'w \<Rightarrow> 'w" where
  "operation_complete o_ptr owner ec bytes_transferred w =
     (case so_func o_ptr of
        Some func \<Rightarrow> func owner ec bytes_transferred w
      | None \<Rightarrow> w)"

definition operation_destroy :: "'w operation \<Rightarrow> 'w \<Rightarrow> 'w" where
  "operation_destroy o_ptr w =
     (case so_func o_ptr of
        Some func \<Rightarrow> func False no_error 0 w
      | None \<Rightarrow> w)"

text \<open>
  The \<open>executor_op\<close> at a place of the list of operations: \<open>do_complete\<close> is its function. After a
  fault nothing is done.
\<close>

definition executor_operation ::
    "('h, 'c) user_code \<Rightarrow> (unit \<Rightarrow> system_context) \<Rightarrow> nat \<Rightarrow> op_ref \<Rightarrow> (fault + ('h, 'c) contexts) operation" where
  "executor_operation uc build sizeof_op op =
     operation_ctor (Some (\<lambda>owner ec bytes_transferred r.
       case (r, op) of
         (Inl e, _) \<Rightarrow> Inl e
       | (Inr w, Executor_Op i) \<Rightarrow> complete_executor_op uc build sizeof_op owner i w
       | (Inr w, _) \<Rightarrow> Inl Undefined_Behaviour))"

subsection \<open>The callers of run\<close>

text \<open>
  \<open>scheduler::run\<close> clears the error code it is given and never sets it, so what \<open>io_context::run\<close> does
  with it has no effect. An exception that leaves the function of a thread ends the program.
\<close>

definition io_context_run ::
    "nat \<Rightarrow> (op_ref \<Rightarrow> 'w run_state \<Rightarrow> 'w run_state) \<Rightarrow> (int \<Rightarrow> 'w run_state \<Rightarrow> 'w run_state) \<Rightarrow>
     'w run_state \<Rightarrow> (fault + size_t \<times> 'w run_state) option" where
  "io_context_run self complete task_run st =
     (let ec = no_error
      in case sched_run self complete task_run st of
           None \<Rightarrow> None
         | Some (Inl e) \<Rightarrow> Some (Inl e)
         | Some (Inr (n, st')) \<Rightarrow> Some (throw_error (ec \<noteq> no_error) (Throw_Error_Code ec) (n, st')))"

definition thread_function ::
    "nat \<Rightarrow> (op_ref \<Rightarrow> 'w run_state \<Rightarrow> 'w run_state) \<Rightarrow> (int \<Rightarrow> 'w run_state \<Rightarrow> 'w run_state) \<Rightarrow>
     'w run_state \<Rightarrow> (fault + 'w run_state) option" where
  "thread_function scheduler complete task_run st =
     (case sched_run scheduler complete task_run st of
        None \<Rightarrow> None
      | Some (Inl (Throw_Error_Code _)) \<Rightarrow> Some (Inl Terminated)
      | Some (Inl Throw_System_Error) \<Rightarrow> Some (Inl Terminated)
      | Some (Inl e) \<Rightarrow> Some (Inl e)
      | Some (Inr (_, st')) \<Rightarrow> Some (Inr st'))"

lemma io_context_run_eq: "io_context_run self complete task_run st = sched_run self complete task_run st"
  by (simp add: io_context_run_def throw_error_def Let_def split: option.split sum.split)

lemma thread_function_returns:
  "thread_function self complete task_run st = Some (Inr st') \<longleftrightarrow>
   (\<exists>n. sched_run self complete task_run st = Some (Inr (n, st')))"
  by (auto simp: thread_function_def split: option.split sum.split fault.split)

lemma thread_function_terminates:
  "thread_function self complete task_run st = Some (Inl Terminated)"
  if "sched_run self complete task_run st \<in> {Some (Inl (Throw_Error_Code ec)), Some (Inl Throw_System_Error)}"
  using that by (auto simp: thread_function_def)

text \<open>
  A call of \<open>run\<close> of the context \<open>c\<close> by the thread whose call stack the contexts hold. The scheduler
  and the call stack are those \<open>run\<close> works on; they are put in place for each operation and taken out
  again after it.
\<close>

definition complete_in_context ::
    "('h, 'c) user_code \<Rightarrow> (unit \<Rightarrow> system_context) \<Rightarrow> nat \<Rightarrow> nat \<Rightarrow> op_ref \<Rightarrow>
     (fault + ('h, 'c) contexts) run_state \<Rightarrow> (fault + ('h, 'c) contexts) run_state" where
  "complete_in_context uc build sizeof_op c op st =
     (case st of
        (s, stk, Inl e) \<Rightarrow> st
      | (s, stk, Inr w) \<Rightarrow>
          (case operation_complete (executor_operation uc build sizeof_op op) True no_error 0
                  (Inr (w\<lparr>cx_io := (cx_io w)(c := s), cx_stack := stk\<rparr>)) of
             Inl e \<Rightarrow> (s, stk, Inl e)
           | Inr w1 \<Rightarrow> (cx_io w1 c, cx_stack w1, Inr (w1\<lparr>cx_io := (cx_io w1)(c := cx_io w c), cx_stack := cx_stack w\<rparr>))))"

definition run_context ::
    "('h, 'c) user_code \<Rightarrow> (unit \<Rightarrow> system_context) \<Rightarrow> nat \<Rightarrow> nat \<Rightarrow> ('h, 'c) contexts \<Rightarrow>
     (fault + size_t \<times> ('h, 'c) contexts) option" where
  "run_context uc build sizeof_op c w =
     (case io_context_run (executor_key (Io_Executor c)) (complete_in_context uc build sizeof_op c) (\<lambda>usec st. st)
             (cx_io w c, cx_stack w, Inr w) of
        None \<Rightarrow> None
      | Some (Inl e) \<Rightarrow> Some (Inl e)
      | Some (Inr (n, s, stk, Inl e)) \<Rightarrow> Some (Inl e)
      | Some (Inr (n, s, stk, Inr w1)) \<Rightarrow> Some (Inr (n, w1\<lparr>cx_io := (cx_io w1)(c := s), cx_stack := stk\<rparr>)))"

subsection \<open>Shutting a context down\<close>

text \<open>\<open>scheduler::shutdown\<close>, where destroying an operation can act on any context.\<close>

definition set_queue :: "nat \<Rightarrow> op_ref op_queue \<Rightarrow> ('h, 'c) contexts \<Rightarrow> ('h, 'c) contexts" where
  "set_queue c q w = w\<lparr>cx_io := (cx_io w)(c := (cx_io w c)\<lparr>sch_op_queue := q\<rparr>)\<rparr>"

partial_function (option) shutdown_loop ::
    "('h, 'c) user_code \<Rightarrow> (unit \<Rightarrow> system_context) \<Rightarrow> nat \<Rightarrow> nat \<Rightarrow> ('h, 'c) contexts \<Rightarrow>
     (fault + ('h, 'c) contexts) option" where
  "shutdown_loop uc build sizeof_op c w =
     (case oq_front (sch_op_queue (cx_io w c)) of
        None \<Rightarrow> Some (Inr w)
      | Some o_ptr \<Rightarrow>
          (case oq_pop (sch_op_queue (cx_io w c)) of
             Inl e \<Rightarrow> Some (Inl e)
           | Inr q \<Rightarrow>
               if o_ptr = Task_Operation then shutdown_loop uc build sizeof_op c (set_queue c q w)
               else (case operation_destroy (executor_operation uc build sizeof_op o_ptr) (Inr (set_queue c q w)) of
                       Inl e \<Rightarrow> Some (Inl e)
                     | Inr w1 \<Rightarrow> shutdown_loop uc build sizeof_op c w1)))"

definition shut_down_context ::
    "('h, 'c) user_code \<Rightarrow> (unit \<Rightarrow> system_context) \<Rightarrow> nat \<Rightarrow> nat \<Rightarrow> ('h, 'c) contexts \<Rightarrow>
     (fault + ('h, 'c) contexts) option" where
  "shut_down_context uc build sizeof_op c w =
     (case shutdown_loop uc build sizeof_op c
             (w\<lparr>cx_io := (cx_io w)(c := (cx_io w c)\<lparr>sch_shutdown := True\<rparr>)\<rparr>) of
        None \<Rightarrow> None
      | Some (Inl e) \<Rightarrow> Some (Inl e)
      | Some (Inr w1) \<Rightarrow> Some (Inr (w1\<lparr>cx_io := (cx_io w1)(c := (cx_io w1 c)\<lparr>sch_task := None\<rparr>)\<rparr>)))"

subsection \<open>The end of the program\<close>

text \<open>
  The destructor of the global instance deletes what \<open>global\<close> built, if it was ever called (the
  pointer starts as null).
\<close>

definition global_dtor :: "('t \<Rightarrow> fault + 'r) \<Rightarrow> 't option \<Rightarrow> fault + unit" where
  "global_dtor delete_t instance_ptr =
     (case instance_ptr of
        None \<Rightarrow> Inr ()
      | Some p \<Rightarrow> (case delete_t p of Inl e \<Rightarrow> Inl e | Inr _ \<Rightarrow> Inr ()))"

lemma system_threads_joinable: "True \<in> set (sc_threads (system_context_ctor raw n))"
  by (auto simp: system_context_ctor_def create_threads_def nat_mult_distrib Let_def)

lemma joinable_terminates: "True \<in> set (sc_threads c) \<Longrightarrow> system_context_dtor c = Inl Terminated"
  by (auto simp: system_context_dtor_def thread_group_dtor_def threads_join_def Let_def)

text \<open>A program that has posted one plain function without naming a context cannot end normally.\<close>

lemma system_post_ends_in_terminate:
  assumes "plain h" and "cx_system w = None"
    and "post_token uc (\<lambda>_. system_context_ctor raw n) sz h w = Some (Inr w1)"
  shows "global_dtor system_context_dtor (cx_system w1) = Inl Terminated"
proof -
  obtain ctx where "cx_system w1 = Some ctx" "sc_threads ctx = sc_threads (system_context_ctor raw n)"
    using assms
    by (auto simp: post_token_def async_completion_ctor_def plain_executor executor_post_def system_post_def
        hand_over_def system_executor_context_def global_get_def split: prod.splits option.splits sum.splits)
  with system_threads_joinable [of raw n] show ?thesis
    by (simp add: global_dtor_def joinable_terminates)
qed

end
