(* ===== verification/Context_Refinement.thy ===== *)
theory Context_Refinement
  imports Context_Runs
begin

text \<open>
  What a program sees of several contexts: for each a queue of functions, a count of work and
  whether it is stopped, and the functions called so far. Posting, running and shutting down
  contexts, with schedulers, operations, allocators and memory, is shown to behave like that.
\<close>

subsection \<open>The abstract contexts\<close>

datatype ('h, 'c) program_event =
    Post_To_Context nat "('h, 'c) token"
  | Post_To_Executor nat "('h, 'c) token"
  | Run_Context nat
  | Shut_Down nat

record queues =
  qs_waiting :: "nat \<Rightarrow> nat list"
  qs_work :: "nat \<Rightarrow> nat"
  qs_stopped :: "nat \<Rightarrow> bool"
  qs_called :: "nat list"

text \<open>
  \<open>run\<close> calls what waits if the count is just that, and does nothing in a context that is stopped. It
  does not return (None) when more is counted than waits: a guard, or work that \<open>shutdown\<close> threw away.
\<close>

definition post_queue :: "nat \<Rightarrow> nat \<Rightarrow> queues \<Rightarrow> queues" where
  "post_queue c h q =
     q\<lparr>qs_waiting := (qs_waiting q)(c := qs_waiting q c @ [h]), qs_work := (qs_work q)(c := Suc (qs_work q c))\<rparr>"

definition run_queue :: "nat \<Rightarrow> queues \<Rightarrow> queues option" where
  "run_queue c q =
     (if qs_work q c = 0 then Some (q\<lparr>qs_stopped := (qs_stopped q)(c := True)\<rparr>)
      else if qs_stopped q c then Some q
      else if qs_work q c = length (qs_waiting q c)
      then Some (q\<lparr>qs_waiting := (qs_waiting q)(c := []), qs_work := (qs_work q)(c := 0),
                   qs_stopped := (qs_stopped q)(c := True), qs_called := qs_called q @ qs_waiting q c\<rparr>)
      else None)"

fun queue_event :: "('h, 'c) program_event \<Rightarrow> queues \<Rightarrow> queues option" where
  "queue_event (Post_To_Context c h) q = Some (post_queue c (tk_id h) q)"
| "queue_event (Post_To_Executor c h) q = Some (post_queue c (tk_id h) q)"
| "queue_event (Run_Context c) q = run_queue c q"
| "queue_event (Shut_Down c) q = Some (q\<lparr>qs_waiting := (qs_waiting q)(c := [])\<rparr>)"

fun queue_events :: "('h, 'c) program_event list \<Rightarrow> queues \<Rightarrow> queues option" where
  "queue_events [] q = Some q"
| "queue_events (e # es) q = (case queue_event e q of None \<Rightarrow> None | Some q' \<Rightarrow> queue_events es q')"

subsection \<open>The contexts of the library\<close>

text \<open>Each event happens on a thread, with the call stacks of its schedulers and of its recycled memory.\<close>

type_synonym ('h, 'c) thread_event = "thread_stack \<times> thread_contexts \<times> ('h, 'c) program_event"

fun context_event ::
    "('h, 'c) user_code \<Rightarrow> (unit \<Rightarrow> system_context) \<Rightarrow> nat \<Rightarrow> ('h, 'c) program_event \<Rightarrow> ('h, 'c) contexts \<Rightarrow>
     (fault + ('h, 'c) contexts) option" where
  "context_event uc build sz (Post_To_Context c h) w = post_context uc build sz (io_context_type c) h w"
| "context_event uc build sz (Post_To_Executor c h) w = post_executor uc build sz (io_executor_type c) h w"
| "context_event uc build sz (Run_Context c) w = map_option (map_sum id snd) (run_context uc build sz c w)"
| "context_event uc build sz (Shut_Down c) w = shut_down_context uc build sz c w"

fun context_events ::
    "('h, 'c) user_code \<Rightarrow> (unit \<Rightarrow> system_context) \<Rightarrow> nat \<Rightarrow> ('h, 'c) thread_event list \<Rightarrow> ('h, 'c) contexts \<Rightarrow>
     (fault + ('h, 'c) contexts) option" where
  "context_events uc build sz [] w = Some (Inr w)"
| "context_events uc build sz ((stk, recycling, e) # es) w =
     (case context_event uc build sz e (w\<lparr>cx_stack := stk, cx_recycling := recycling\<rparr>) of
        None \<Rightarrow> None
      | Some (Inl f) \<Rightarrow> Some (Inl f)
      | Some (Inr w') \<Rightarrow> context_events uc build sz es w')"

text \<open>What the program sees.\<close>

fun function_name :: "('h, 'c) function_object \<Rightarrow> nat" where
  "function_name (Handler_Function h) = tk_id h"
| "function_name (Dispatching h ex d) = tk_id h"

definition op_name :: "('h, 'c) posted_op list \<Rightarrow> op_ref \<Rightarrow> nat" where
  "op_name ops op = (case op of Executor_Op i \<Rightarrow> function_name (po_function (ops ! i)) | _ \<Rightarrow> 0)"

definition seen :: "('h, 'c) contexts \<Rightarrow> queues" where
  "seen w =
     \<lparr>qs_waiting = (\<lambda>c. map (op_name (cx_ops w)) (sch_op_queue (cx_io w c))),
      qs_work = (\<lambda>c. unat (sch_outstanding_work (cx_io w c))),
      qs_stopped = (\<lambda>c. sch_stopped (cx_io w c)), qs_called = cx_called w\<rparr>"

subsection \<open>Operations and their memory\<close>

text \<open>
  The operations of a set are plain, their memory can be freed on any thread, no two have the same,
  and beyond what was handed out at the start nothing else is. (\<open>m0\<close> is the memory at the start.)
\<close>

definition good_op :: "('h, 'c) user_code \<Rightarrow> nat \<Rightarrow> ('h, 'c) posted_op \<Rightarrow> bool" where
  "good_op uc sz o_ptr \<longleftrightarrow>
     (\<exists>h. po_function o_ptr = plain_dispatcher h) \<and>
     \<not> has_state uc (po_allocator o_ptr) \<and>
     (\<exists>own. any_thread_allocator uc (po_allocator o_ptr) sz own \<and> own (po_place o_ptr))"

definition holding :: "('h, 'c) user_code \<Rightarrow> nat \<Rightarrow> memory \<Rightarrow> nat set \<Rightarrow> ('h, 'c) contexts \<Rightarrow> bool" where
  "holding uc sz m0 L w \<longleftrightarrow>
     mem_inv (cx_memory w) \<and> (\<forall>i \<in> L. i < length (cx_ops w) \<and> good_op uc sz (cx_ops w ! i)) \<and>
     inj_on (\<lambda>i. po_place (cx_ops w ! i)) L \<and> (\<forall>i \<in> L. \<not> handed_out m0 (po_place (cx_ops w ! i))) \<and>
     (\<forall>p. handed_out (cx_memory w) p \<longleftrightarrow> handed_out m0 p \<or> p \<in> (\<lambda>i. po_place (cx_ops w ! i)) ` L)"

lemma holding_frame [simp]:
  "holding uc sz m0 L (w\<lparr>cx_io := io\<rparr>) = holding uc sz m0 L w"
  "holding uc sz m0 L (w\<lparr>cx_stack := stk\<rparr>) = holding uc sz m0 L w"
  "holding uc sz m0 L (w\<lparr>cx_recycling := r\<rparr>) = holding uc sz m0 L w"
  by (simp_all add: holding_def)

lemma op_name_executor: "op_name ops (Executor_Op i) = function_name (po_function (ops ! i))"
  by (simp add: op_name_def)

text \<open>
  Completing or destroying an operation of the set, wherever the schedulers and the call stack stand,
  leaves the memory \<open>m\<close>.
\<close>

definition op_ends :: "('h, 'c) user_code \<Rightarrow> nat \<Rightarrow> nat \<Rightarrow> ('h, 'c) contexts \<Rightarrow> memory \<Rightarrow> bool" where
  "op_ends uc sz i w m \<longleftrightarrow>
     (\<forall>build io stk owner. complete_executor_op uc build sz owner i (w\<lparr>cx_io := io, cx_stack := stk\<rparr>) =
        Inr (w\<lparr>cx_io := io, cx_stack := stk, cx_memory := m,
               cx_called := cx_called w @ (if owner then [op_name (cx_ops w) (Executor_Op i)] else [])\<rparr>))"

lemma op_ends_at:
  assumes "op_ends uc sz i w m"
  shows "complete_executor_op uc build sz owner i (w\<lparr>cx_io := io, cx_stack := stk\<rparr>) =
    Inr (w\<lparr>cx_io := io, cx_stack := stk, cx_memory := m,
           cx_called := cx_called w @ (if owner then [op_name (cx_ops w) (Executor_Op i)] else [])\<rparr>)"
  using assms by (simp add: op_ends_def)

lemma op_ends_here:
  assumes "op_ends uc sz i w m"
  shows "complete_executor_op uc build sz owner i w =
    Inr (w\<lparr>cx_memory := m, cx_called := cx_called w @ (if owner then [op_name (cx_ops w) (Executor_Op i)] else [])\<rparr>)"
  using op_ends_at [OF assms, where io = "cx_io w" and stk = "cx_stack w" and build = build and owner = owner] by simp

lemma end_operation:
  assumes "holding uc sz m0 L w" and "i \<in> L"
  obtains m where "op_ends uc sz i w m" and "\<forall>l. holding uc sz m0 (L - {i}) (w\<lparr>cx_memory := m, cx_called := l\<rparr>)"
proof -
  let ?o = "cx_ops w ! i"
  have i: "i < length (cx_ops w)" "good_op uc sz ?o" and inv: "mem_inv (cx_memory w)"
    using assms by (auto simp: holding_def)
  then obtain h own where o: "po_function ?o = plain_dispatcher h" "\<not> has_state uc (po_allocator ?o)"
    "any_thread_allocator uc (po_allocator ?o) sz own" "own (po_place ?o)"
    by (auto simp: good_op_def)
  then have al: "operation_allocator mem_inv handed_out own (eptr_allocate uc (cx_recycling w) sz (po_allocator ?o))
      (eptr_deallocate uc (cx_recycling w) sz (po_allocator ?o))"
    by (simp add: any_thread_allocator_def)
  have "handed_out (cx_memory w) (po_place ?o)" using assms by (auto simp: holding_def)
  then obtain m where m: "eptr_deallocate uc (cx_recycling w) sz (po_allocator ?o) (po_place ?o) (cx_memory w) = Inr m"
    "mem_inv m" "\<forall>q. handed_out m q \<longleftrightarrow> handed_out (cx_memory w) q \<and> q \<noteq> po_place ?o"
    using operation_allocator.dealloc_ok [OF al inv _ o(4)] by blast
  have "op_ends uc sz i w m"
    unfolding op_ends_def
  proof (intro allI)
    fix build io stk owner
    let ?w = "w\<lparr>cx_io := io, cx_stack := stk\<rparr>"
    have "complete_executor_op uc build sz owner i ?w =
        Inr (?w\<lparr>cx_memory := m, cx_called := cx_called ?w @ (if owner then [tk_id h] else [])\<rparr>)"
      by (rule complete_plain_eq [where a = "po_allocator ?o" and v = "po_place ?o"]) (simp_all add: i m(1) o(2) o(1) [symmetric])
    then show "complete_executor_op uc build sz owner i ?w = Inr (w\<lparr>cx_io := io, cx_stack := stk, cx_memory := m,
        cx_called := cx_called w @ (if owner then [op_name (cx_ops w) (Executor_Op i)] else [])\<rparr>)"
      by (simp add: op_name_executor o(1))
  qed
  moreover have "holding uc sz m0 (L - {i}) (w\<lparr>cx_memory := m, cx_called := l\<rparr>)" for l
    using assms m(2,3) by (auto simp: holding_def inj_on_def)
  ultimately show ?thesis using that by blast
qed

text \<open>Making one more.\<close>

lemma new_operation:
  assumes "holding uc sz m0 L w" and "any_thread_allocator uc a sz own" "\<not> has_state uc a"
    and "eptr_allocate uc (cx_recycling w) sz a (cx_memory w) = (v, m)"
  shows "holding uc sz m0 (insert (length (cx_ops w)) L)
    (w\<lparr>cx_memory := m, cx_ops := cx_ops w @ [\<lparr>po_function = plain_dispatcher h, po_allocator = a, po_place = v\<rparr>]\<rparr>)"
proof -
  have inv: "mem_inv (cx_memory w)" and old: "\<forall>i \<in> L. i < length (cx_ops w)"
    using assms(1) by (auto simp: holding_def)
  have al: "operation_allocator mem_inv handed_out own (eptr_allocate uc (cx_recycling w) sz a)
      (eptr_deallocate uc (cx_recycling w) sz a)"
    using assms(2) by (simp add: any_thread_allocator_def)
  note v = operation_allocator.alloc_inv [OF al inv assms(4)] operation_allocator.alloc_fresh [OF al inv assms(4)]
    operation_allocator.alloc_out [OF al inv assms(4)] operation_allocator.alloc_own [OF al assms(4)]
  have "good_op uc sz \<lparr>po_function = plain_dispatcher h, po_allocator = a, po_place = v\<rparr>"
    using assms(2,3) v(4) by (auto simp: good_op_def)
  with assms(1) v(1-3) old show ?thesis
    by (auto simp: holding_def inj_on_def nth_append)
qed

subsection \<open>The queues of the contexts\<close>

definition queued :: "('h, 'c) contexts \<Rightarrow> nat set" where
  "queued w = {i. \<exists>c. Executor_Op i \<in> set (sch_op_queue (cx_io w c))}"

text \<open>
  Every queue holds executor operations, none is queued twice, each is counted, and the queued ones
  are those that hold memory.
\<close>

definition contexts_inv :: "('h, 'c) user_code \<Rightarrow> nat \<Rightarrow> memory \<Rightarrow> ('h, 'c) contexts \<Rightarrow> bool" where
  "contexts_inv uc sz m0 w \<longleftrightarrow>
     holding uc sz m0 (queued w) w \<and>
     (\<forall>c. \<exists>is. sch_op_queue (cx_io w c) = map Executor_Op is \<and> distinct is) \<and>
     (\<forall>c c'. c \<noteq> c' \<longrightarrow> set (sch_op_queue (cx_io w c)) \<inter> set (sch_op_queue (cx_io w c')) = {}) \<and>
     (\<forall>c. length (sch_op_queue (cx_io w c)) \<le> unat (sch_outstanding_work (cx_io w c)))"

lemma contexts_inv_thread [simp]:
  "contexts_inv uc sz m0 (w\<lparr>cx_stack := stk\<rparr>) = contexts_inv uc sz m0 w"
  "contexts_inv uc sz m0 (w\<lparr>cx_recycling := r\<rparr>) = contexts_inv uc sz m0 w"
  "seen (w\<lparr>cx_stack := stk\<rparr>) = seen w" "seen (w\<lparr>cx_recycling := r\<rparr>) = seen w"
  by (simp_all add: contexts_inv_def queued_def seen_def)

lemma contexts_inv_start:
  assumes "mem_inv (cx_memory w)" and "\<And>c. sch_op_queue (cx_io w c) = []"
  shows "contexts_inv uc sz (cx_memory w) w"
  using assms by (simp add: contexts_inv_def holding_def queued_def)

lemma contexts_inv_cong:
  assumes "\<And>c. sch_op_queue (io c) = sch_op_queue (cx_io w c)"
    and "\<And>c. sch_outstanding_work (io c) = sch_outstanding_work (cx_io w c)"
  shows "contexts_inv uc sz m0 (w\<lparr>cx_io := io\<rparr>) = contexts_inv uc sz m0 w"
  by (simp add: contexts_inv_def queued_def assms)

text \<open>The rest of the queued operations, and the change of one context to an empty queue.\<close>

lemma split_queue:
  assumes "contexts_inv uc sz m0 w"
  obtains "is" where "sch_op_queue (cx_io w c) = map Executor_Op is" "distinct is"
    "holding uc sz m0 (set is \<union> (queued w - set is)) w"
    "length is \<le> unat (sch_outstanding_work (cx_io w c))"
proof -
  obtain "is" where is': "sch_op_queue (cx_io w c) = map Executor_Op is" "distinct is"
    using assms unfolding contexts_inv_def by blast
  then have "set is \<subseteq> queued w" by (auto simp: queued_def intro!: exI [of _ c])
  then have "set is \<union> (queued w - set is) = queued w" by blast
  moreover have "length is \<le> unat (sch_outstanding_work (cx_io w c))"
    using assms is'(1) unfolding contexts_inv_def by (metis length_map)
  ultimately show ?thesis using that is' assms by (simp add: contexts_inv_def)
qed

lemma contexts_inv_emptied:
  assumes "contexts_inv uc sz m0 w" and "sch_op_queue (cx_io w c) = map Executor_Op is"
    and "holding uc sz m0 (queued w - set is) (w\<lparr>cx_memory := m, cx_called := l\<rparr>)"
    and "sch_op_queue s = []"
  shows "contexts_inv uc sz m0 (w\<lparr>cx_io := (cx_io w)(c := s), cx_memory := m, cx_called := l\<rparr>)"
proof -
  let ?w = "w\<lparr>cx_io := (cx_io w)(c := s), cx_memory := m, cx_called := l\<rparr>"
  define elsewhere where "elsewhere i \<longleftrightarrow> (\<exists>c'. c' \<noteq> c \<and> Executor_Op i \<in> set (sch_op_queue (cx_io w c')))" for i
  have here: "Executor_Op i \<in> set (sch_op_queue (cx_io w c)) \<longleftrightarrow> i \<in> set is" for i
    using assms(2) by auto
  have "i \<in> queued ?w \<longleftrightarrow> elsewhere i" for i
    using assms(4) by (auto simp: queued_def elsewhere_def)
  moreover have "i \<in> queued w \<longleftrightarrow> i \<in> set is \<or> elsewhere i" for i
    unfolding here [symmetric] by (auto simp: queued_def elsewhere_def)
  moreover have apart: "set (sch_op_queue (cx_io w c)) \<inter> set (sch_op_queue (cx_io w c')) = {}" if "c' \<noteq> c" for c'
    using assms(1) that by (simp add: contexts_inv_def)
  have "\<not> elsewhere i" if "i \<in> set is" for i
    using here [of i] that apart by (fastforce simp: elsewhere_def)
  ultimately have "queued ?w = queued w - set is" by auto
  moreover have "holding uc sz m0 (queued w - set is) ?w"
    using assms(3) by (simp add: holding_def)
  ultimately show ?thesis
    using assms(1,4) by (simp add: contexts_inv_def)
qed

subsection \<open>Posting\<close>

lemma seen_post:
  assumes "\<forall>c. \<exists>is. sch_op_queue (cx_io w c) = map Executor_Op is \<and> (\<forall>i \<in> set is. i < length (cx_ops w))"
    and "unat (sch_outstanding_work (cx_io w c)) + 1 < 2 ^ 64"
  shows "seen (w\<lparr>cx_io := (cx_io w)(c := do_dispatch (Executor_Op (length (cx_ops w))) (cx_io w c)), cx_memory := m,
      cx_ops := cx_ops w @ [\<lparr>po_function = plain_dispatcher h, po_allocator = a, po_place = v\<rparr>]\<rparr>) =
    post_queue c (tk_id h) (seen w)"
proof -
  let ?ops = "cx_ops w @ [\<lparr>po_function = plain_dispatcher h, po_allocator = a, po_place = v\<rparr>]"
  have old: "map (op_name ?ops) (sch_op_queue (cx_io w c')) = map (op_name (cx_ops w)) (sch_op_queue (cx_io w c'))" for c'
    using assms(1) [THEN spec, of c'] by (auto simp: op_name_executor nth_append)
  have work: "unat (sch_outstanding_work (cx_io w c) + 1) = Suc (unat (sch_outstanding_work (cx_io w c)))"
    using assms(2) by (simp add: unat_word_ariths)
  show ?thesis
    by (auto simp: seen_def post_queue_def fun_eq_iff old work do_dispatch_queue do_dispatch_def frame_simps
        push_op_def oq_push_def work_started_def op_name_executor)
qed

lemma post_refines:
  assumes "contexts_inv uc sz m0 w" and "plain h" and "portable uc (associated_alloc h)"
    and "\<not> running_in_this_thread c w" and "unat (sch_outstanding_work (cx_io w c)) + 1 < 2 ^ 64"
  obtains w' where "post_context uc build sz (io_context_type c) h w = Some (Inr w')"
    and "post_executor uc build sz (io_executor_type c) h w = Some (Inr w')"
    and "contexts_inv uc sz m0 w'" and "seen w' = post_queue c (tk_id h) (seen w)"
proof -
  let ?a = "associated_alloc h" and ?n = "length (cx_ops w)"
  obtain own where own: "any_thread_allocator uc ?a sz own"
    using portable_any_thread [OF assms(3)] by blast
  obtain v m where v: "eptr_allocate uc (cx_recycling w) sz ?a (cx_memory w) = (v, m)" by force
  let ?w = "w\<lparr>cx_io := (cx_io w)(c := do_dispatch (Executor_Op ?n) (cx_io w c)), cx_memory := m,
      cx_ops := cx_ops w @ [\<lparr>po_function = plain_dispatcher h, po_allocator = ?a, po_place = v\<rparr>]\<rparr>"
  have old: "\<exists>is. sch_op_queue (cx_io w c') = map Executor_Op is \<and> distinct is \<and> (\<forall>i \<in> set is. i < ?n)" for c'
  proof -
    obtain "is" where "sch_op_queue (cx_io w c') = map Executor_Op is" "distinct is"
      "holding uc sz m0 (set is \<union> (queued w - set is)) w"
      using split_queue [OF assms(1), of c'] by metis
    then show ?thesis by (intro exI [of _ "is"]) (auto simp: holding_def)
  qed
  then have fresh: "Executor_Op ?n \<notin> set (sch_op_queue (cx_io w c'))" for c'
  proof -
    obtain "is" where "sch_op_queue (cx_io w c') = map Executor_Op is" "\<forall>i \<in> set is. i < ?n" using old by blast
    then show ?thesis by auto
  qed
  have "queued ?w = insert ?n (queued w)"
    by (auto simp: queued_def do_dispatch_queue split: if_splits)
  moreover have "holding uc sz m0 (insert ?n (queued w)) ?w"
    using new_operation [OF _ own portable_stateless [OF assms(3)] v, of m0 "queued w" h] assms(1) by (simp add: contexts_inv_def holding_def)
  moreover have "\<exists>is. sch_op_queue (cx_io ?w c') = map Executor_Op is \<and> distinct is" for c'
  proof -
    obtain "is" where "sch_op_queue (cx_io w c') = map Executor_Op is" "distinct is" "\<forall>i \<in> set is. i < ?n"
      using old by blast
    then show ?thesis
      by (intro exI [of _ "if c' = c then is @ [?n] else is"]) (auto simp: do_dispatch_queue)
  qed
  moreover have "set (sch_op_queue (cx_io ?w c1)) \<inter> set (sch_op_queue (cx_io ?w c2)) = {}" if "c1 \<noteq> c2" for c1 c2
    using assms(1) that fresh by (auto simp: contexts_inv_def do_dispatch_queue)
  moreover have "length (sch_op_queue (cx_io ?w c')) \<le> unat (sch_outstanding_work (cx_io ?w c'))" for c'
    using assms(1,5) by (auto simp: contexts_inv_def do_dispatch_queue unat_word_ariths)
  ultimately have "contexts_inv uc sz m0 ?w" unfolding contexts_inv_def by presburger
  moreover have "seen ?w = post_queue c (tk_id h) (seen w)"
    using old assms(5) by (intro seen_post) blast+
  moreover have "post_dispatching uc build sz (Io_Executor c) h w = Some (Inr ?w)"
    using assms(4) by (intro post_plain_eq [OF assms(2) _ v]) simp
  ultimately show ?thesis
    by (intro that [of ?w]) (simp_all add: post_context_def post_executor_def io_context_type_def io_executor_type_def
        is_executor_def is_executor_class_def)
qed

subsection \<open>Running\<close>

text \<open>What \<open>run\<close> does with one operation, apart from the scheduler.\<close>

abbreviation completing ::
    "('h, 'c) user_code \<Rightarrow> (unit \<Rightarrow> system_context) \<Rightarrow> nat \<Rightarrow> op_ref \<Rightarrow> fault + ('h, 'c) contexts \<Rightarrow>
     fault + ('h, 'c) contexts" where
  "completing uc build sz op \<equiv> operation_complete (executor_operation uc build sz op) True no_error 0"

definition runnable :: "('h, 'c) user_code \<Rightarrow> nat \<Rightarrow> memory \<Rightarrow> nat set \<Rightarrow> op_ref list \<Rightarrow> fault + ('h, 'c) contexts \<Rightarrow> bool" where
  "runnable uc sz m0 L ops r \<longleftrightarrow>
     (\<exists>is w. ops = map Executor_Op is \<and> r = Inr w \<and> distinct is \<and> set is \<inter> L = {} \<and> holding uc sz m0 (set is \<union> L) w)"

lemma operation_complete_executor:
  "operation_complete (executor_operation uc build sz (Executor_Op i)) owner ec n (Inr w) =
     complete_executor_op uc build sz owner i w"
  "operation_destroy (executor_operation uc build sz (Executor_Op i)) (Inr w) = complete_executor_op uc build sz False i w"
  by (simp_all add: operation_complete_def operation_destroy_def executor_operation_def operation_ctor_def)

lemma runnable_step:
  assumes "runnable uc sz m0 L (op # ops) r"
  shows "(\<forall>s stk. complete_in_context uc build sz c op (s, stk, r) = (s, stk, completing uc build sz op r)) \<and>
    runnable uc sz m0 L ops (completing uc build sz op r)"
proof -
  obtain i "is" w where op: "op = Executor_Op i" "ops = map Executor_Op is" "r = Inr w"
    and i: "distinct (i # is)" "set (i # is) \<inter> L = {}" "holding uc sz m0 (set (i # is) \<union> L) w"
    using assms by (auto simp: runnable_def)
  from i(3) have "i \<in> set (i # is) \<union> L" by simp
  with i(3) obtain m where m: "op_ends uc sz i w m"
    "\<forall>l. holding uc sz m0 (set (i # is) \<union> L - {i}) (w\<lparr>cx_memory := m, cx_called := l\<rparr>)"
    by (rule end_operation)
  have "set (i # is) \<union> L - {i} = set is \<union> L" using i(1,2) by auto
  then have "runnable uc sz m0 L ops (completing uc build sz op r)"
    using i(1,2) m(2) by (auto simp: runnable_def op operation_complete_executor op_ends_here [OF m(1)])
  then show ?thesis
    using m(1)
    by (simp add: op operation_complete_executor complete_in_context_def op_ends_here [OF m(1)])
       (simp add: op_ends_def)
qed

lemma complete_all_queued:
  assumes "distinct is" and "set is \<inter> L = {}" and "holding uc sz m0 (set is \<union> L) w"
  shows "\<exists>m. fold (completing uc build sz) (map Executor_Op is) (Inr w) =
      Inr (w\<lparr>cx_memory := m, cx_called := cx_called w @ map (op_name (cx_ops w) \<circ> Executor_Op) is\<rparr>) \<and>
    (\<forall>l. holding uc sz m0 L (w\<lparr>cx_memory := m, cx_called := l\<rparr>))"
  using assms
proof (induction "is" arbitrary: w)
  case Nil
  then show ?case by (intro exI [of _ "cx_memory w"]) (simp add: holding_def)
next
  case (Cons i "is")
  have "i \<in> set (i # is) \<union> L" by simp
  with Cons.prems(3) obtain m where m: "op_ends uc sz i w m"
    "\<forall>l. holding uc sz m0 (set (i # is) \<union> L - {i}) (w\<lparr>cx_memory := m, cx_called := l\<rparr>)"
    by (rule end_operation)
  have "set (i # is) \<union> L - {i} = set is \<union> L" using Cons.prems(1,2) by auto
  then have "holding uc sz m0 (set is \<union> L)
      (w\<lparr>cx_memory := m, cx_called := cx_called w @ [op_name (cx_ops w) (Executor_Op i)]\<rparr>)"
    using m(2) by simp
  from Cons.IH [OF _ _ this] Cons.prems(1,2) show ?case
    by (auto simp: operation_complete_executor op_ends_here [OF m(1)])
qed

text \<open>A context without work, or one that is stopped.\<close>

lemma run_context_at_rest:
  "sch_outstanding_work (cx_io w c) = 0 \<Longrightarrow>
   run_context uc build sz c w = Some (Inr (0, w\<lparr>cx_io := (cx_io w)(c := sch_stop (cx_io w c))\<rparr>))"
  "sch_outstanding_work (cx_io w c) \<noteq> 0 \<Longrightarrow> sch_stopped (cx_io w c) \<Longrightarrow> run_context uc build sz c w = Some (Inr (0, w))"
  by (simp_all add: run_context_def io_context_run_eq sched_run_def run_loop.simps do_run_one_stopped cs.leave_enter)

lemma run_context_working:
  assumes "contexts_inv uc sz m0 w" and "\<not> sch_stopped (cx_io w c)" and "sch_outstanding_work (cx_io w c) \<noteq> 0"
    and "sch_op_queue (cx_io w c) = map Executor_Op is" and "distinct is"
    and "holding uc sz m0 (set is \<union> (queued w - set is)) w"
    and "unat (sch_outstanding_work (cx_io w c)) = length is + k"
  shows "if k = 0
    then \<exists>s m. run_context uc build sz c w = Some (Inr (of_nat (length is), w\<lparr>cx_io := (cx_io w)(c := s), cx_memory := m,
             cx_called := cx_called w @ map (op_name (cx_ops w) \<circ> Executor_Op) is\<rparr>)) \<and>
           sch_op_queue s = [] \<and> sch_outstanding_work s = 0 \<and> sch_stopped s \<and>
           (\<forall>l. holding uc sz m0 (queued w - set is) (w\<lparr>cx_memory := m, cx_called := l\<rparr>))
    else run_context uc build sz c w = None"
proof -
  let ?L = "queued w - set is" and ?self = "executor_key (Io_Executor c)"
  have run: "runnable uc sz m0 ?L (map Executor_Op is) (Inr w)"
    using assms(5,6) by (auto simp: runnable_def)
  have work: "sch_outstanding_work (cx_io w c) = of_nat (length (map Executor_Op is) + k)"
    by (simp flip: assms(7))
  have bound: "unat (0 :: size_t) + length (map Executor_Op is) + k < 2 ^ 64"
    using assms(7) unsigned_less [of "sch_outstanding_work (cx_io w c)", where 'a = nat] by simp
  have some: "length (map Executor_Op is) + k \<noteq> 0"
    using assms(3,7) unat_eq_zero by fastforce
  obtain m where m: "fold (completing uc build sz) (map Executor_Op is) (Inr w) =
      Inr (w\<lparr>cx_memory := m, cx_called := cx_called w @ map (op_name (cx_ops w) \<circ> Executor_Op) is\<rparr>)"
    "\<forall>l. holding uc sz m0 ?L (w\<lparr>cx_memory := m, cx_called := l\<rparr>)"
    using complete_all_queued [OF assms(5) _ assms(6), of build] by blast
  have "Task_Operation \<notin> set (map Executor_Op is)" by auto
  note loop = run_loop_queue [where Q = "runnable uc sz m0 ?L" and complete = "complete_in_context uc build sz c"
      and f = "completing uc build sz" and self = ?self and task_run = "\<lambda>usec st. st" and stk = "cx_stack w",
      OF runnable_step run assms(4) this assms(2) work bound some]
  show ?thesis
  proof (cases "k = 0")
    case True
    with loop m(1) obtain s where s: "run_loop ?self (complete_in_context uc build sz c) (\<lambda>usec st. st) 0
        (cx_io w c, cs_enter ?self fresh_info (cx_stack w), Inr w) = Some (Inr (of_nat (length is), s,
          cs_enter ?self fresh_info (cx_stack w),
          Inr (w\<lparr>cx_memory := m, cx_called := cx_called w @ map (op_name (cx_ops w) \<circ> Executor_Op) is\<rparr>)))"
      "sch_op_queue s = []" "sch_outstanding_work s = 0" "sch_stopped s"
      by auto
    then have "run_context uc build sz c w = Some (Inr (of_nat (length is), w\<lparr>cx_io := (cx_io w)(c := s), cx_memory := m,
             cx_called := cx_called w @ map (op_name (cx_ops w) \<circ> Executor_Op) is\<rparr>))"
      using assms(3) by (simp add: run_context_def io_context_run_eq sched_run_def cs.leave_enter)
    with True s(2-4) m(2) show ?thesis by auto
  next
    case False
    with loop assms(3) show ?thesis by (simp add: run_context_def io_context_run_eq sched_run_def)
  qed
qed

lemma run_refines:
  assumes "contexts_inv uc sz m0 w"
  shows "case run_queue c (seen w) of
      None \<Rightarrow> run_context uc build sz c w = None
    | Some q \<Rightarrow> \<exists>n w'. run_context uc build sz c w = Some (Inr (n, w')) \<and> contexts_inv uc sz m0 w' \<and> seen w' = q"
proof -
  let ?s = "cx_io w c"
  obtain "is" where q: "sch_op_queue ?s = map Executor_Op is" "distinct is"
    "holding uc sz m0 (set is \<union> (queued w - set is)) w" "length is \<le> unat (sch_outstanding_work ?s)"
    using split_queue [OF assms] .
  have seen_s: "qs_work (seen w) c = unat (sch_outstanding_work ?s)" "qs_stopped (seen w) c = sch_stopped ?s"
    "qs_waiting (seen w) c = map (op_name (cx_ops w)) (map Executor_Op is)"
    by (simp_all add: seen_def q(1))
  consider (none) "sch_outstanding_work ?s = 0" | (stopped) "sch_outstanding_work ?s \<noteq> 0" "sch_stopped ?s"
    | (work) "sch_outstanding_work ?s \<noteq> 0" "\<not> sch_stopped ?s" by blast
  then show ?thesis
  proof cases
    case none
    have "contexts_inv uc sz m0 (w\<lparr>cx_io := (cx_io w)(c := sch_stop ?s)\<rparr>)"
      using assms by (subst contexts_inv_cong) (simp_all add: frame_simps)
    moreover have "seen (w\<lparr>cx_io := (cx_io w)(c := sch_stop ?s)\<rparr>) = seen w\<lparr>qs_stopped := (qs_stopped (seen w))(c := True)\<rparr>"
      by (auto simp: seen_def fun_eq_iff frame_simps)
    ultimately show ?thesis using none by (simp add: run_queue_def seen_s run_context_at_rest(1))
  next
    case stopped
    with assms show ?thesis by (simp add: run_queue_def seen_s run_context_at_rest(2) unat_eq_zero)
  next
    case work
    obtain k where k: "unat (sch_outstanding_work ?s) = length is + k" using q(4) le_Suc_ex by blast
    note run = run_context_working [OF assms work(2,1) q(1-3) k, of build]
    show ?thesis
    proof (cases "k = 0")
      case True
      then obtain s m where s: "run_context uc build sz c w = Some (Inr (of_nat (length is), w\<lparr>cx_io := (cx_io w)(c := s), cx_memory := m,
             cx_called := cx_called w @ map (op_name (cx_ops w) \<circ> Executor_Op) is\<rparr>))"
        "sch_op_queue s = []" "sch_outstanding_work s = 0" "sch_stopped s"
        "\<forall>l. holding uc sz m0 (queued w - set is) (w\<lparr>cx_memory := m, cx_called := l\<rparr>)"
        using run by auto
      have "length is \<noteq> 0" using work(1) k True unat_eq_zero by fastforce
      moreover note contexts_inv_emptied [OF assms q(1) s(5) [rule_format] s(2)]
      ultimately show ?thesis
        using s(1-4) k True work(2)
        by (simp add: run_queue_def seen_s) (simp add: seen_def fun_eq_iff q(1))
    next
      case False
      with run work(2) k show ?thesis by (auto simp: run_queue_def seen_s)
    qed
  qed
qed

subsection \<open>Shutting down\<close>

lemma shutdown_all:
  assumes "distinct is" and "set is \<inter> L = {}" and "holding uc sz m0 (set is \<union> L) w"
    and "sch_op_queue (cx_io w c) = map Executor_Op is"
  shows "\<exists>m. shutdown_loop uc build sz c w = Some (Inr (w\<lparr>cx_io := (cx_io w)(c := (cx_io w c)\<lparr>sch_op_queue := []\<rparr>),
      cx_memory := m\<rparr>)) \<and> (\<forall>l. holding uc sz m0 L (w\<lparr>cx_memory := m, cx_called := l\<rparr>))"
  using assms
proof (induction "is" arbitrary: w)
  case Nil
  have "(cx_io w)(c := (cx_io w c)\<lparr>sch_op_queue := []\<rparr>) = cx_io w"
    using Nil.prems(4) by (simp add: fun_eq_iff)
  with Nil show ?case
    by (intro exI [of _ "cx_memory w"]) (simp add: shutdown_loop.simps oq_front_def oq_empty_def holding_def)
next
  case (Cons i "is")
  let ?io = "(cx_io w)(c := (cx_io w c)\<lparr>sch_op_queue := map Executor_Op is\<rparr>)"
  have "i \<in> set (i # is) \<union> L" by simp
  with Cons.prems(3) obtain m where m: "op_ends uc sz i w m"
    "\<forall>l. holding uc sz m0 (set (i # is) \<union> L - {i}) (w\<lparr>cx_memory := m, cx_called := l\<rparr>)"
    by (rule end_operation)
  let ?w = "w\<lparr>cx_io := ?io, cx_memory := m\<rparr>"
  have "complete_executor_op uc build sz False i (w\<lparr>cx_io := ?io\<rparr>) = Inr ?w"
    using op_ends_at [OF m(1), where io = ?io and stk = "cx_stack w" and build = build and owner = False] by simp
  then have step: "shutdown_loop uc build sz c w = shutdown_loop uc build sz c ?w"
    using Cons.prems(4)
    by (subst shutdown_loop.simps)
       (simp add: oq_front_def oq_pop_def oq_empty_def set_queue_def operation_complete_executor)
  have "set (i # is) \<union> L - {i} = set is \<union> L" using Cons.prems(1,2) by auto
  then have "holding uc sz m0 (set is \<union> L) ?w"
    using m(2) [THEN spec, of "cx_called w"] by (simp add: holding_def)
  moreover have "distinct is" "set is \<inter> L = {}" "sch_op_queue (cx_io ?w c) = map Executor_Op is"
    using Cons.prems(1,2) by auto
  ultimately obtain m' where m':
    "shutdown_loop uc build sz c ?w = Some (Inr (?w\<lparr>cx_io := (cx_io ?w)(c := (cx_io ?w c)\<lparr>sch_op_queue := []\<rparr>),
       cx_memory := m'\<rparr>))" "\<forall>l. holding uc sz m0 L (?w\<lparr>cx_memory := m', cx_called := l\<rparr>)"
    using Cons.IH [of ?w] by blast
  have "?w\<lparr>cx_io := (cx_io ?w)(c := (cx_io ?w c)\<lparr>sch_op_queue := []\<rparr>), cx_memory := m'\<rparr> =
      w\<lparr>cx_io := (cx_io w)(c := (cx_io w c)\<lparr>sch_op_queue := []\<rparr>), cx_memory := m'\<rparr>"
    by simp
  with m' step show ?case by (intro exI [of _ m']) (simp add: holding_def del: fun_upd_apply)
qed

lemma shutdown_refines:
  assumes "contexts_inv uc sz m0 w"
  obtains w' where "shut_down_context uc build sz c w = Some (Inr w')" and "contexts_inv uc sz m0 w'"
    and "seen w' = seen w\<lparr>qs_waiting := (qs_waiting (seen w))(c := [])\<rparr>"
proof -
  obtain "is" where q: "sch_op_queue (cx_io w c) = map Executor_Op is" "distinct is"
    "holding uc sz m0 (set is \<union> (queued w - set is)) w"
    using split_queue [OF assms, of c] .
  let ?w = "w\<lparr>cx_io := (cx_io w)(c := (cx_io w c)\<lparr>sch_shutdown := True\<rparr>)\<rparr>"
  obtain m where m: "shutdown_loop uc build sz c ?w = Some (Inr (?w\<lparr>cx_io := (cx_io ?w)(c := (cx_io ?w c)\<lparr>sch_op_queue := []\<rparr>),
      cx_memory := m\<rparr>))" "\<forall>l. holding uc sz m0 (queued w - set is) (?w\<lparr>cx_memory := m, cx_called := l\<rparr>)"
    using shutdown_all [OF q(2), of "queued w - set is" uc sz m0 ?w c] q(1,3) by auto
  let ?s = "(cx_io w c)\<lparr>sch_shutdown := True, sch_op_queue := [], sch_task := None\<rparr>"
  let ?w' = "w\<lparr>cx_io := (cx_io w)(c := ?s), cx_memory := m\<rparr>"
  have "shut_down_context uc build sz c w = Some (Inr ?w')"
    by (simp add: shut_down_context_def m(1))
  moreover have "contexts_inv uc sz m0 (w\<lparr>cx_io := (cx_io w)(c := ?s), cx_memory := m, cx_called := cx_called w\<rparr>)"
    using m(2) by (intro contexts_inv_emptied [OF assms q(1)]) (simp_all add: holding_def)
  moreover have "seen ?w' = seen w\<lparr>qs_waiting := (qs_waiting (seen w))(c := [])\<rparr>"
    by (auto simp: seen_def fun_eq_iff)
  ultimately show ?thesis by (intro that [of ?w']) simp_all
qed

subsection \<open>Programs\<close>

definition post_allowed :: "('h, 'c) user_code \<Rightarrow> ('h, 'c) thread_event \<Rightarrow> bool" where
  "post_allowed uc te \<longleftrightarrow>
     (case te of (stk, recycling, e) \<Rightarrow>
        (case e of
           Post_To_Context c h \<Rightarrow>
             plain h \<and> portable uc (associated_alloc h) \<and> \<not> can_dispatch (executor_key (Io_Executor c)) stk
         | Post_To_Executor c h \<Rightarrow>
             plain h \<and> portable uc (associated_alloc h) \<and> \<not> can_dispatch (executor_key (Io_Executor c)) stk
         | _ \<Rightarrow> True))"

text \<open>One event, on its thread.\<close>

lemma event_refines:
  assumes "contexts_inv uc sz m0 w" and "post_allowed uc (stk, recycling, e)"
    and "\<forall>c. qs_work (seen w) c + 1 < 2 ^ 64"
  shows "case queue_event e (seen w) of
      None \<Rightarrow> context_event uc build sz e (w\<lparr>cx_stack := stk, cx_recycling := recycling\<rparr>) = None
    | Some q \<Rightarrow> \<exists>w'. context_event uc build sz e (w\<lparr>cx_stack := stk, cx_recycling := recycling\<rparr>) = Some (Inr w') \<and>
        contexts_inv uc sz m0 w' \<and> seen w' = q"
proof -
  let ?w = "w\<lparr>cx_stack := stk, cx_recycling := recycling\<rparr>"
  have inv: "contexts_inv uc sz m0 ?w" and seen: "seen ?w = seen w" using assms(1) by simp_all
  have work: "unat (sch_outstanding_work (cx_io ?w c)) + 1 < 2 ^ 64" for c
    using assms(3) by (simp add: seen_def)
  have post: "\<exists>w'. post_context uc build sz (io_context_type c) h ?w = Some (Inr w') \<and>
      post_executor uc build sz (io_executor_type c) h ?w = Some (Inr w') \<and>
      contexts_inv uc sz m0 w' \<and> seen w' = post_queue c (tk_id h) (seen w)"
    if "plain h" "portable uc (associated_alloc h)" "\<not> can_dispatch (executor_key (Io_Executor c)) stk" for c h
  proof -
    have "\<not> running_in_this_thread c ?w" using that(3) by (simp add: running_in_this_thread_def)
    from post_refines [OF inv that(1,2) this work, of build] seen show ?thesis by metis
  qed
  show ?thesis
  proof (cases e)
    case (Run_Context c)
    with run_refines [OF inv, where build = build and c = c] seen show ?thesis by (auto split: option.splits)
  next
    case (Shut_Down c)
    with shutdown_refines [OF inv, where build = build and c = c] seen show ?thesis by (simp, metis)
  qed (use post assms(2) in \<open>fastforce simp: post_allowed_def\<close>)+
qed

lemma queue_event_work:
  "queue_event e q = Some q' \<Longrightarrow> qs_work q' c \<le> Suc (qs_work q c)"
  by (cases e) (auto simp: post_queue_def run_queue_def split: if_splits)

lemma events_refine:
  assumes "contexts_inv uc sz m0 w" and "\<forall>te \<in> set es. post_allowed uc te"
    and "\<forall>c. qs_work (seen w) c + length es < 2 ^ 64"
  shows "case queue_events (map (snd \<circ> snd) es) (seen w) of
      None \<Rightarrow> context_events uc build sz es w = None
    | Some q \<Rightarrow> \<exists>w'. context_events uc build sz es w = Some (Inr w') \<and> contexts_inv uc sz m0 w' \<and> seen w' = q"
  using assms
proof (induction es arbitrary: w)
  case Nil
  then show ?case by simp
next
  case (Cons te es)
  obtain stk recycling e where te: "te = (stk, recycling, e)" by (metis prod_cases3)
  have "\<forall>c. qs_work (seen w) c + 1 < 2 ^ 64"
  proof
    fix c
    show "qs_work (seen w) c + 1 < 2 ^ 64" using Cons.prems(3) [THEN spec, of c] by simp
  qed
  note step = event_refines [OF Cons.prems(1) _ this, of stk recycling e build]
  show ?case
  proof (cases "queue_event e (seen w)")
    case None
    with step Cons.prems(2) te show ?thesis by simp
  next
    case (Some q)
    with step Cons.prems(2) te obtain w' where w': "contexts_inv uc sz m0 w'" "seen w' = q"
      "context_event uc build sz e (w\<lparr>cx_stack := stk, cx_recycling := recycling\<rparr>) = Some (Inr w')"
      by auto
    have "\<forall>c. qs_work (seen w') c + length es < 2 ^ 64"
    proof
      fix c
      show "qs_work (seen w') c + length es < 2 ^ 64"
        using Cons.prems(3) [THEN spec, of c] queue_event_work [OF Some, of c] w'(2) by simp
    qed
    with Cons.IH [OF w'(1)] Cons.prems(2) Some w'(2,3) show ?thesis
      unfolding te by (simp split: option.splits)
  qed
qed

text \<open>C18. What a program sees of several \<open>io_context\<close>s is queues of functions. Any sequence of posts
  from outside, by either overload, of calls of \<open>run\<close> and of shutdowns, on any threads, with any
  allocators that serve every thread and have no state (\<open>executor_op\<close> reads its allocator when it is
  destroyed), never faults; a \<open>run\<close> calls exactly what waits in its context, in order, once;
  \<open>shutdown\<close> calls nothing; and a \<open>run\<close> that by the count of work cannot return does not. Beyond what
  was handed out at the start, the memory handed out is that of the operations still queued.\<close>

theorem contexts_refine_queues:
  assumes "mem_inv (cx_memory w)" and "\<And>c. sch_op_queue (cx_io w c) = []"
    and "\<And>te. te \<in> set es \<Longrightarrow> post_allowed uc te"
    and "\<And>c. unat (sch_outstanding_work (cx_io w c)) + length es < 2 ^ 64"
  shows "case queue_events (map (snd \<circ> snd) es) (seen w) of
      None \<Rightarrow> context_events uc build sz es w = None
    | Some q \<Rightarrow> \<exists>w'. context_events uc build sz es w = Some (Inr w') \<and> seen w' = q \<and>
        (\<forall>p. handed_out (cx_memory w') p \<longleftrightarrow> handed_out (cx_memory w) p \<or>
          (\<exists>c i. Executor_Op i \<in> set (sch_op_queue (cx_io w' c)) \<and> p = po_place (cx_ops w' ! i)))"
proof -
  have "case queue_events (map (snd \<circ> snd) es) (seen w) of
      None \<Rightarrow> context_events uc build sz es w = None
    | Some q \<Rightarrow> \<exists>w'. context_events uc build sz es w = Some (Inr w') \<and> contexts_inv uc sz (cx_memory w) w' \<and> seen w' = q"
    using assms(3,4) by (intro events_refine contexts_inv_start assms(1,2)) (auto simp: seen_def)
  moreover have "handed_out (cx_memory w') p \<longleftrightarrow> handed_out (cx_memory w) p \<or>
      (\<exists>c i. Executor_Op i \<in> set (sch_op_queue (cx_io w' c)) \<and> p = po_place (cx_ops w' ! i))"
    if "contexts_inv uc sz (cx_memory w) w'" for w' p
    using that by (auto simp: contexts_inv_def holding_def queued_def)
  ultimately show ?thesis by (auto split: option.splits)
qed

definition demo_handler :: "nat \<Rightarrow> (nat, nat) token" where
  "demo_handler n = \<lparr>tk_id = n, tk_type = plain_type, tk_allocator = None\<rparr>"

text \<open>Two functions to context 3 and one to context 4; context 3 is run and context 4 shut down.\<close>

definition demo_program :: "(nat, nat) thread_event list" where
  "demo_program =
     [([], [], Post_To_Context 3 (demo_handler 5)), ([], [(0, 7)], Post_To_Executor 4 (demo_handler 6)),
      ([], [(0, 7)], Post_To_Executor 3 (demo_handler 8)), ([], [], Run_Context 3), ([], [], Shut_Down 4)]"

theorem contexts_refine_queues_witness:
  "\<exists>w'. context_events demo_user (\<lambda>_. system_context_ctor demo_idle_sched 1) 64 demo_program demo_contexts = Some (Inr w') \<and>
     cx_called w' = [5, 8] \<and> (\<forall>c. sch_op_queue (cx_io w' c) = []) \<and> qs_work (seen w') 4 = 1 \<and>
     handed_out (cx_memory w') = handed_out (cx_memory demo_contexts)"
proof -
  let ?build = "\<lambda>_. system_context_ctor demo_idle_sched 1"
  have "post_allowed demo_user te" if "te \<in> set demo_program" for te
    using that by (auto simp: demo_program_def demo_handler_def post_allowed_def plain_def plain_type_def
        associated_executor_def associated_alloc_def associated_allocator_def get_associated_allocator_def
        portable_def can_dispatch_def)
  moreover have "mem_inv (cx_memory demo_contexts)" "sch_op_queue (cx_io demo_contexts c) = []"
    "unat (sch_outstanding_work (cx_io demo_contexts c)) + length demo_program < 2 ^ 64" for c
    by (simp_all add: demo_contexts_def demo_idle_sched_def mem_inv_def demo_program_def)
  moreover obtain q where q: "queue_events (map (snd \<circ> snd) demo_program) (seen demo_contexts) = Some q"
    "qs_called q = [5, 8]" "\<forall>c. qs_waiting q c = []" "qs_work q 4 = 1"
    by (simp add: demo_program_def demo_handler_def seen_def post_queue_def run_queue_def demo_contexts_def
        demo_idle_sched_def)
  ultimately obtain w' where w': "context_events demo_user ?build 64 demo_program demo_contexts = Some (Inr w')" "seen w' = q"
    "\<forall>p. handed_out (cx_memory w') p \<longleftrightarrow> handed_out (cx_memory demo_contexts) p \<or>
      (\<exists>c i. Executor_Op i \<in> set (sch_op_queue (cx_io w' c)) \<and> p = po_place (cx_ops w' ! i))"
    using contexts_refine_queues [of demo_contexts demo_program demo_user ?build 64] by auto
  have "sch_op_queue (cx_io w' c) = []" for c
    using q(3) w'(2) by (auto simp: seen_def)
  with w' q(2,4) show ?thesis by (auto simp: seen_def fun_eq_iff)
qed

end
