(* ===== verification/Io_Objects.thy ===== *)
theory Io_Objects
  imports Service_Properties
begin

text \<open>
  \<^verbatim>\<open>basic_io_object.hpp\<close>: an I/O object of an \<open>io_context\<close> holds a reference to the service of its type
  and an implementation, which the service constructs and destroys. The services that exist declare
  \<open>construct\<close> and \<open>destroy\<close> without defining them; here they are parameters, functions of the service,
  the implementation and the rest of the world.
\<close>

subsection \<open>Objects\<close>

record 'i io_object =
  io_service :: nat
  io_implementation :: 'i

text \<open>
  The constructor, in the context whose scheduler is \<open>impl\<close>; \<open>raw\<close> is the implementation before
  \<open>construct\<close>. Using a service that was deleted is undefined.
\<close>

definition io_object_ctor ::
    "nat \<Rightarrow> string \<Rightarrow> (registry \<Rightarrow> nat \<times> registry) \<Rightarrow> (nat \<Rightarrow> 'i \<Rightarrow> 'w \<Rightarrow> 'i \<times> 'w) \<Rightarrow> 'i \<Rightarrow> registry \<Rightarrow> 'w \<Rightarrow>
     fault + 'i io_object \<times> registry \<times> 'w" where
  "io_object_ctor impl key new construct raw r w =
     (case io_use_service impl key new r of
        Inl e \<Rightarrow> Inl e
      | Inr (service, r') \<Rightarrow>
          if service \<notin> set (sr_live r') then Inl Undefined_Behaviour
          else (case construct service raw w of
                  (implementation, w') \<Rightarrow>
                    Inr (\<lparr>io_service = service, io_implementation = implementation\<rparr>, r', w')))"

definition io_object_dtor ::
    "(nat \<Rightarrow> 'i \<Rightarrow> 'w \<Rightarrow> 'i \<times> 'w) \<Rightarrow> 'i io_object \<Rightarrow> registry \<Rightarrow> 'w \<Rightarrow> fault + 'w" where
  "io_object_dtor destroy x r w =
     (if io_service x \<notin> set (sr_live r) then Inl Undefined_Behaviour
      else (case destroy (io_service x) (io_implementation x) w of (implementation, w') \<Rightarrow> Inr w'))"

text \<open>The context whose executor \<open>get_executor\<close> returns.\<close>

definition io_object_executor :: "registry \<Rightarrow> 'i io_object \<Rightarrow> fault + nat" where
  "io_object_executor r x =
     (if io_service x \<notin> set (sr_live r) then Inl Undefined_Behaviour else Inr (sr_context r (io_service x)))"

definition io_object_get_service :: "'i io_object \<Rightarrow> nat" where
  "io_object_get_service x = io_service x"

definition io_object_get_implementation :: "'i io_object \<Rightarrow> 'i" where
  "io_object_get_implementation x = io_implementation x"

subsection \<open>A context and its objects\<close>

text \<open>Objects are made, each of a type with its name, and destroyed, here by their place among those there are.\<close>

datatype object_event = Make_Object string | Destroy_Object nat

type_synonym ('i, 'w) object_state = "(string \<times> 'i io_object) list \<times> registry \<times> 'w"

fun object_run ::
    "nat \<Rightarrow> nat \<Rightarrow> (nat \<Rightarrow> 'i \<Rightarrow> 'w \<Rightarrow> 'i \<times> 'w) \<Rightarrow> (nat \<Rightarrow> 'i \<Rightarrow> 'w \<Rightarrow> 'i \<times> 'w) \<Rightarrow> 'i \<Rightarrow> object_event \<Rightarrow>
     ('i, 'w) object_state \<Rightarrow> fault + ('i, 'w) object_state" where
  "object_run ctx impl construct destroy raw (Make_Object key) (objs, r, w) =
     (case io_object_ctor impl key (new_service ctx) construct raw r w of
        Inl e \<Rightarrow> Inl e
      | Inr (x, r', w') \<Rightarrow> Inr (objs @ [(key, x)], r', w'))"
| "object_run ctx impl construct destroy raw (Destroy_Object j) (objs, r, w) =
     (if j < length objs
      then (case io_object_dtor destroy (snd (objs ! j)) r w of
              Inl e \<Rightarrow> Inl e
            | Inr w' \<Rightarrow> Inr (take j objs @ drop (Suc j) objs, r, w'))
      else Inr (objs, r, w))"

fun object_runs ::
    "nat \<Rightarrow> nat \<Rightarrow> (nat \<Rightarrow> 'i \<Rightarrow> 'w \<Rightarrow> 'i \<times> 'w) \<Rightarrow> (nat \<Rightarrow> 'i \<Rightarrow> 'w \<Rightarrow> 'i \<times> 'w) \<Rightarrow> 'i \<Rightarrow> object_event list \<Rightarrow>
     ('i, 'w) object_state \<Rightarrow> fault + ('i, 'w) object_state" where
  "object_runs ctx impl construct destroy raw [] st = Inr st"
| "object_runs ctx impl construct destroy raw (e # es) st =
     (case object_run ctx impl construct destroy raw e st of
        Inl f \<Rightarrow> Inl f
      | Inr st' \<Rightarrow> object_runs ctx impl construct destroy raw es st')"

text \<open>
  Everything belongs to the context, nothing is under construction, and every object has the
  service registered under its type's name.
\<close>

definition objects_ok :: "nat \<Rightarrow> nat \<Rightarrow> (string \<times> 'i io_object) list \<Rightarrow> registry \<Rightarrow> bool" where
  "objects_ok ctx impl objs r \<longleftrightarrow>
     registry_inv r [\<lparr>rq_frames = [], rq_got = (scheduler_key, impl) # map (\<lambda>(key, x). (key, io_service x)) objs\<rparr>] \<and>
     (\<forall>s \<in> set (sr_live r). sr_context r s = ctx)"

text \<open>One request of one thread is one, two or three of its steps.\<close>

lemma use_service_inv:
  assumes "registry_inv r [\<lparr>rq_frames = [], rq_got = g\<rparr>]" and "\<forall>s \<in> set (sr_live r). sr_context r s = ctx"
  shows "\<exists>s r'. use_service key (new_service ctx) r = Inr (s, r') \<and> registry_inv r' [\<lparr>rq_frames = [], rq_got = (key, s) # g\<rparr>] \<and>
    (\<forall>s \<in> set (sr_live r'). sr_context r' s = ctx) \<and> s \<in> set (sr_live r')"
proof -
  have sorted: "keys_sorted (sr_services r)" and m: "mset (sr_live r) = mset (map snd (sr_services r))"
    and d: "distinct (sr_live r)" "\<forall>s \<in> set (sr_live r). s < sr_next r"
    and got: "\<And>k s. (k, s) \<in> set g \<Longrightarrow> map_find (sr_services r) k = Some s"
    using assms(1) by (auto simp: registry_inv_def objects_of_def)
  show ?thesis
  proof (cases "map_find (sr_services r) key")
    case (Some s)
    then have "registry_inv r [\<lparr>rq_frames = [], rq_got = (key, s) # g\<rparr>]"
      using assms(1) by (simp add: registry_inv_def objects_of_def)
    moreover from this Some have "s \<in> set (sr_live r)" by (rule inv_registered_live)
    ultimately show ?thesis using Some assms(2) by (simp add: use_service_def use_service_lookup_def)
  next
    case None
    let ?s = "sr_next r"
    let ?r = "(snd (new_service ctx r))\<lparr>sr_services := map_assign key ?s (sr_services r)\<rparr>"
    have "use_service key (new_service ctx) r = Inr (?s, ?r)"
      using None by (simp add: registry_defs)
    moreover have "registry_inv ?r [\<lparr>rq_frames = [], rq_got = (key, ?s) # g\<rparr>]"
      using sorted m d got None services_assign_new [OF sorted None, of ?s]
      by (auto simp: registry_inv_def objects_of_def new_service_def map_assign_sorted stdmap.find_assign less_Suc_eq)
    moreover have "\<forall>s \<in> set (sr_live ?r). sr_context ?r s = ctx" "?s \<in> set (sr_live ?r)"
      using assms(2) d(2) by (auto simp: new_service_def)
    ultimately show ?thesis by blast
  qed
qed

lemma registry_inv_got:
  "registry_inv r [\<lparr>rq_frames = [], rq_got = g\<rparr>] \<Longrightarrow> set g' \<subseteq> set g \<Longrightarrow> registry_inv r [\<lparr>rq_frames = [], rq_got = g'\<rparr>]"
  by (auto simp: registry_inv_def objects_of_def)

lemma objects_ok_subset:
  assumes "objects_ok ctx impl objs r" and "set objs' \<subseteq> set objs"
  shows "objects_ok ctx impl objs' r"
proof -
  have "set (map (\<lambda>(key, x). (key, io_service x)) objs') \<subseteq> set (map (\<lambda>(key, x). (key, io_service x)) objs)"
    using assms(2) by auto
  with assms(1) show ?thesis unfolding objects_ok_def by (auto simp del: set_map elim!: registry_inv_got)
qed

lemma object_made:
  assumes "objects_ok ctx impl objs r"
  obtains x r' w' where "io_object_ctor impl key (new_service ctx) construct raw r w = Inr (x, r', w')"
    and "objects_ok ctx impl (objs @ [(key, x)]) r'"
proof -
  let ?g = "(scheduler_key, impl) # map (\<lambda>(key, x). (key, io_service x)) objs"
  have inv: "registry_inv r [\<lparr>rq_frames = [], rq_got = ?g\<rparr>]" and ctx: "\<forall>s \<in> set (sr_live r). sr_context r s = ctx"
    using assms by (simp_all add: objects_ok_def)
  have "\<exists>s r'. io_use_service impl key (new_service ctx) r = Inr (s, r') \<and>
      registry_inv r' [\<lparr>rq_frames = [], rq_got = (key, s) # ?g\<rparr>] \<and>
      (\<forall>s \<in> set (sr_live r'). sr_context r' s = ctx) \<and> s \<in> set (sr_live r')"
  proof (cases "key = scheduler_key")
    case True
    have "map_find (sr_services r) scheduler_key = Some impl" using inv by (simp add: registry_inv_def)
    with True inv ctx show ?thesis
      by (auto simp: io_use_service_def intro: registry_inv_got inv_registered_live)
  next
    case False
    with use_service_inv [OF inv ctx, of key] show ?thesis by (simp add: io_use_service_def)
  qed
  then obtain s r' where s: "io_use_service impl key (new_service ctx) r = Inr (s, r')"
    "registry_inv r' [\<lparr>rq_frames = [], rq_got = (key, s) # ?g\<rparr>]"
    "\<forall>s \<in> set (sr_live r'). sr_context r' s = ctx" "s \<in> set (sr_live r')"
    by blast
  obtain i w' where i: "construct s raw w = (i, w')" by force
  let ?x = "\<lparr>io_service = s, io_implementation = i\<rparr>"
  have "objects_ok ctx impl (objs @ [(key, ?x)]) r'"
    using s(3) unfolding objects_ok_def by (auto intro!: registry_inv_got [OF s(2)])
  with s(1,4) i show ?thesis by (intro that [of ?x r' w']) (simp_all add: io_object_ctor_def)
qed

lemma object_service_live:
  assumes "objects_ok ctx impl objs r" and "(key, x) \<in> set objs"
  shows "map_find (sr_services r) key = Some (io_service x)" and "io_service x \<in> set (sr_live r)"
proof -
  show "map_find (sr_services r) key = Some (io_service x)"
    using assms by (force simp: objects_ok_def registry_inv_def)
  with assms(1) show "io_service x \<in> set (sr_live r)"
    unfolding objects_ok_def by (blast intro: inv_registered_live)
qed

lemma object_runs_ok:
  assumes "objects_ok ctx impl objs r"
  shows "\<exists>objs' r' w'. object_runs ctx impl construct destroy raw es (objs, r, w) = Inr (objs', r', w') \<and>
    objects_ok ctx impl objs' r'"
  using assms
proof (induction es arbitrary: objs r w)
  case Nil
  then show ?case by simp
next
  case (Cons e es)
  have "\<exists>objs' r' w'. object_run ctx impl construct destroy raw e (objs, r, w) = Inr (objs', r', w') \<and>
      objects_ok ctx impl objs' r'"
  proof (cases e)
    case (Make_Object key)
    obtain x r' w' where "io_object_ctor impl key (new_service ctx) construct raw r w = Inr (x, r', w')"
      "objects_ok ctx impl (objs @ [(key, x)]) r'"
      using object_made [OF Cons.prems] .
    with Make_Object show ?thesis by simp
  next
    case (Destroy_Object j)
    show ?thesis
    proof (cases "j < length objs")
      case True
      obtain key x where x: "objs ! j = (key, x)" by force
      with True have "io_service x \<in> set (sr_live r)"
        using object_service_live(2) [OF Cons.prems, of key x] nth_mem [OF True] by simp
      moreover have "set (take j objs @ drop (Suc j) objs) \<subseteq> set objs"
        using set_take_subset set_drop_subset by (metis Un_subset_iff set_append)
      then have "objects_ok ctx impl (take j objs @ drop (Suc j) objs) r"
        by (rule objects_ok_subset [OF Cons.prems])
      ultimately show ?thesis
        using Destroy_Object True x by (auto simp: io_object_dtor_def split: prod.split)
    next
      case False
      with Destroy_Object Cons.prems show ?thesis by simp
    qed
  qed
  with Cons.IH show ?case by fastforce
qed

lemma io_context_objects_ok:
  "io_context_ctor ctx = Inr (impl, r) \<Longrightarrow> objects_ok ctx impl [] r"
  by (auto simp: io_context_ctor_def registry_defs map_assign_def objects_ok_def registry_inv_def objects_of_def
      keys_sorted_def split: if_splits)

text \<open>C34. I/O objects made and destroyed in any order on an \<open>io_context\<close>: no operation is undefined;
  every object uses the live service registered for its type, so two objects of one type share it,
  and its executor is that of the context. Once the context is destroyed, every object that outlives
  it refers to a deleted service: destroying it is undefined.\<close>

theorem io_objects_live_with_context:
  assumes "io_context_ctor ctx = Inr (impl, r0)"
  shows "\<exists>objs r w. object_runs ctx impl construct destroy raw es ([], r0, w0) = Inr (objs, r, w) \<and>
    (\<forall>(key, x) \<in> set objs. use_service key new r = Inr (io_object_get_service x, r) \<and> io_object_executor r x = Inr ctx) \<and>
    (\<forall>ends r'. context_dtor ends r = Some (Inr r') \<longrightarrow>
      (\<forall>(key, x) \<in> set objs. io_object_dtor destroy x r' w = Inl Undefined_Behaviour))"
proof -
  obtain objs r w where run: "object_runs ctx impl construct destroy raw es ([], r0, w0) = Inr (objs, r, w)"
    and ok: "objects_ok ctx impl objs r"
    using object_runs_ok [OF io_context_objects_ok [OF assms], of construct destroy raw es w0] by blast
  have "use_service key new r = Inr (io_object_get_service x, r) \<and> io_object_executor r x = Inr ctx"
    if "(key, x) \<in> set objs" for key x
    using object_service_live [OF ok that] ok
    by (simp add: use_service_def use_service_lookup_def io_object_get_service_def io_object_executor_def objects_ok_def)
  moreover have "sr_live r' = []" if "context_dtor ends r = Some (Inr r')" for ends r'
    using context_dtor_complete [of r _ ends] ok that unfolding objects_ok_def
    by (fastforce split: if_splits)
  ultimately show ?thesis using run by (fastforce simp: io_object_dtor_def)
qed

theorem io_objects_live_with_context_witness:
  "\<exists>objs r w. object_runs 7 0 (\<lambda>s i w. (i, w + 1)) (\<lambda>s i w. (i, w - 1)) ()
      [Make_Object ''socket'', Make_Object ''socket'', Make_Object ''timer'', Destroy_Object 0]
      ([], snd (projr (io_context_ctor 7)), 0 :: int) = Inr (objs, r, w) \<and>
    length objs = 2 \<and> w = 2 \<and> (\<forall>(key, x) \<in> set objs. io_object_executor r x = Inr 7)"
proof -
  obtain r0 where r0: "io_context_ctor 7 = Inr (0, r0)"
    by (simp add: io_context_ctor_def registry_defs)
  let ?es = "[Make_Object ''socket'', Make_Object ''socket'', Make_Object ''timer'', Destroy_Object 0]"
  let ?run = "object_runs 7 0 (\<lambda>s i w. (i, w + 1)) (\<lambda>s i w. (i, w - 1)) () ?es ([], r0, 0 :: int)"
  have start: "snd (projr (io_context_ctor 7)) = r0" using r0 by simp
  obtain objs r where c: "?run = Inr (objs, r, 2)" "length objs = 2"
    using r0 by (auto simp: io_context_ctor_def registry_defs map_assign_def io_object_ctor_def io_object_dtor_def
        io_use_service_def scheduler_key_def)
  obtain objs' r' w' where "?run = Inr (objs', r', w')" "\<forall>(key, x) \<in> set objs'. io_object_executor r' x = Inr 7"
    using io_objects_live_with_context [OF r0, of "\<lambda>s i w. (i, w + 1)" "\<lambda>s i w. (i, w - 1)" "()" ?es 0] by fast
  with c have "\<forall>(key, x) \<in> set objs. io_object_executor r x = Inr 7" by (metis Inr_inject prod.inject)
  with c show ?thesis unfolding start by blast
qed

end
