(* ===== verification/Histories.thy ===== *)
theory Histories
  imports Quiet_Steps
begin

text \<open>
  Executions of the system of threads with a log of what was handed to the scheduler and what it
  called: which operations are called, how often and in which order, under every interleaving.
\<close>

subsection \<open>The log\<close>

text \<open>
  \<open>Deferred\<close> is an operation a handler posts as a continuation of itself, \<open>Posted\<close> every other one
  that is posted, dispatched or started on a descriptor. \<open>Called\<close> marks the moment a thread begins
  to complete an operation.
\<close>

datatype log_entry = Posted op_ref | Deferred op_ref | Called op_ref

inductive user_post :: "nat \<Rightarrow> shared \<Rightarrow> thread \<Rightarrow> log_entry \<Rightarrow> shared \<Rightarrow> thread \<Rightarrow> bool"
  for self :: nat
where
  immediate:
    "may_call t \<Longrightarrow> is_work op \<Longrightarrow>
     post_immediate_completion self op c (sh_sched sh) (th_stack t) = (s', stk) \<Longrightarrow>
     user_post self sh t (if c \<and> in_handler (th_pc t) then Deferred op else Posted op)
       (sh\<lparr>sh_sched := s'\<rparr>) (t\<lparr>th_stack := stk\<rparr>)"
| dispatched:
    "may_call t \<Longrightarrow> is_work op \<Longrightarrow>
     user_post self sh t (Posted op) (sh\<lparr>sh_sched := do_dispatch op (sh_sched sh)\<rparr>) t"
| op_started:
    "may_call t \<Longrightarrow>
     user_post self sh t (Posted (Reactor_Op i))
       (sh\<lparr>sh_sched := work_started (sh_sched sh), sh_pending := add_mset i (sh_pending sh)\<rparr>) t"

text \<open>The operation a step of a thread begins to complete.\<close>

definition begins :: "thread \<Rightarrow> thread \<Rightarrow> op_ref list" where
  "begins t t' =
     (if th_pc t' = th_pc t then []
      else case th_pc t' of In_Op n op \<Rightarrow> (if is_work op then [op] else []) | _ \<Rightarrow> [])"

inductive history :: "nat \<Rightarrow> system \<Rightarrow> log_entry list \<Rightarrow> system \<Rightarrow> bool" for self :: nat where
  start: "history self sy [] sy"
| spawn: "history self sy l (sh, ts) \<Longrightarrow> history self sy l (sh, ts @ [new_thread])"
| post: "history self sy l (sh, ts) \<Longrightarrow> i < length ts \<Longrightarrow> user_post self sh (ts ! i) e sh' t' \<Longrightarrow>
     history self sy (l @ [e]) (sh', ts[i := t'])"
| work: "history self sy l (sh, ts) \<Longrightarrow> i < length ts \<Longrightarrow> local_step self sh (ts ! i) sh' t' \<Longrightarrow>
     \<nexists>e. user_post self sh (ts ! i) e sh' t' \<Longrightarrow>
     history self sy (l @ map Called (begins (ts ! i) t')) (sh', ts[i := t'])"

fun posted_in :: "log_entry \<Rightarrow> op_ref list" where
  "posted_in (Posted op) = [op]"
| "posted_in (Deferred op) = [op]"
| "posted_in (Called op) = []"

fun called_in :: "log_entry \<Rightarrow> op_ref list" where
  "called_in (Called op) = [op]"
| "called_in e = []"

definition posts :: "log_entry list \<Rightarrow> op_ref list" where
  "posts l = concat (map posted_in l)"

definition calls :: "log_entry list \<Rightarrow> op_ref list" where
  "calls l = concat (map called_in l)"

lemma log_simps [simp]:
  "posts [] = []" "posts (l @ l') = posts l @ posts l'" "posts [e] = posted_in e"
  "calls [] = []" "calls (l @ l') = calls l @ calls l'" "calls [e] = called_in e"
  "posts (map Called ops) = []" "calls (map Called ops) = ops"
  by (induction ops) (simp_all add: posts_def calls_def)

lemma user_post_local: "user_post self sh t e sh' t' \<Longrightarrow> local_step self sh t sh' t'"
  by (auto elim!: user_post.cases intro: local_step.intros)

lemma user_post_stays: "user_post self sh t e sh' t' \<Longrightarrow> may_call t \<and> th_pc t' = th_pc t"
  by (auto elim: user_post.cases)

text \<open>Every execution has a log, and every log is one of an execution.\<close>

lemma history_steps: "history self sy l sy' \<Longrightarrow> (sys_step self)\<^sup>*\<^sup>* sy sy'"
  by (induction rule: history.induct)
     (auto intro: rtranclp.rtrancl_into_rtrancl sys_step.intros user_post_local)

lemma steps_history: "(sys_step self)\<^sup>*\<^sup>* sy sy' \<Longrightarrow> \<exists>l. history self sy l sy'"
proof (induction rule: rtranclp_induct)
  case base
  then show ?case using history.start by blast
next
  case (step sy1 sy2)
  then obtain l where l: "history self sy l sy1" by blast
  from step.hyps(2) show ?case
  proof cases
    case (spawn sh ts)
    with l history.spawn show ?thesis by blast
  next
    case (step i ts sh sh' t')
    with l show ?thesis
      by (cases "\<exists>e. user_post self sh (ts ! i) e sh' t'") (use history.post history.work in blast)+
  qed
qed

lemma history_reachable: "history self sy l sy' \<Longrightarrow> reachable self sy \<Longrightarrow> reachable self sy'"
proof (drule history_steps)
  assume "(sys_step self)\<^sup>*\<^sup>* sy sy'" "reachable self sy"
  then show "reachable self sy'"
    by (induction rule: rtranclp_induct) (assumption, metis reachable.step)
qed

subsection \<open>The operations somebody holds\<close>

definition works :: "op_ref list \<Rightarrow> op_ref multiset" where
  "works q = mset (filter is_work q)"

definition th_held :: "thread \<Rightarrow> op_ref multiset" where
  "th_held t = (\<Sum>(k, ti) \<leftarrow> th_stack t. works (private_op_queue ti)) + works (th_leaked t)"

definition sh_held :: "shared \<Rightarrow> op_ref multiset" where
  "sh_held sh = works (sch_op_queue (sh_sched sh)) + image_mset Reactor_Op (sh_pending sh)"

definition held :: "system \<Rightarrow> op_ref multiset" where
  "held sy = sh_held (fst sy) + (\<Sum>t \<leftarrow> snd sy. th_held t)"

lemma works_simps [simp]:
  "works [] = {#}" "works (op # q) = (if is_work op then {#op#} else {#}) + works q"
  "works (q @ r) = works q + works r"
  by (simp_all add: works_def)

lemma works_maps [simp]:
  "works (map Descriptor_State ds) = {#}" "works (map Reactor_Op is) = image_mset Reactor_Op (mset is)"
  by (simp_all add: works_def filter_map comp_def)

lemma works_all: "list_all is_work q \<Longrightarrow> works q = mset q"
  by (simp add: works_def list_all_iff)

subsection \<open>Every step keeps what is held\<close>

lemma th_held_frame:
  "th_stack t = [] \<Longrightarrow> th_held t = works (th_leaked t)"
  "th_stack t = [(k, ti)] \<Longrightarrow> th_held t = works (private_op_queue ti) + works (th_leaked t)"
  by (simp_all add: th_held_def)

definition next_op :: "run_next \<Rightarrow> op_ref list" where
  "next_op nx = (case nx of Complete op \<Rightarrow> if is_work op then [op] else [] | _ \<Rightarrow> [])"

lemma loop_head_held:
  "loop_head s = (s', nx) \<Longrightarrow> works (sch_op_queue s') + mset (next_op nx) = works (sch_op_queue s)"
  by (cases s rule: loop_head_cases) (auto simp: loop_head_simps frame_simps next_op_def)

lemma wait_return_held:
  "wait_return s = (s', nx) \<Longrightarrow> works (sch_op_queue s') + mset (next_op nx) = works (sch_op_queue s)"
  by (cases s rule: wait_return_cases) (auto simp: next_op_def dest: loop_head_held)

text \<open>A thread that goes on from a turn of the loop has only what it leaked, and begins what it took.\<close>

lemma goto_next_held:
  assumes "th_stack t = [(self, ti)]" "works (private_op_queue ti) = {#}"
  shows "th_held (goto_next n nx t) = works (th_leaked t)"
  using assms by (cases nx) (simp_all add: th_held_def cs_leave_def)

lemma begins_goto_next:
  "\<nexists>n op. th_pc t = In_Op n op \<Longrightarrow> begins t (goto_next n nx t') = next_op nx"
  by (cases nx) (auto simp: begins_def next_op_def dest: sym)

lemma begins_same: "th_pc t' = th_pc t \<Longrightarrow> begins t t' = []"
  by (simp add: begins_def)

lemma begins_elsewhere: "(\<And>n op. th_pc t' \<noteq> In_Op n op) \<Longrightarrow> begins t t' = []"
  by (simp add: begins_def split: pc.split)

lemma queue_kept:
  "decrement_work s = (s', z) \<Longrightarrow> sch_op_queue s' = sch_op_queue s"
  "flush_private_work s ti = (s', ti') \<Longrightarrow> sch_op_queue s' = sch_op_queue s"
  by (auto simp: decrement_work_eq flush_private_work_def Let_def split: if_splits)

lemma init_task_works: "works (sch_op_queue (init_task r s)) = works (sch_op_queue s)"
  by (simp add: init_task_def frame_simps push_op_def oq_push_def)

lemma post_immediate_held:
  assumes "post_immediate_completion self op c s stk = (s', stk')" "is_work op"
    and "stk = [] \<or> (\<exists>ti. stk = [(self, ti)])"
  shows "works (sch_op_queue s') + (\<Sum>(k, ti) \<leftarrow> stk'. works (private_op_queue ti)) =
    works (sch_op_queue s) + (\<Sum>(k, ti) \<leftarrow> stk. works (private_op_queue ti)) + {#op#}"
  using assms
  by (auto simp: post_immediate_completion_def frame_simps push_op_def oq_push_def work_started_def
      Let_def split: if_splits)

lemma post_deferred_held:
  assumes "post_deferred_completions self ops s stk = (s', stk', lost)"
    and "stk = [] \<or> (\<exists>ti. stk = [(self, ti)])"
  shows "works (sch_op_queue s') + ((\<Sum>(k, ti) \<leftarrow> stk'. works (private_op_queue ti)) + works lost) =
    works (sch_op_queue s) + (\<Sum>(k, ti) \<leftarrow> stk. works (private_op_queue ti)) + works ops"
  using assms
  by (auto simp: post_deferred_completions_def frame_simps oq_splice_def Let_def split: if_splits)

lemma flush_held:
  assumes "th_ok self t" "in_run (th_pc t)" "flush_private_work s (th_info self t) = (s', ti)"
  shows "th_held (set_info self ti (t\<lparr>th_pc := p\<rparr>)) = th_held t"
    "works (sch_op_queue s') = works (sch_op_queue s)"
proof -
  obtain ti0 where "th_stack t = [(self, ti0)]" "th_info self t = ti0"
    using assms(1,2) by (auto elim: th_ok_frame)
  then show "th_held (set_info self ti (t\<lparr>th_pc := p\<rparr>)) = th_held t"
    using flush_info [OF assms(3)] by (simp add: th_held_def set_info_def)
  show "works (sch_op_queue s') = works (sch_op_queue s)" using queue_kept(2) [OF assms(3)] by simp
qed

lemma queue_of_calls:
  "works (sch_op_queue (work_started s)) = works (sch_op_queue s)"
  "works (sch_op_queue (sch_restart s)) = works (sch_op_queue s)"
  "works (sch_op_queue (sch_stop s)) = works (sch_op_queue s)"
  by (simp_all add: work_started_def sch_restart_def frame_simps)

lemma local_step_held:
  assumes "local_step self sh t sh' t'" "th_ok self t" "\<nexists>e. user_post self sh t e sh' t'"
  shows "sh_held sh' + th_held t' + mset (begins t t') = sh_held sh + th_held t"
  using assms(1)
proof (cases rule: local_step.cases)
  case (turn n s' nx)
  with assms(2) obtain ti where "th_stack t = [(self, ti)]" "private_op_queue ti = []"
    by (auto elim: th_ok_frame)
  with turn loop_head_held [OF turn(4)] show ?thesis
    by (simp add: sh_held_def goto_next_held begins_goto_next th_held_frame)
next
  case (wake n s' nx)
  with assms(2) obtain ti where "th_stack t = [(self, ti)]" "private_op_queue ti = []"
    by (auto elim: th_ok_frame)
  with wake wait_return_held [OF wake(4)] show ?thesis
    by (simp add: sh_held_def goto_next_held begins_goto_next th_held_frame)
next
  case (task_relock n s1 ti s' nx)
  with assms(2) obtain ti0 ds where ti0: "th_stack t = [(self, ti0)]" "th_info self t = ti0"
      "private_op_queue ti0 = map Descriptor_State ds"
    by (auto simp: th_ok_def th_info_def)
  with task_relock have "works (sch_op_queue s1) = works (sch_op_queue (sh_sched sh))"
      "private_op_queue ti = []"
    by (auto simp: task_cleanup_locked_def push_private_queue_eq push_op_def oq_push_def)
  with task_relock ti0 loop_head_held [OF task_relock(5)] show ?thesis
    by (simp add: sh_held_def goto_next_held [where ti = ti] begins_goto_next set_info_def th_held_frame)
next
  case (perform_io n d i "is" s' stk lost)
  with assms(2) have stk: "th_stack t = [(self, fresh_info)]" by (simp add: th_ok_def)
  have "works (sch_op_queue s') + ((\<Sum>(k, ti) \<leftarrow> stk. works (private_op_queue ti)) + works lost) =
      works (sch_op_queue (sh_sched sh)) + image_mset Reactor_Op (mset is)"
    using perform_io(5) stk post_deferred_held [of self "map Reactor_Op is" "sh_sched sh" "th_stack t" s' stk lost]
    by (auto split: if_splits)
  moreover obtain R where "sh_pending sh = mset (i # is) + R"
    using perform_io(4) by (auto simp: subset_mset.le_iff_add)
  ultimately show ?thesis
    using perform_io(1-3) stk by (simp add: sh_held_def th_held_def begins_def ac_simps)
next
  case (call_cancel_ops "is" s' stk lost)
  then obtain R where "sh_pending sh = mset is + R" by (auto simp: subset_mset.le_iff_add)
  with call_cancel_ops post_deferred_held [OF call_cancel_ops(5) th_ok_stack [OF assms(2)]] show ?thesis
    by (simp add: sh_held_def th_held_def begins_def ac_simps)
next
  case (relock_throws n s' ti)
  with assms(2) obtain ti0 where "th_stack t = [(self, ti0)]" "th_info self t = ti0"
    by (auto elim: th_ok_frame)
  with relock_throws show ?thesis
    by (auto simp: sh_held_def th_held_def begins_def push_private_queue_eq cs_leave_def)
next
  case (call_post op c s' stk)
  then show ?thesis using assms(3) user_post.immediate by blast
next
  case (call_dispatch op)
  then show ?thesis using assms(3) user_post.dispatched by blast
next
  case (call_start_op i)
  then show ?thesis using assms(3) user_post.op_started by blast
next
  case (run_enter)
  with assms(2) outside_ok have "th_stack t = []" by (auto simp: th_ok_def)
  with run_enter show ?thesis by (simp add: th_held_def begins_def cs_enter_def)
next
  case (task_run n usec ti ds)
  with assms(2) obtain ti0 where "th_stack t = [(self, ti0)]" "th_info self t = ti0"
    by (auto elim: th_ok_frame)
  with task_run show ?thesis by (simp add: th_held_def begins_def set_info_def)
next
  case (perform_io_nothing n d)
  with assms(2) have "th_stack t = [(self, fresh_info)]" by (simp add: th_ok_def)
  with perform_io_nothing show ?thesis
    by (simp add: sh_held_def th_held_def begins_def cs_leave_def)
next
  case (task_flush n s' ti)
  with assms(2) flush_held [of self t _ s' ti] show ?thesis
    by (simp add: sh_held_def begins_elsewhere set_info_def)
next
  case (work_flush n s' ti)
  with assms(2) flush_held [of self t _ s' ti] show ?thesis
    by (simp add: sh_held_def begins_elsewhere set_info_def)
qed (auto simp: sh_held_def th_held_def begins_def queue_of_calls init_task_works dest: queue_kept)

lemma user_post_held:
  assumes "user_post self sh t e sh' t'" "th_ok self t"
  shows "sh_held sh' + th_held t' = sh_held sh + th_held t + mset (posted_in e)"
    "called_in e = []"
proof -
  have "sh_held sh' + th_held t' = sh_held sh + th_held t + mset (posted_in e) \<and> called_in e = []"
    using assms(1)
  proof cases
    case (immediate op c s' stk)
    with post_immediate_held [OF immediate(6,5) th_ok_stack [OF assms(2)]] show ?thesis
      by (auto simp: sh_held_def th_held_def ac_simps)
  next
    case (dispatched op)
    then show ?thesis
      by (simp add: sh_held_def do_dispatch_def frame_simps push_op_def oq_push_def work_started_def)
  next
    case (op_started i)
    then show ?thesis by (simp add: sh_held_def work_started_def)
  qed
  then show "sh_held sh' + th_held t' = sh_held sh + th_held t + mset (posted_in e)"
    "called_in e = []" by simp_all
qed

lemma not_user_post:
  assumes "sh_held sh' + th_held t' = sh_held sh + th_held t" "th_ok self t"
  shows "\<nexists>e. user_post self sh t e sh' t'"
proof
  assume "\<exists>e. user_post self sh t e sh' t'"
  then obtain e where e: "user_post self sh t e sh' t'" by blast
  from user_post_held(1) [OF this assms(2)] assms(1) have "posted_in e = []" by simp
  with e show False by (auto elim!: user_post.cases split: if_splits)
qed

lemma held_update:
  assumes "i < length ts" "sh_held sh' + th_held t' + A = sh_held sh + th_held (ts ! i) + B"
  shows "held (sh', ts[i := t']) + A = held (sh, ts) + B"
proof -
  obtain R where "(\<Sum>t \<leftarrow> ts. th_held t) = th_held (ts ! i) + R"
      "\<forall>t. (\<Sum>t \<leftarrow> ts[i := t]. th_held t) = th_held t + R"
    using sum_list_split_at [OF assms(1), of th_held] by blast
  with assms(2) show ?thesis by (simp add: held_def ac_simps)
qed

lemma reachable_th_ok: "reachable self (sh, ts) \<Longrightarrow> i < length ts \<Longrightarrow> th_ok self (ts ! i)"
  using reachable_inv [of self "(sh, ts)"] by (simp add: system_inv_def)

text \<open>What was held at first and posted since has been called or is still held.\<close>

lemma history_held:
  assumes "history self sy l sy'" "reachable self sy"
  shows "held sy' + mset (calls l) = held sy + mset (posts l)"
  using assms
proof (induction rule: history.induct)
  case (start sy)
  then show ?case by simp
next
  case (spawn sy l sh ts)
  then show ?case by (simp add: held_def new_thread_def th_held_def)
next
  case (post sy l sh ts i e sh' t')
  then have "th_ok self (ts ! i)" using history_reachable reachable_th_ok by blast
  note user_post_held [OF post.hyps(3) this]
  then have "held (sh', ts[i := t']) + {#} = held (sh, ts) + mset (posted_in e)" "called_in e = []"
    using post.hyps(2) by (auto intro!: held_update simp del: add_0_right add.right_neutral)
  with post show ?case by (simp add: ac_simps)
next
  case (work sy l sh ts i sh' t')
  then have "th_ok self (ts ! i)" using history_reachable reachable_th_ok by blast
  from local_step_held [OF work.hyps(3) this work.hyps(4)] work.hyps(2)
  have "held (sh', ts[i := t']) + mset (begins (ts ! i) t') = held (sh, ts) + {#}"
    by (auto intro!: held_update simp del: add_0_right add.right_neutral)
  with work show ?case by (simp add: ac_simps)
qed

subsection \<open>The order of the calls\<close>

fun is_function :: "op_ref \<Rightarrow> bool" where
  "is_function (Executor_Op n) = True"
| "is_function op = False"

abbreviation fns :: "op_ref list \<Rightarrow> op_ref list" where
  "fns ops \<equiv> filter is_function ops"

definition no_private_function :: "thread \<Rightarrow> bool" where
  "no_private_function t \<longleftrightarrow> (\<forall>(k, ti) \<in> set (th_stack t). fns (private_op_queue ti) = [])"

lemma function_is_work [intro]: "is_function op \<Longrightarrow> is_work op"
  by (cases op) simp_all

lemma fns_maps [simp]:
  "fns (map Descriptor_State ds) = []" "fns (map Reactor_Op is) = []"
  by (induction ds; simp) (induction "is"; simp)

lemma no_private_function_simps [simp]:
  "th_stack t = [] \<Longrightarrow> no_private_function t"
  "th_stack t = [(k, ti)] \<Longrightarrow> no_private_function t \<longleftrightarrow> fns (private_op_queue ti) = []"
  by (simp_all add: no_private_function_def)

lemma loop_head_order:
  "loop_head s = (s', nx) \<Longrightarrow>
   fns (sch_op_queue s) = fns (next_op nx) @ fns (sch_op_queue s')"
  by (cases s rule: loop_head_cases)
     (auto simp: loop_head_simps frame_simps next_op_def)

lemma wait_return_order:
  "wait_return s = (s', nx) \<Longrightarrow>
   fns (sch_op_queue s) = fns (next_op nx) @ fns (sch_op_queue s')"
  by (cases s rule: wait_return_cases) (auto simp: next_op_def dest: loop_head_order)

lemma goto_next_no_private:
  "no_private_function t \<Longrightarrow> th_stack t = [(k, ti)] \<Longrightarrow> no_private_function (goto_next n nx t)"
  by (cases nx) (simp_all add: no_private_function_def cs_leave_def)

lemma deferred_shared:
  "post_deferred_completions self ops s stk = (s', stk', lost) \<Longrightarrow> \<not> sch_one_thread s \<Longrightarrow>
   stk' = stk \<and> lost = [] \<and> sch_op_queue s' = sch_op_queue s @ ops"
  by (auto simp: post_deferred_completions_def oq_splice_def frame_simps Let_def)

lemma user_post_order:
  assumes "user_post self sh t e sh' t'" "th_ok self t" "\<not> sch_one_thread (sh_sched sh)"
    and "\<nexists>op. e = Deferred op" and "no_private_function t"
  shows "fns (sch_op_queue (sh_sched sh')) =
      fns (sch_op_queue (sh_sched sh)) @ fns (posted_in e)"
    "no_private_function t'"
proof -
  have "fns (sch_op_queue (sh_sched sh')) =
      fns (sch_op_queue (sh_sched sh)) @ fns (posted_in e) \<and> no_private_function t'"
    using assms(1)
  proof cases
    case (immediate op c s' stk)
    with assms(4) have "c \<longrightarrow> is_outside (th_pc t)" by (auto simp: may_call_def split: if_splits)
    then have "\<not> c \<or> th_stack t = []" using assms(2) outside_ok by (auto simp: th_ok_def)
    with immediate assms(3-5) show ?thesis
      by (auto simp: post_immediate_completion_def frame_simps push_op_def oq_push_def
          work_started_def Let_def split: if_splits)
  next
    case (dispatched op)
    with assms(5) show ?thesis
      by (simp add: do_dispatch_def frame_simps push_op_def oq_push_def work_started_def)
  next
    case (op_started i)
    with assms(5) show ?thesis by (simp add: work_started_def)
  qed
  then show "fns (sch_op_queue (sh_sched sh')) =
      fns (sch_op_queue (sh_sched sh)) @ fns (posted_in e)"
    "no_private_function t'" by simp_all
qed

lemma local_step_order:
  assumes "local_step self sh t sh' t'" "th_ok self t" "\<nexists>e. user_post self sh t e sh' t'"
    and "\<not> sch_one_thread (sh_sched sh)" and "no_private_function t"
  shows "fns (sch_op_queue (sh_sched sh)) =
      fns (begins t t') @ fns (sch_op_queue (sh_sched sh')) \<and> no_private_function t'"
  using assms(1)
proof (cases rule: local_step.cases)
  case (turn n s' nx)
  with assms(2) obtain ti where "th_stack t = [(self, ti)]" by (auto elim: th_ok_frame)
  with turn loop_head_order [OF turn(4)] goto_next_no_private [OF assms(5)] show ?thesis
    by (simp add: begins_goto_next)
next
  case (wake n s' nx)
  with assms(2) obtain ti where "th_stack t = [(self, ti)]" by (auto elim: th_ok_frame)
  with wake wait_return_order [OF wake(4)] goto_next_no_private [OF assms(5)] show ?thesis
    by (simp add: begins_goto_next)
next
  case (task_relock n s1 ti s' nx)
  with assms(2) obtain ti0 ds where ti0: "th_stack t = [(self, ti0)]" "th_info self t = ti0"
      "private_op_queue ti0 = map Descriptor_State ds"
    by (auto simp: th_ok_def th_info_def)
  with task_relock have "fns (sch_op_queue s1) = fns (sch_op_queue (sh_sched sh))"
      "private_op_queue ti = []"
    by (auto simp: task_cleanup_locked_def push_private_queue_eq push_op_def oq_push_def)
  with task_relock ti0 loop_head_order [OF task_relock(5)]
    goto_next_no_private [of "set_info self ti t" self ti n nx] show ?thesis
    by (simp add: begins_goto_next set_info_def)
next
  case (perform_io n d i "is" s' stk lost)
  then have "stk = th_stack t" "fns (sch_op_queue s') = fns (sch_op_queue (sh_sched sh))"
    using assms(4) deferred_shared [of self "map Reactor_Op is" "sh_sched sh" "th_stack t" s' stk lost]
    by (auto split: if_splits)
  with perform_io assms(5) show ?thesis by (simp add: begins_def no_private_function_def)
next
  case (call_cancel_ops "is" s' stk lost)
  with assms(4,5) deferred_shared [OF call_cancel_ops(5)] show ?thesis
    by (simp add: begins_def no_private_function_def)
next
  case (relock_throws n s' ti)
  with assms(2,5) show ?thesis
    by (auto elim!: th_ok_frame simp: begins_def push_private_queue_eq cs_leave_def)
next
  case (call_post op c s' stk)
  then show ?thesis using assms(3) user_post.immediate by blast
next
  case (call_dispatch op)
  then show ?thesis using assms(3) user_post.dispatched by blast
next
  case (call_start_op i)
  then show ?thesis using assms(3) user_post.op_started by blast
next
  case run_enter
  with assms(2) outside_ok have "th_stack t = []" by (auto simp: th_ok_def)
  with run_enter show ?thesis by (simp add: begins_def cs_enter_def)
next
  case (task_run n usec ti ds)
  with assms(2,5) show ?thesis
    by (auto elim!: th_ok_frame simp: begins_def set_info_def)
next
  case (task_flush n s' ti)
  with assms(2,5) flush_info [OF task_flush(4)] queue_kept(2) [OF task_flush(4)] show ?thesis
    by (auto elim!: th_ok_frame simp: begins_def set_info_def)
next
  case (work_flush n s' ti)
  with assms(2,5) flush_info [OF work_flush(4)] queue_kept(2) [OF work_flush(4)] show ?thesis
    by (auto elim!: th_ok_frame simp: begins_def set_info_def)
next
  case (perform_io_nothing n d)
  with assms(2) have "th_stack t = [(self, fresh_info)]" by (simp add: th_ok_def)
  with perform_io_nothing show ?thesis by (simp add: begins_def cs_leave_def)
qed (use assms(5) in \<open>auto simp: no_private_function_def begins_def work_started_def sch_restart_def
    init_task_def frame_simps push_op_def oq_push_def dest: queue_kept\<close>)

text \<open>What an execution without continuations keeps, from a state whose queues hold no function.\<close>

definition in_order :: "log_entry list \<Rightarrow> system \<Rightarrow> bool" where
  "in_order l sy \<longleftrightarrow>
     fns (posts l) = fns (calls l) @ fns (sch_op_queue (sh_sched (fst sy))) \<and>
     (\<forall>t \<in> set (snd sy). no_private_function t)"

lemma history_one_thread:
  "history self sy l sy' \<Longrightarrow> sch_one_thread (sh_sched (fst sy')) = sch_one_thread (sh_sched (fst sy))"
  by (induction rule: history.induct)
     (auto dest: local_step_one_thread user_post_local)

lemma history_in_order:
  assumes "history self sy l sy'" "reachable self sy" "\<not> sch_one_thread (sh_sched (fst sy))"
    and "\<forall>op. Deferred op \<notin> set l" and "in_order [] sy"
  shows "in_order l sy'"
  using assms
proof (induction rule: history.induct)
  case (start sy)
  then show ?case by simp
next
  case (spawn sy l sh ts)
  then show ?case by (auto simp: in_order_def new_thread_def no_private_function_def)
next
  case (post sy l sh ts i e sh' t')
  then have prev: "in_order l (sh, ts)" by simp
  have ok: "th_ok self (ts ! i)" "\<not> sch_one_thread (sh_sched sh)"
    using history_reachable [OF post.hyps(1) post.prems(1)] reachable_th_ok post.hyps(2)
      history_one_thread [OF post.hyps(1)] post.prems(2) by auto
  have "no_private_function (ts ! i)" using prev post.hyps(2) by (simp add: in_order_def)
  moreover have "\<nexists>op. e = Deferred op" using post.prems(3) by auto
  ultimately show ?case
    using user_post_order [OF post.hyps(3) ok] user_post_held(2) [OF post.hyps(3) ok(1)] prev
    by (auto simp: in_order_def dest!: subsetD [OF set_update_subset_insert])
next
  case (work sy l sh ts i sh' t')
  then have prev: "in_order l (sh, ts)" by auto
  have ok: "th_ok self (ts ! i)" "\<not> sch_one_thread (sh_sched sh)"
    using history_reachable [OF work.hyps(1) work.prems(1)] reachable_th_ok work.hyps(2)
      history_one_thread [OF work.hyps(1)] work.prems(2) by auto
  have "no_private_function (ts ! i)" using prev work.hyps(2) by (simp add: in_order_def)
  from local_step_order [OF work.hyps(3) ok(1) work.hyps(4) ok(2) this] prev
  show ?case by (auto simp: in_order_def dest!: subsetD [OF set_update_subset_insert])
qed

subsection \<open>Nothing is lost\<close>

lemma local_step_leaked:
  assumes "local_step self sh t sh' t'" "\<not> sch_one_thread (sh_sched sh)"
  shows "th_leaked t' = th_leaked t"
  using assms(1)
proof (cases rule: local_step.cases)
  case (perform_io n d i "is" s' stk lost)
  then have "lost = []"
    using assms(2) deferred_shared [of self "map Reactor_Op is" "sh_sched sh" "th_stack t" s' stk lost]
    by (auto split: if_splits)
  with perform_io show ?thesis by simp
next
  case (call_cancel_ops "is" s' stk lost)
  with assms(2) deferred_shared [OF call_cancel_ops(5)] show ?thesis by simp
next
  case (turn n s' nx)
  then show ?thesis by (cases nx) simp_all
next
  case (wake n s' nx)
  then show ?thesis by (cases nx) simp_all
next
  case (task_relock n s1 ti s' nx)
  then show ?thesis by (cases nx) (simp_all add: set_info_def)
qed (simp_all add: set_info_def)

lemma reachable_nothing_leaked:
  "reachable self sy \<Longrightarrow> \<not> sch_one_thread (sh_sched (fst sy)) \<Longrightarrow> \<forall>t \<in> set (snd sy). th_leaked t = []"
proof (induction rule: reachable.induct)
  case (start raw hint)
  then show ?case by simp
next
  case (step sy sy')
  from step.hyps(2) show ?case
  proof cases
    case (spawn sh ts)
    with step show ?thesis by (simp add: new_thread_def)
  next
    case (step i ts sh sh' t')
    with \<open>\<not> sch_one_thread (sh_sched (fst sy'))\<close> have "\<not> sch_one_thread (sh_sched sh)"
      using local_step_one_thread by simp
    with step step.IH local_step_leaked show ?thesis
      by (auto dest!: subsetD [OF set_update_subset_insert])
  qed
qed

text \<open>A thread that would go back to sleep finds the queue empty.\<close>

lemma sleeper_sees_empty_queue:
  assumes "awake s" "snd (wait_return s) = Block" "ev_rel (sch_wakeup_event s) f (Suc k)"
  shows "sch_op_queue s = [] \<and> \<not> sch_stopped s"
proof -
  have same: "flag_is_set (waiter_leave (sch_wakeup_event s)) = flag_is_set (sch_wakeup_event s)"
    using ev.rel_is_set [OF assms(3)] ev.rel_is_set [OF ev.rel_leave [OF assms(3)]] by simp
  show ?thesis
  proof (cases s rule: wait_return_cases)
    case turn
    with assms(2) show ?thesis
      by (cases "s\<lparr>sch_wakeup_event := waiter_leave (sch_wakeup_event s)\<rparr>" rule: loop_head_cases)
        (auto simp: loop_head_simps)
  next
    case block
    with same assms(1) show ?thesis by (auto simp: awake_def)
  qed
qed

fun at_rest :: "pc \<Rightarrow> bool" where
  "at_rest (Waiting n) = True"
| "at_rest (In_Task n u) = True"
| "at_rest p = is_outside p"

lemma at_rest_holds_nothing:
  "th_ok self t \<Longrightarrow> at_rest (th_pc t) \<Longrightarrow> th_leaked t = [] \<Longrightarrow> th_held t = {#}"
  by (cases "th_pc t") (auto simp: th_ok_def th_held_def)

lemma rest_holds_pending:
  assumes "reachable self (sh, ts)" "\<not> sch_one_thread (sh_sched sh)" "nobody_threw ts"
    and "\<forall>t \<in> set ts. at_rest (th_pc t)"
    and "t \<in> set ts" "waiting (th_pc t) = 1" "snd (wait_return (sh_sched sh)) = Block"
  shows "held (sh, ts) = image_mset Reactor_Op (sh_pending sh)" "sch_op_queue (sh_sched sh) = []"
    "\<not> sch_stopped (sh_sched sh)"
proof -
  obtain f where rel: "ev_rel (sch_wakeup_event (sh_sched sh)) f (sum_list (map (waiting \<circ> th_pc) ts))"
    using reachable_inv [OF assms(1)] by (auto simp: system_inv_def)
  have "1 \<le> sum_list (map (waiting \<circ> th_pc) ts)" using assms(5,6) by (induction ts) auto
  then obtain k where "sum_list (map (waiting \<circ> th_pc) ts) = Suc k"
    by (cases "sum_list (map (waiting \<circ> th_pc) ts)") auto
  with rel sleeper_sees_empty_queue [OF _ assms(7)] reachable_awake [OF assms(1)] assms(2,3)
  show empty: "sch_op_queue (sh_sched sh) = []" and "\<not> sch_stopped (sh_sched sh)" by auto
  have "\<forall>t \<in> set ts. th_held t = {#}"
    using reachable_inv [OF assms(1)] reachable_nothing_leaked [OF assms(1)] assms(2,4) at_rest_holds_nothing
    by (auto simp: system_inv_def)
  then have "(\<Sum>t \<leftarrow> ts. th_held t) = {#}" by (induction ts) auto
  with empty show "held (sh, ts) = image_mset Reactor_Op (sh_pending sh)"
    by (simp add: held_def sh_held_def)
qed

subsection \<open>A history\<close>

text \<open>Steps of a thread that is alone: what it posts, and what it does when it moves on.\<close>

lemma history_alone:
  assumes "history self sy l (sh, [t])"
  shows "user_post self sh t e sh' t' \<Longrightarrow> history self sy (l @ [e]) (sh', [t'])"
    "local_step self sh t sh' t' \<Longrightarrow> \<not> may_call t \<or> th_pc t' \<noteq> th_pc t \<Longrightarrow>
       history self sy (l @ map Called (begins t t')) (sh', [t'])"
  using history.post [OF assms, of 0] history.work [OF assms, of 0]
  by (simp, metis user_post_stays length_Cons list_update_code(2) nth_Cons_0 zero_less_Suc)

definition demo_posted :: scheduler where
  "demo_posted = do_dispatch (Executor_Op 7) (work_started (scheduler_ctor demo_raw 2))"

definition demo_taken :: scheduler where
  "demo_taken = demo_posted\<lparr>sch_op_queue := [], sch_outstanding_work := 1\<rparr>"

definition demo_asleep :: shared where
  "demo_asleep = \<lparr>sh_sched = fst (loop_head demo_taken), sh_pending = {#5#}, sh_guards = 0\<rparr>"

definition demo_at :: "pc \<Rightarrow> thread" where
  "demo_at p = \<lparr>th_pc = p, th_stack = [(0, fresh_info)], th_must_stop = False, th_leaked = []\<rparr>"

lemma demo_posted_eq:
  "sch_op_queue demo_posted = [Executor_Op 7]" "sch_outstanding_work demo_posted = 2"
  "\<not> sch_stopped demo_posted" "sch_wakeup_event demo_posted = \<lparr>ev_state = 1\<rparr>"
  by (simp_all add: demo_posted_def do_dispatch_def push_op_def oq_push_def work_started_def frame_simps
      scheduler_ctor_def demo_raw_def ev_init_def set_flag_def)

lemma demo_taken_head: "loop_head demo_taken =
    (demo_taken\<lparr>sch_wakeup_event := waiter_enter (clear_flag (sch_wakeup_event demo_taken))\<rparr>, Block)"
  by (rule loop_head_block) (simp_all add: demo_taken_def demo_posted_eq)

lemma demo_history:
  "history 0 (initial_shared demo_raw 2, [])
     [Posted (Reactor_Op 5), Posted (Executor_Op 7), Called (Executor_Op 7)]
     (demo_asleep, [demo_at (Waiting 1)])"
proof -
  let ?sy = "(initial_shared demo_raw 2, [])"
  let ?sh = "\<lambda>s. \<lparr>sh_sched = s, sh_pending = {#5#}, sh_guards = 0\<rparr>"
  let ?work = "work_started (scheduler_ctor demo_raw 2)"
  let ?run = "demo_posted\<lparr>sch_op_queue := []\<rparr>"
  have "history 0 ?sy [] (initial_shared demo_raw 2, [new_thread])"
    using history.spawn [OF history.start, of 0 "initial_shared demo_raw 2" "[]"] by simp
  note this = history_alone(1) [OF this user_post.op_started [where i = 5]]
  then have "history 0 ?sy [Posted (Reactor_Op 5)] (?sh ?work, [new_thread])"
    by (simp add: demo_may_call initial_shared_def)
  note this = history_alone(1) [OF this user_post.dispatched [where op = "Executor_Op 7"]]
  then have "history 0 ?sy [Posted (Reactor_Op 5), Posted (Executor_Op 7)] (?sh demo_posted, [new_thread])"
    by (simp add: demo_may_call demo_posted_def)
  note this = history_alone(2) [OF this local_step.run_enter]
  then have "history 0 ?sy [Posted (Reactor_Op 5), Posted (Executor_Op 7)] (?sh demo_posted, [demo_at (At_Loop 0)])"
    by (simp add: new_thread_def demo_posted_eq demo_at_def cs_enter_def begins_def)
  moreover have "loop_head demo_posted = (?run, Complete (Executor_Op 7))"
    by (simp add: loop_head_op [OF _ demo_posted_eq(1)] demo_posted_eq unlock_for_more_def)
  ultimately have "history 0 ?sy [Posted (Reactor_Op 5), Posted (Executor_Op 7), Called (Executor_Op 7)]
      (?sh ?run, [demo_at (In_Op 0 (Executor_Op 7))])"
    using history_alone(2) [OF _ local_step.turn [where n = 0 and s' = ?run and nx = "Complete (Executor_Op 7)"]]
    by (fastforce simp: demo_at_def begins_def may_call_def)
  note this = history_alone(2) [OF this local_step.handler_done [where n = 0 and op = "Executor_Op 7"]]
  then have "history 0 ?sy [Posted (Reactor_Op 5), Posted (Executor_Op 7), Called (Executor_Op 7)]
      (?sh ?run, [demo_at (After_Op 0)])"
    by (simp add: demo_at_def begins_def)
  note this = history_alone(2) [OF this local_step.work_flush [where n = 0 and s' = ?run and ti = fresh_info]]
  then have "history 0 ?sy [Posted (Reactor_Op 5), Posted (Executor_Op 7), Called (Executor_Op 7)]
      (?sh ?run, [demo_at (Work_Dec 0)])"
    by (simp add: demo_at_def begins_def may_call_def th_info_def set_info_def flush_private_work_def)
  note this = history_alone(2) [OF this local_step.work_dec [where n = 0 and s' = demo_taken and zero = False]]
  then have "history 0 ?sy [Posted (Reactor_Op 5), Posted (Executor_Op 7), Called (Executor_Op 7)]
      (?sh demo_taken, [demo_at (Push_Private 0)])"
    by (simp add: demo_at_def begins_def may_call_def decrement_work_eq demo_posted_eq demo_taken_def)
  note this = history_alone(2) [OF this local_step.next_turn [where n = 0]]
  then have "history 0 ?sy [Posted (Reactor_Op 5), Posted (Executor_Op 7), Called (Executor_Op 7)]
      (?sh demo_taken, [demo_at (At_Loop 1)])"
    by (simp add: demo_at_def begins_def may_call_def th_info_def oq_empty_def)
  note this = history_alone(2) [OF this local_step.turn [where n = 1 and nx = Block and s' = "fst (loop_head demo_taken)"]]
  then show ?thesis
    by (simp add: demo_at_def begins_def may_call_def demo_taken_head demo_asleep_def)
qed

lemma demo_asleep_eq:
  "\<not> sch_one_thread (sh_sched demo_asleep)" "sh_pending demo_asleep = {#5#}"
  "snd (wait_return (sh_sched demo_asleep)) = Block"
proof -
  show "\<not> sch_one_thread (sh_sched demo_asleep)" "sh_pending demo_asleep = {#5#}"
    by (simp_all add: demo_asleep_def demo_taken_head)
       (simp add: demo_taken_def demo_posted_def do_dispatch_def push_op_def work_started_def
        scheduler_ctor_def frame_simps)
  have "sch_wakeup_event (sh_sched demo_asleep) = \<lparr>ev_state = 2\<rparr>"
    by (simp add: demo_asleep_def demo_taken_head)
       (simp add: demo_taken_def demo_posted_eq waiter_enter_def clear_flag_def)
  then show "snd (wait_return (sh_sched demo_asleep)) = Block"
    by (simp add: wait_return_def waiter_leave_def flag_is_set_def Let_def)
qed

subsection \<open>What is called\<close>

lemma initial_reachable: "zeroed raw \<Longrightarrow> reachable self (initial_shared raw hint, [])"
  by (rule reachable.start)

lemma initial_held: "held (initial_shared raw hint, []) = {#}"
  by (simp add: held_def sh_held_def initial_shared_def scheduler_ctor_def)

lemma initial_in_order: "in_order [] (initial_shared raw hint, [])"
  by (simp add: in_order_def initial_shared_def scheduler_ctor_def)

lemma initial_one_thread: "sch_one_thread (sh_sched (initial_shared raw hint)) \<longleftrightarrow> hint = 1"
  by (simp add: initial_shared_def scheduler_ctor_def)

lemma history_counts:
  assumes "zeroed raw" "history self (initial_shared raw hint, []) l sy"
  shows "mset (posts l) = mset (calls l) + held sy"
  using history_held [OF assms(2) initial_reachable [OF assms(1)]] by (simp add: initial_held ac_simps)

text \<open>
  What somebody can still complete: the shared queue, the descriptors and the private queues of the
  threads. What was in a local queue when that was destroyed is lost.
\<close>

definition in_queues :: "system \<Rightarrow> op_ref multiset" where
  "in_queues sy = sh_held (fst sy) +
     (\<Sum>t \<leftarrow> snd sy. \<Sum>(k, ti) \<leftarrow> th_stack t. works (private_op_queue ti))"

definition lost_ops :: "system \<Rightarrow> op_ref multiset" where
  "lost_ops sy = (\<Sum>t \<leftarrow> snd sy. works (th_leaked t))"

lemma held_split: "held sy = in_queues sy + lost_ops sy"
  by (simp add: held_def in_queues_def lost_ops_def th_held_def sum_list_addf ac_simps)

lemma nothing_lost:
  assumes "reachable self sy" "\<not> sch_one_thread (sh_sched (fst sy))"
  shows "lost_ops sy = {#}"
proof -
  have "\<forall>t \<in> set ts. th_leaked t = [] \<Longrightarrow> (\<Sum>t \<leftarrow> ts. works (th_leaked t)) = {#}" for ts
    by (induction ts) auto
  with reachable_nothing_leaked [OF assms] show ?thesis by (simp add: lost_ops_def)
qed

text \<open>C6. Whatever the interleaving of any number of threads, every operation posted, dispatched, deferred or
  started on a descriptor has been called, or is in the shared queue, in the private queue of a thread
  or waiting on a descriptor, or was lost with a destroyed queue, as often as it was handed over; in a
  scheduler for several threads none is ever lost. Operations that are posted once are called at most
  once, and none is called that was not posted before.\<close>

theorem operations_are_called_once:
  assumes "zeroed raw" and "history self (initial_shared raw hint, []) l (sh, ts)"
  shows "mset (posts l) = mset (calls l) + in_queues (sh, ts) + lost_ops (sh, ts) \<and>
    (hint \<noteq> 1 \<longrightarrow> lost_ops (sh, ts) = {#}) \<and>
    (distinct (posts l) \<longrightarrow> distinct (calls l) \<and> set (calls l) \<subseteq> set (posts l))"
proof -
  have counts: "mset (posts l) = mset (calls l) + held (sh, ts)" using assms by (rule history_counts)
  obtain left where "mset left = held (sh, ts)" using ex_mset by blast
  with counts have "mset (posts l) = mset (calls l @ left)" by simp
  from mset_eq_imp_distinct_iff [OF this] mset_eq_setD [OF this]
  have "distinct (posts l) \<longrightarrow> distinct (calls l) \<and> set (calls l) \<subseteq> set (posts l)" by auto
  moreover have "lost_ops (sh, ts) = {#}" if "hint \<noteq> 1"
    using nothing_lost [OF history_reachable [OF assms(2) initial_reachable [OF assms(1)]]]
      history_one_thread [OF assms(2)] that by (simp add: initial_one_thread)
  ultimately show ?thesis using counts by (auto simp: held_split ac_simps)
qed

theorem operations_are_called_once_witness:
  "\<exists>l. history 0 (initial_shared demo_raw 2, []) l (demo_asleep, [demo_at (Waiting 1)]) \<and>
     posts l = [Reactor_Op 5, Executor_Op 7] \<and> calls l = [Executor_Op 7] \<and>
     in_queues (demo_asleep, [demo_at (Waiting 1)]) = {#Reactor_Op 5#} \<and>
     lost_ops (demo_asleep, [demo_at (Waiting 1)]) = {#}"
  using operations_are_called_once [OF demo_zeroed demo_history] demo_history
  by (intro exI conjI) (auto simp: posts_def calls_def)

text \<open>C7. In a scheduler for several threads, as long as no handler posts a continuation, the functions
  posted and dispatched by any threads are called in exactly the order in which they were handed
  over, whichever threads call them: the calls are at every moment the posts without those still in
  the shared queue.\<close>

theorem functions_are_called_in_order:
  assumes "zeroed raw" and "history self (initial_shared raw hint, []) l (sh, ts)"
    and "hint \<noteq> 1" and "\<forall>op. Deferred op \<notin> set l"
  shows "fns (posts l) = fns (calls l) @ fns (sch_op_queue (sh_sched sh))"
  using history_in_order [OF assms(2) initial_reachable [OF assms(1)] _ assms(4) initial_in_order] assms(3)
  by (simp add: in_order_def initial_one_thread)

theorem functions_are_called_in_order_witness:
  "fns (posts [Posted (Reactor_Op 5), Posted (Executor_Op 7), Called (Executor_Op 7)]) =
     Executor_Op 7 # fns (sch_op_queue (sh_sched demo_asleep))"
  using functions_are_called_in_order [OF demo_zeroed demo_history] by (simp add: calls_def)

text \<open>In a scheduler for several threads whose \<open>run\<close> has not thrown, once every thread rests
  (outside, blocked, or in the reactor) and one that is blocked would go back to sleep, everything
  that was ever handed over has been called, except what still waits for its descriptor: nothing is
  lost and nothing forgotten in a queue. The scheduler is then not stopped.\<close>

theorem sleeping_means_all_called:
  assumes "zeroed raw" and "history self (initial_shared raw hint, []) l (sh, ts)"
    and "hint \<noteq> 1" and "nobody_threw ts" and "\<forall>t \<in> set ts. at_rest (th_pc t)"
    and "t \<in> set ts" and "waiting (th_pc t) = 1" and "snd (wait_return (sh_sched sh)) = Block"
  shows "mset (posts l) = mset (calls l) + image_mset Reactor_Op (sh_pending sh) \<and>
    \<not> sch_stopped (sh_sched sh)"
proof -
  have "reachable self (sh, ts)" "\<not> sch_one_thread (sh_sched sh)"
    using history_reachable [OF assms(2) initial_reachable [OF assms(1)]] history_one_thread [OF assms(2)]
      assms(3) by (simp_all add: initial_one_thread)
  with rest_holds_pending [OF this assms(4-8)] history_counts [OF assms(1,2)] show ?thesis by simp
qed

theorem sleeping_means_all_called_witness:
  "mset (posts [Posted (Reactor_Op 5), Posted (Executor_Op 7), Called (Executor_Op 7)]) =
     {#Executor_Op 7#} + image_mset Reactor_Op {#5#}"
  using sleeping_means_all_called [OF demo_zeroed demo_history, of "demo_at (Waiting 1)"] demo_asleep_eq
  by (simp add: nobody_threw_def demo_at_def posts_def calls_def)

end
