(* ===== verification/Main_Program.thy ===== *)
theory Main_Program
  imports Histories Run_Steps
begin

text \<open>
  The program of \<^verbatim>\<open>main.cc\<close>: the executions of the system of threads in which the main thread posts
  \<open>init_task\<close> and then a hundred \<open>print\<close>s and calls \<open>run\<close>, while a thread for each processor does
  nothing but \<open>run\<close>. What \<open>print\<close> writes and the two calls to \<open>sleep_for\<close> are left out.
\<close>

subsection \<open>The program\<close>

text \<open>The functions \<open>main\<close> posts, as operations in the order of the posts.\<close>

definition init_op :: op_ref where
  "init_op = Executor_Op 0"

definition print_op :: "nat \<Rightarrow> op_ref" where
  "print_op idx = Executor_Op (Suc idx)"

definition main_posts :: "op_ref list" where
  "main_posts = init_op # map print_op [0..<100]"

text \<open>
  The function \<open>init_task\<close>, with the reactor that \<open>use_service\<close> finds or makes, and the call it makes
  on it: \<open>epoll_reactor::init_task()\<close> is that of the scheduler.
\<close>

definition reactor_init_task :: "nat \<Rightarrow> scheduler \<Rightarrow> scheduler" where
  [simp]: "reactor_init_task reactor s = init_task reactor s"

definition main_init_task :: "nat \<Rightarrow> shared \<Rightarrow> shared" where
  [simp]: "main_init_task reactor sh = sh\<lparr>sh_sched := reactor_init_task reactor (sh_sched sh)\<rparr>"

text \<open>
  A step of a thread other than the posts of \<open>main\<close> and the body of \<open>init_task\<close>. Functions make no
  calls: \<open>print\<close> makes none, and \<open>init_task\<close> returns after it has installed the reactor. A thread
  calls \<open>run\<close> once, the main thread after its last post. A reactor without a registered descriptor
  returns no operations.
\<close>

definition main_allows :: "nat \<Rightarrow> nat \<Rightarrow> nat \<Rightarrow> shared \<Rightarrow> thread \<Rightarrow> thread \<Rightarrow> bool" where
  "main_allows self k i sh t t' \<longleftrightarrow>
     (may_call t \<longrightarrow> th_pc t' \<noteq> th_pc t) \<and>
     (is_outside (th_pc t) \<and> \<not> th_must_stop t \<longrightarrow>
        th_pc t = Outside \<and> (i = 0 \<longrightarrow> k = length main_posts)) \<and>
     ((\<exists>n. th_pc t = In_Op n init_op) \<longrightarrow> sch_task (sh_sched sh) \<noteq> None) \<and>
     ((\<exists>n u. th_pc t = In_Task n u) \<longrightarrow> private_op_queue (th_info self t') = [])"

text \<open>
  The executions, with the number of posts \<open>main\<close> has made and the log; \<open>r\<close> is the reactor that
  \<open>use_service\<close> returns to \<open>init_task\<close>.
\<close>

inductive main_run :: "nat \<Rightarrow> nat \<Rightarrow> system \<Rightarrow> nat \<Rightarrow> log_entry list \<Rightarrow> system \<Rightarrow> bool"
  for self :: nat and r :: nat and start :: system
where
  declared: "main_run self r start 0 [] start"
| posts:
    "main_run self r start k l (sh, ts) \<Longrightarrow> k < length main_posts \<Longrightarrow> 0 < length ts \<Longrightarrow>
     th_pc (ts ! 0) = Outside \<Longrightarrow>
     post_immediate_completion self (main_posts ! k) False (sh_sched sh) (th_stack (ts ! 0)) = (s', stk) \<Longrightarrow>
     main_run self r start (Suc k) (l @ [Posted (main_posts ! k)])
       (sh\<lparr>sh_sched := s'\<rparr>, ts[0 := (ts ! 0)\<lparr>th_stack := stk\<rparr>])"
| init_task:
    "main_run self r start k l (sh, ts) \<Longrightarrow> i < length ts \<Longrightarrow> th_pc (ts ! i) = In_Op n init_op \<Longrightarrow>
     sch_task (sh_sched sh) = None \<Longrightarrow>
     main_run self r start k l (main_init_task r sh, ts)"
| advance:
    "main_run self r start k l (sh, ts) \<Longrightarrow> i < length ts \<Longrightarrow> local_step self sh (ts ! i) sh' t' \<Longrightarrow>
     main_allows self k i sh (ts ! i) t' \<Longrightarrow>
     main_run self r start k (l @ map Called (begins (ts ! i) t')) (sh', ts[i := t'])"

subsection \<open>What the program keeps\<close>

text \<open>The frame of a thread is always fresh and only functions are executed; nobody has returned or thrown.\<close>

definition main_thread_ok :: "thread \<Rightarrow> bool" where
  "main_thread_ok t \<longleftrightarrow>
     (\<forall>(k, ti) \<in> set (th_stack t). ti = fresh_info) \<and>
     (case th_pc t of In_Op n op \<Rightarrow> is_function op | Threw e \<Rightarrow> False | Returned n \<Rightarrow> False | _ \<Rightarrow> True)"

definition main_shared_ok :: "shared \<Rightarrow> bool" where
  "main_shared_ok sh \<longleftrightarrow>
     (\<forall>op \<in> set (sch_op_queue (sh_sched sh)). op = Task_Operation \<or> is_function op) \<and>
     sh_pending sh = {#} \<and> sh_guards sh = 1"

lemma main_posts_function: "k < length main_posts \<Longrightarrow> is_function (main_posts ! k)"
  by (cases k) (simp_all add: main_posts_def init_op_def print_op_def)

lemma length_main_posts: "length main_posts = 101"
  by (simp add: main_posts_def)

lemma distinct_main_posts: "distinct main_posts"
  by (auto simp: main_posts_def init_op_def print_op_def distinct_map inj_on_def)

lemma loop_head_main:
  assumes "loop_head s = (s', nx)" "\<forall>op \<in> set (sch_op_queue s). op = Task_Operation \<or> is_function op"
  shows "(\<forall>op \<in> set (sch_op_queue s'). op = Task_Operation \<or> is_function op) \<and>
    (case nx of Complete op \<Rightarrow> is_function op | Return_Zero \<Rightarrow> sch_stopped s | _ \<Rightarrow> True)"
  using assms by (cases s rule: loop_head_cases) (auto simp: loop_head_simps frame_simps)

lemma wait_return_main:
  assumes "wait_return s = (s', nx)" "\<forall>op \<in> set (sch_op_queue s). op = Task_Operation \<or> is_function op"
  shows "(\<forall>op \<in> set (sch_op_queue s'). op = Task_Operation \<or> is_function op) \<and>
    (case nx of Complete op \<Rightarrow> is_function op | Return_Zero \<Rightarrow> sch_stopped s | _ \<Rightarrow> True)"
proof (cases s rule: wait_return_cases)
  case turn
  with assms loop_head_main [of "s\<lparr>sch_wakeup_event := waiter_leave (sch_wakeup_event s)\<rparr>" s' nx]
  show ?thesis by (cases nx) simp_all
next
  case block
  with assms show ?thesis by auto
qed

lemma goto_next_main:
  assumes "main_thread_ok t" "case nx of Complete op \<Rightarrow> is_function op | Return_Zero \<Rightarrow> False | _ \<Rightarrow> True"
  shows "main_thread_ok (goto_next n nx t)"
  using assms by (cases nx) (simp_all add: main_thread_ok_def)

lemma flush_fresh:
  "flush_private_work s fresh_info = (s', ti) \<Longrightarrow> s' = s \<and> ti = fresh_info"
  by (auto simp: flush_private_work_def Let_def)

lemma main_th_info:
  assumes "th_ok self t" "main_thread_ok t" "in_run (th_pc t)"
  shows "th_stack t = [(self, fresh_info)]" "th_info self t = fresh_info"
  using assms by (auto elim!: th_ok_frame simp: main_thread_ok_def)

lemma advance_main:
  assumes "local_step self sh t sh' t'" "main_allows self k i sh t t'" "th_ok self t" "th_ok self t'"
    and "main_thread_ok t" "main_shared_ok sh" "\<not> th_must_stop t"
    and "\<not> sch_stopped (sh_sched sh)" "sch_outstanding_work (sh_sched sh) \<noteq> 0"
  shows "main_thread_ok t' \<and> main_shared_ok sh'"
  using assms(1)
proof (cases rule: local_step.cases)
  case (turn n s' nx)
  with assms(5,6,8) loop_head_main [OF turn(4)] goto_next_main [of t nx n] show ?thesis
    by (auto simp: main_shared_ok_def split: run_next.splits)
next
  case (wake n s' nx)
  with assms(5,6,8) wait_return_main [OF wake(4)] goto_next_main [of t nx n] show ?thesis
    by (auto simp: main_shared_ok_def split: run_next.splits)
next
  case (task_run n usec ti ds)
  then have "th_info self t' = ti" "th_stack t' = [(self, ti)]"
    using main_th_info [OF assms(3,5)] by (simp_all add: th_info_def set_info_def)
  with task_run assms(2,6) main_th_info [OF assms(3,5)] show ?thesis
    by (auto simp: main_allows_def main_thread_ok_def set_info_def)
next
  case (task_flush n s' ti)
  with assms(5,6) main_th_info [OF assms(3,5)] flush_fresh [of "sh_sched sh" s' ti] show ?thesis
    by (auto simp: main_thread_ok_def set_info_def)
next
  case (work_flush n s' ti)
  with assms(5,6) main_th_info [OF assms(3,5)] flush_fresh [of "sh_sched sh" s' ti] show ?thesis
    by (auto simp: main_thread_ok_def set_info_def)
next
  case (task_relock n s1 ti s' nx)
  then have s1: "sch_op_queue s1 = sch_op_queue (sh_sched sh) @ [Task_Operation]" "ti = fresh_info"
      "sch_stopped s1 = sch_stopped (sh_sched sh)"
    using main_th_info [OF assms(3,5)]
    by (auto simp: task_cleanup_locked_def push_private_queue_eq push_op_def oq_push_def)
  then have "main_thread_ok (set_info self ti t)"
    using assms(5) main_th_info [OF assms(3,5)] task_relock by (simp add: main_thread_ok_def set_info_def)
  with s1 task_relock assms(6,8) loop_head_main [OF task_relock(5)]
    goto_next_main [of "set_info self ti t" nx n]
  show ?thesis by (auto simp: main_shared_ok_def split: run_next.splits)
next
  case (perform_io n d i "is" s' stk lost)
  with assms(5) show ?thesis by (simp add: main_thread_ok_def)
next
  case (perform_io_nothing n d)
  with assms(5) show ?thesis by (simp add: main_thread_ok_def)
next
  case (relock_throws n s' ti)
  with main_th_info [OF assms(3,5)] show ?thesis by (simp add: oq_empty_def)
next
  case run_enter
  with assms(5,6) show ?thesis by (auto simp: main_thread_ok_def cs_enter_def)
next
  case (next_turn n)
  with assms(5,6) show ?thesis by (simp add: main_thread_ok_def)
next
  case (work_dec n s' zero)
  with assms(5,6) show ?thesis by (auto simp: main_thread_ok_def main_shared_ok_def decrement_work_eq)
next
  case (handler_done n op)
  with assms(5,6) show ?thesis by (simp add: main_thread_ok_def)
qed (use assms(2,7,9) in \<open>simp_all add: main_allows_def\<close>)

subsection \<open>Executions of the program\<close>

text \<open>
  The log of the program is one of the system; nobody stops the scheduler, since the guard of \<open>main\<close>
  counts; and there are never more operations than posts.
\<close>

definition main_inv :: "nat \<Rightarrow> system \<Rightarrow> nat \<Rightarrow> log_entry list \<Rightarrow> system \<Rightarrow> bool" where
  "main_inv self start k l sy \<longleftrightarrow>
     history self start l sy \<and> going sy \<and> main_shared_ok (fst sy) \<and>
     (\<forall>t \<in> set (snd sy). main_thread_ok t) \<and>
     k \<le> length main_posts \<and> posts l = take k main_posts \<and> (\<forall>op. Deferred op \<notin> set l) \<and>
     work_total (fst sy) (snd sy) \<le> Suc k \<and>
     0 < length (snd sy) \<and> (th_pc (snd sy ! 0) \<noteq> Outside \<longrightarrow> k = length main_posts)"

lemma main_inv_guarded: "main_inv self start k l sy \<Longrightarrow> guarded sy"
  by (auto simp: main_inv_def guarded_def main_shared_ok_def length_main_posts)

text \<open>What every step of the program has in common.\<close>

lemma main_inv_step:
  assumes inv: "main_inv self start k l (sh, ts)" and reach: "reachable self start" and i: "i < length ts"
    and st: "quiet_step self sh (ts ! i) sh' t'"
    and hist: "history self start l' (sh', ts[i := t'])" and ps: "posts l' = take k' main_posts"
    and nd: "\<forall>op. Deferred op \<notin> set l'" and k: "k \<le> k'" "k' \<le> length main_posts"
    and ok: "main_thread_ok t'" "main_shared_ok sh'"
    and total: "work_total sh' [t'] \<le> work_total sh [ts ! i] + (k' - k)"
    and main: "i = 0 \<Longrightarrow> th_pc t' \<noteq> Outside \<Longrightarrow> k' = length main_posts"
  shows "main_inv self start k' l' (sh', ts[i := t'])"
proof -
  have "history self start l (sh, ts)" using inv by (simp add: main_inv_def)
  then have sys: "system_inv self (sh, ts)" using reach by (blast dest: history_reachable reachable_inv)
  have bound: "work_total sh' (ts[i := t']) \<le> Suc k'"
  proof -
    have "work_total sh ts \<le> Suc k" using inv by (simp add: main_inv_def)
    with total_update [OF i total] k(1) show ?thesis by linarith
  qed
  have "guarded (sh', ts[i := t'])"
    using bound ok(2) k(2) by (simp add: guarded_def main_shared_ok_def length_main_posts)
  with quiet_step_going [OF sys main_inv_guarded [OF inv] _ i st] inv
  have "going (sh', ts[i := t'])" by (simp add: main_inv_def)
  with inv bound assms show ?thesis
    by (auto simp: main_inv_def nth_list_update dest!: subsetD [OF set_update_subset_insert])
qed

lemma main_inv_run:
  assumes "main_run self r start k l sy" and "start = main_start raw n" and "zeroed raw" and "0 < n"
  shows "main_inv self start k l sy"
  using assms(1)
proof (induction rule: main_run.induct)
  case declared
  then show ?case using assms(2-4)
    by (auto simp: main_inv_def main_start_def Let_def history.start going_def main_shared_ok_def
        main_thread_ok_def new_thread_def work_started_def scheduler_ctor_def zeroed_def
        work_total_def th_queued_def)
next
  case (posts k l sh ts s' stk)
  have reach: "reachable self start" using assms(2,3) reachable_main by simp
  let ?t = "ts ! 0" and ?op = "main_posts ! k"
  have hist: "history self start l (sh, ts)" and going: "going (sh, ts)" and sh: "main_shared_ok sh"
    using posts.IH by (auto simp: main_inv_def)
  have ok: "th_ok self ?t" using history_reachable [OF hist reach] reachable_th_ok posts.hyps(3) by blast
  have call: "may_call ?t" using posts.hyps going by (simp add: may_call_def going_def)
  have work: "is_work ?op" using main_posts_function posts.hyps(2) by blast
  have nil: "th_stack ?t = []" using ok posts.hyps(4) by (simp add: th_ok_def)
  then have s': "stk = []" "s' = wake_one_thread_and_unlock (push_op ?op (work_started (sh_sched sh)))"
    using posts.hyps(5) by (auto simp: post_immediate_completion_def Let_def split: if_splits)
  have step: "local_step self sh ?t (sh\<lparr>sh_sched := s'\<rparr>) (?t\<lparr>th_stack := stk\<rparr>)"
    using call work posts.hyps(5) by (rule local_step.call_post)
  show ?case
  proof (rule main_inv_step [OF posts.IH reach posts.hyps(3)])
    show "quiet_step self sh ?t (sh\<lparr>sh_sched := s'\<rparr>) (?t\<lparr>th_stack := stk\<rparr>)"
      using step stopped_kept(5) [OF posts.hyps(5)] by (simp add: quiet_step_def)
    show "history self start (l @ [Posted ?op]) (sh\<lparr>sh_sched := s'\<rparr>, ts[0 := ?t\<lparr>th_stack := stk\<rparr>])"
      using history.post [OF hist posts.hyps(3) user_post.immediate [OF call work posts.hyps(5)]] by simp
    show "work_total (sh\<lparr>sh_sched := s'\<rparr>) [?t\<lparr>th_stack := stk\<rparr>] \<le> work_total sh [?t] + (Suc k - k)"
      using local_step_total [OF step ok] by (simp add: of_bool_def split: if_splits)
    show "main_shared_ok (sh\<lparr>sh_sched := s'\<rparr>)"
      using sh main_posts_function [OF posts.hyps(2)]
      by (auto simp: main_shared_ok_def s'(2) frame_simps push_op_def oq_push_def work_started_def)
    show "main_thread_ok (?t\<lparr>th_stack := stk\<rparr>)" using posts.hyps(4) s'(1) by (simp add: main_thread_ok_def)
  qed (use posts.IH posts.hyps in \<open>auto simp: main_inv_def take_Suc_conv_app_nth\<close>)
next
  case (init_task k l sh ts i n)
  have reach: "reachable self start" using assms(2,3) reachable_main by simp
  let ?t = "ts ! i" and ?sh = "sh\<lparr>sh_sched := init_task r (sh_sched sh)\<rparr>"
  have hist: "history self start l (sh, ts)" and going: "going (sh, ts)" and sh: "main_shared_ok sh"
    using init_task.IH by (auto simp: main_inv_def)
  have ok: "th_ok self ?t" using history_reachable [OF hist reach] reachable_th_ok init_task.hyps(2) by blast
  have call: "may_call ?t" using init_task.hyps going by (simp add: may_call_def going_def init_op_def)
  then have step: "local_step self sh ?t ?sh ?t" by (rule local_step.call_init_task)
  have "main_inv self start k l (?sh, ts[i := ?t])"
  proof (rule main_inv_step [OF init_task.IH reach init_task.hyps(2)])
    show "quiet_step self sh ?t ?sh ?t" using step by (simp add: quiet_step_def init_task_def frame_simps push_op_def)
    have "\<nexists>e. user_post self sh ?t e ?sh ?t"
      using ok by (intro not_user_post) (simp_all add: sh_held_def init_task_works)
    from history.work [OF hist init_task.hyps(2) step this]
    show "history self start l (?sh, ts[i := ?t])" by (simp add: begins_def)
    show "work_total ?sh [?t] \<le> work_total sh [?t] + (k - k)" by (simp add: work_total_def work_kept)
    show "main_shared_ok ?sh"
      using sh by (auto simp: main_shared_ok_def init_task_def frame_simps push_op_def oq_push_def)
    show "main_thread_ok ?t" using init_task.IH init_task.hyps(2) by (simp add: main_inv_def)
    show "i = 0 \<Longrightarrow> th_pc ?t \<noteq> Outside \<Longrightarrow> k = length main_posts"
      using init_task.IH by (simp add: main_inv_def)
  qed (use init_task.IH in \<open>auto simp: main_inv_def\<close>)
  then show ?case by simp
next
  case (advance k l sh ts i sh' t')
  have reach: "reachable self start" using assms(2,3) reachable_main by simp
  let ?t = "ts ! i"
  have hist: "history self start l (sh, ts)" and going: "going (sh, ts)" and sh: "main_shared_ok sh"
      and t: "main_thread_ok ?t"
    using advance.IH advance.hyps(2) by (auto simp: main_inv_def)
  have sys: "system_inv self (sh, ts)" using history_reachable [OF hist reach] by (rule reachable_inv)
  then have ok: "th_ok self ?t" using advance.hyps(2) by (simp add: system_inv_def)
  have owe: "\<not> th_must_stop ?t" and run: "\<not> sch_stopped (sh_sched sh)"
    using going advance.hyps(2) by (simp_all add: going_def)
  have ok': "th_ok self t'" using local_step_balance [OF advance.hyps(3) ok] by simp
  have moves: "may_call ?t \<longrightarrow> th_pc t' \<noteq> th_pc ?t" using advance.hyps(4) by (simp add: main_allows_def)
  note keeps = advance_main [OF advance.hyps(3,4) ok ok' t sh owe run
      guarded_counts [OF sys main_inv_guarded [OF advance.IH]]]
  show ?case
  proof (rule main_inv_step [OF advance.IH reach advance.hyps(2)])
    show "quiet_step self sh ?t sh' t'"
      using advance.hyps(3) who_stops [OF advance.hyps(3)] moves by (auto simp: quiet_step_def)
    show "history self start (l @ map Called (begins ?t t')) (sh', ts[i := t'])"
      using hist advance.hyps(2,3) moves user_post_stays by (blast intro: history.work)
    show "work_total sh' [t'] \<le> work_total sh [?t] + (k - k)"
      using local_step_total [OF advance.hyps(3) ok] moves by (auto simp: of_bool_def split: if_splits)
    show "i = 0 \<Longrightarrow> th_pc t' \<noteq> Outside \<Longrightarrow> k = length main_posts"
      using advance.IH advance.hyps(4) owe by (auto simp: main_inv_def main_allows_def)
  qed (use advance.IH keeps in \<open>auto simp: main_inv_def\<close>)
qed

lemma sum_nothing: "sum_list (replicate n {#}) = {#}"
  by (induction n) simp_all

lemma main_start_facts:
  "held (main_start raw n) = {#}" "in_order [] (main_start raw n)"
  "0 < n \<Longrightarrow> \<not> sch_one_thread (sh_sched (fst (main_start raw n)))"
  by (auto simp: main_start_def Let_def held_def sh_held_def work_started_def scheduler_ctor_def
      th_held_def new_thread_def in_order_def no_private_function_def sum_nothing)

lemma main_run_facts:
  assumes "zeroed raw" "0 < n" "main_run self r (main_start raw n) k l (sh, ts)"
  shows "posts l = take k main_posts" "posts l = calls l @ fns (sch_op_queue (sh_sched sh))"
    "mset (posts l) = mset (calls l) + held (sh, ts)" "\<not> sch_one_thread (sh_sched sh)"
    "reachable self (sh, ts)" "sh_pending sh = {#}" "th_pc (ts ! 0) \<noteq> Outside \<Longrightarrow> k = length main_posts"
proof -
  have inv: "main_inv self (main_start raw n) k l (sh, ts)"
    using main_inv_run [OF assms(3) HOL.refl assms(1,2)] .
  then have hist: "history self (main_start raw n) l (sh, ts)" by (simp add: main_inv_def)
  have reach: "reachable self (main_start raw n)" using assms(1) by (rule reachable_main)
  show ps: "posts l = take k main_posts" "sh_pending sh = {#}"
      "th_pc (ts ! 0) \<noteq> Outside \<Longrightarrow> k = length main_posts"
    using inv by (auto simp: main_inv_def main_shared_ok_def)
  show "reachable self (sh, ts)" using hist reach by (rule history_reachable)
  show "\<not> sch_one_thread (sh_sched sh)"
    using history_one_thread [OF hist] main_start_facts(3) [OF assms(2)] by simp
  show counts: "mset (posts l) = mset (calls l) + held (sh, ts)"
    using history_held [OF hist reach] by (simp add: main_start_facts ac_simps)
  have order: "fns (posts l) = fns (calls l) @ fns (sch_op_queue (sh_sched sh))"
    using history_in_order [OF hist reach main_start_facts(3) [OF assms(2)] _ main_start_facts(2)] inv
    by (simp add: main_inv_def in_order_def)
  have "set (posts l) \<subseteq> set main_posts" using ps(1) by (simp add: set_take_subset)
  then have fn: "\<forall>op \<in> set (posts l). is_function op"
    using main_posts_function by (metis in_set_conv_nth subsetD)
  have "set (calls l) \<subseteq> set (posts l)"
    using arg_cong [OF counts, of set_mset] by simp
  then have "fns (calls l) = calls l" "fns (posts l) = posts l"
    using fn by (auto intro: filter_True)
  with order show "posts l = calls l @ fns (sch_op_queue (sh_sched sh))" by simp
qed

text \<open>C17. The program of \<^verbatim>\<open>main.cc\<close>, on any number of processors and under every interleaving:
  \<open>init_task\<close> and the hundred \<open>print\<close>s are called in the order of the posts, each at most once; \<open>run\<close>
  neither throws nor returns in any thread and the scheduler is never stopped, so \<open>main\<close> does not end
  (its guard is destroyed after \<open>ioc.run()\<close>); and when the main thread has reached \<open>run\<close>, every
  thread rests and a blocked one would go back to sleep, every \<open>print\<close> has been called.\<close>

theorem main_prints_in_order:
  assumes "zeroed raw" and "0 < n" and "main_run self r (main_start raw n) k l (sh, ts)"
  shows "calls l = take (length (calls l)) main_posts \<and> \<not> sch_stopped (sh_sched sh) \<and>
    (\<forall>t \<in> set ts. \<forall>m e. th_pc t \<noteq> Returned m \<and> th_pc t \<noteq> Threw e) \<and>
    (\<forall>t \<in> set ts. th_pc (ts ! 0) \<noteq> Outside \<and> (\<forall>t \<in> set ts. at_rest (th_pc t)) \<and>
       waiting (th_pc t) = 1 \<and> snd (wait_return (sh_sched sh)) = Block \<longrightarrow> calls l = main_posts)"
proof -
  note facts = main_run_facts [OF assms]
  have inv: "main_inv self (main_start raw n) k l (sh, ts)"
    using main_inv_run [OF assms(3) HOL.refl assms(1,2)] .
  have no_end: "\<forall>t \<in> set ts. \<forall>m e. th_pc t \<noteq> Returned m \<and> th_pc t \<noteq> Threw e"
    using inv by (auto simp: main_inv_def main_thread_ok_def)
  have "main_posts = posts l @ drop k main_posts" using facts(1) by simp
  then have "main_posts = calls l @ fns (sch_op_queue (sh_sched sh)) @ drop k main_posts"
    using facts(2) by simp
  then have "calls l = take (length (calls l)) main_posts" by (metis append_eq_conv_conj)
  moreover have "calls l = main_posts" if "t \<in> set ts" "th_pc (ts ! 0) \<noteq> Outside"
      "\<forall>t \<in> set ts. at_rest (th_pc t)" "waiting (th_pc t) = 1" "snd (wait_return (sh_sched sh)) = Block" for t
    using rest_holds_pending(2) [OF facts(5,4) _ that(3,1,4,5)] no_end facts(1,2,7) that(2)
    by (simp add: nobody_threw_def)
  ultimately show ?thesis using no_end inv by (auto simp: main_inv_def going_def)
qed

subsection \<open>A full execution\<close>

text \<open>
  One full execution on a machine with one processor: the main thread makes all its posts, runs every
  function and enters the reactor; the other thread then finds nothing to do and blocks.
\<close>

lemma main_advance_0:
  assumes "main_run self r start k l (sh, [t, u])" "local_step self sh t sh' t'" "main_allows self k 0 sh t t'"
  shows "main_run self r start k (l @ map Called (begins t t')) (sh', [t', u])"
  using main_run.advance [OF assms(1), of 0] assms(2,3) by simp

lemma main_advance_1:
  assumes "main_run self r start k l (sh, [t, u])" "local_step self sh u sh' u'" "main_allows self k 1 sh u u'"
  shows "main_run self r start k (l @ map Called (begins u u')) (sh', [t, u'])"
  using main_run.advance [OF assms(1), of 1] assms(2,3) by simp

text \<open>What the scheduler is like between two functions: the guard of \<open>main\<close> is still counted.\<close>

definition main_sched :: "op_ref list \<Rightarrow> nat option \<Rightarrow> scheduler \<Rightarrow> bool" where
  "main_sched q task s \<longleftrightarrow>
     sch_op_queue s = q \<and> sch_task s = task \<and> \<not> sch_stopped s \<and> \<not> sch_shutdown s \<and>
     \<not> sch_one_thread s \<and> sch_outstanding_work s = of_nat (Suc (work_in q))"

lemma demo_posts:
  "k \<le> length main_posts \<Longrightarrow>
   \<exists>sh. main_run 0 r (main_start demo_raw 1) k (map Posted (take k main_posts)) (sh, [new_thread, new_thread]) \<and>
     main_sched (take k main_posts) None (sh_sched sh)"
proof (induction k)
  case 0
  obtain sh ts where start: "main_start demo_raw 1 = (sh, ts)" by force
  then have "ts = [new_thread, new_thread]" "main_sched [] None (sh_sched sh)"
    by (auto simp: main_start_def Let_def main_sched_def work_started_def scheduler_ctor_def demo_raw_def)
  with start main_run.declared [of 0 r "main_start demo_raw 1"] show ?case by auto
next
  case (Suc k)
  then obtain sh where sh: "main_run 0 r (main_start demo_raw 1) k (map Posted (take k main_posts)) (sh, [new_thread, new_thread])"
      "main_sched (take k main_posts) None (sh_sched sh)" by auto
  let ?op = "main_posts ! k"
  let ?s = "wake_one_thread_and_unlock (push_op ?op (work_started (sh_sched sh)))"
  have less: "k < length main_posts" using Suc.prems by simp
  have "post_immediate_completion 0 ?op False (sh_sched sh) [] = (?s, [])"
    by (simp add: post_immediate_completion_def Let_def)
  from main_run.posts [OF sh(1) less, of ?s "[]"] this
  have "main_run 0 r (main_start demo_raw 1) (Suc k) (map Posted (take (Suc k) main_posts))
      (sh\<lparr>sh_sched := ?s\<rparr>, [new_thread, new_thread])"
    using less by (simp add: new_thread_def take_Suc_conv_app_nth)
  moreover have "is_work ?op" using main_posts_function [OF less] by (rule function_is_work)
  then have "main_sched (take (Suc k) main_posts) None ?s"
    using sh(2) less
    by (simp add: main_sched_def frame_simps push_op_def oq_push_def work_started_def take_Suc_conv_app_nth)
  ultimately show ?case by (intro exI [of _ "sh\<lparr>sh_sched := ?s\<rparr>"]) simp
qed

text \<open>One function, up to the moment its thread begins to complete it, and from its end to the next turn.\<close>

lemma main_takes:
  assumes "main_run 0 r start (length main_posts) l (sh, [demo_at (At_Loop m), u])"
    and "main_sched (op # q) task (sh_sched sh)" and "is_function op"
  shows "\<exists>sh'. main_run 0 r start (length main_posts) (l @ [Called op]) (sh', [demo_at (In_Op m op), u]) \<and>
    sch_op_queue (sh_sched sh') = q \<and> sch_task (sh_sched sh') = task \<and> \<not> sch_stopped (sh_sched sh') \<and>
    \<not> sch_shutdown (sh_sched sh') \<and> \<not> sch_one_thread (sh_sched sh') \<and>
    sch_outstanding_work (sh_sched sh') = of_nat (Suc (Suc (work_in q)))"
proof -
  let ?s = "unlock_for_more (q \<noteq> []) (sh_sched sh\<lparr>sch_op_queue := q\<rparr>)"
  have work: "is_work op" using assms(3) by (rule function_is_work)
  then have "op \<noteq> Task_Operation" by auto
  with assms(2) have "loop_head (sh_sched sh) = (?s, Complete op)"
    by (intro loop_head_op) (auto simp: main_sched_def)
  then have "local_step 0 sh (demo_at (At_Loop m)) (sh\<lparr>sh_sched := ?s\<rparr>) (demo_at (In_Op m op))"
    using local_step.turn [of "demo_at (At_Loop m)" m sh ?s "Complete op" 0] by (simp add: demo_at_def)
  from main_advance_0 [OF assms(1) this] work
  have "main_run 0 r start (length main_posts) (l @ [Called op]) (sh\<lparr>sh_sched := ?s\<rparr>, [demo_at (In_Op m op), u])"
    by (simp add: main_allows_def demo_at_def may_call_def begins_def)
  with assms(2) work show ?thesis
    by (intro exI [of _ "sh\<lparr>sh_sched := ?s\<rparr>"]) (auto simp: main_sched_def frame_simps)
qed

lemma main_finishes:
  assumes "main_run 0 r start (length main_posts) l (sh, [demo_at (In_Op m op), u])" and "is_function op"
    and "op = init_op \<longrightarrow> task \<noteq> None"
    and "sch_op_queue (sh_sched sh) = q" "sch_task (sh_sched sh) = task" "\<not> sch_stopped (sh_sched sh)"
      "\<not> sch_shutdown (sh_sched sh)" "\<not> sch_one_thread (sh_sched sh)"
      "sch_outstanding_work (sh_sched sh) = of_nat (Suc (Suc (work_in q)))" "work_in q < 2 ^ 32"
  shows "\<exists>sh' m'. main_run 0 r start (length main_posts) l (sh', [demo_at (At_Loop m'), u]) \<and>
    main_sched q task (sh_sched sh')"
proof -
  let ?s = "sh_sched sh\<lparr>sch_outstanding_work := sch_outstanding_work (sh_sched sh) - 1\<rparr>"
  let ?run = "main_run 0 r start (length main_posts) l"
  have many: "sch_outstanding_work (sh_sched sh) \<noteq> 1"
  proof -
    have "unat (of_nat (Suc (Suc (work_in q))) :: size_t) = Suc (Suc (work_in q))"
      using assms(10) by (intro unat_of_nat_small) simp
    moreover have "unat (1 :: size_t) = 1" by simp
    ultimately show ?thesis using assms(9) by (metis Suc_inject Zero_not_Suc One_nat_def)
  qed
  have "local_step 0 sh (demo_at (In_Op m op)) sh (demo_at (After_Op m))"
    using local_step.handler_done [of "demo_at (In_Op m op)" m op 0 sh] function_is_work [OF assms(2)]
    by (simp add: demo_at_def)
  from main_advance_0 [OF assms(1) this] assms(3,5)
  have "?run (sh, [demo_at (After_Op m), u])"
    by (auto simp: main_allows_def demo_at_def may_call_def begins_def)
  moreover have "local_step 0 sh (demo_at (After_Op m)) sh (demo_at (Work_Dec m))"
    using local_step.work_flush [of "demo_at (After_Op m)" m sh 0 "sh_sched sh" fresh_info]
    by (simp add: demo_at_def th_info_def set_info_def flush_private_work_def)
  ultimately have "?run (sh, [demo_at (Work_Dec m), u])"
    using main_advance_0 by (fastforce simp: main_allows_def demo_at_def may_call_def begins_def)
  moreover have "local_step 0 sh (demo_at (Work_Dec m)) (sh\<lparr>sh_sched := ?s\<rparr>) (demo_at (Push_Private m))"
    using local_step.work_dec [of "demo_at (Work_Dec m)" m sh ?s False 0] many
    by (simp add: demo_at_def decrement_work_eq)
  ultimately have "?run (sh\<lparr>sh_sched := ?s\<rparr>, [demo_at (Push_Private m), u])"
    using main_advance_0 by (fastforce simp: main_allows_def demo_at_def may_call_def begins_def)
  moreover have "local_step 0 (sh\<lparr>sh_sched := ?s\<rparr>) (demo_at (Push_Private m)) (sh\<lparr>sh_sched := ?s\<rparr>)
      (demo_at (At_Loop (if m \<noteq> - 1 then m + 1 else m)))"
    using local_step.next_turn [of "demo_at (Push_Private m)" m 0 "sh\<lparr>sh_sched := ?s\<rparr>"]
    by (simp add: demo_at_def th_info_def oq_empty_def)
  ultimately have "?run (sh\<lparr>sh_sched := ?s\<rparr>, [demo_at (At_Loop (if m \<noteq> - 1 then m + 1 else m)), u])"
    using main_advance_0 by (fastforce simp: main_allows_def demo_at_def may_call_def begins_def)
  moreover have "main_sched q task ?s" using assms(4-9) by (simp add: main_sched_def)
  ultimately show ?thesis by (intro exI [of _ "sh\<lparr>sh_sched := ?s\<rparr>"] exI) auto
qed

text \<open>All the functions, and the reactor the first of them installs.\<close>

lemma main_installs:
  assumes "main_run 0 r start (length main_posts) l (sh, [demo_at (In_Op m init_op), u])"
    and "sch_op_queue (sh_sched sh) = q" "sch_task (sh_sched sh) = None" "\<not> sch_stopped (sh_sched sh)"
      "\<not> sch_shutdown (sh_sched sh)" "\<not> sch_one_thread (sh_sched sh)"
      "sch_outstanding_work (sh_sched sh) = of_nat (Suc (Suc (work_in q)))" "work_in q < 2 ^ 32"
  shows "\<exists>sh' m'. main_run 0 r start (length main_posts) l (sh', [demo_at (At_Loop m'), u]) \<and>
    main_sched (q @ [Task_Operation]) (Some r) (sh_sched sh')"
proof -
  let ?s = "init_task r (sh_sched sh)"
  have "main_run 0 r start (length main_posts) l (sh\<lparr>sh_sched := ?s\<rparr>, [demo_at (In_Op m init_op), u])"
    using main_run.init_task [OF assms(1), of 0 m] assms(3) by (simp add: demo_at_def)
  then show ?thesis
    using assms(2-8) main_finishes [of r start l "sh\<lparr>sh_sched := ?s\<rparr>" m init_op u "Some r" "q @ [Task_Operation]"]
    by (simp add: init_task_def frame_simps push_op_def oq_push_def init_op_def)
qed

lemma main_runs_all:
  "main_run 0 r start (length main_posts) l (sh, [demo_at (At_Loop m), u]) \<Longrightarrow>
   main_sched (ops @ [Task_Operation]) (Some r) (sh_sched sh) \<Longrightarrow> \<forall>op \<in> set ops. is_function op \<Longrightarrow>
   length ops < 2 ^ 32 \<Longrightarrow>
   \<exists>sh' m'. main_run 0 r start (length main_posts) (l @ map Called ops) (sh', [demo_at (At_Loop m'), u]) \<and>
     main_sched [Task_Operation] (Some r) (sh_sched sh')"
proof (induction ops arbitrary: l sh m)
  case Nil
  then show ?case by auto
next
  case (Cons op ops)
  then have fn: "is_function op" and "length ops < 2 ^ 32" by auto
  have "work_in ops \<le> length ops" by (simp add: work_in_def)
  with \<open>length ops < 2 ^ 32\<close> have small: "work_in (ops @ [Task_Operation]) < 2 ^ 32" by simp
  from Cons.prems(2) have "main_sched (op # ops @ [Task_Operation]) (Some r) (sh_sched sh)" by simp
  from main_takes [OF Cons.prems(1) this fn] obtain sh1 where sh1:
    "main_run 0 r start (length main_posts) (l @ [Called op]) (sh1, [demo_at (In_Op m op), u])"
    "sch_op_queue (sh_sched sh1) = ops @ [Task_Operation]" "sch_task (sh_sched sh1) = Some r"
    "\<not> sch_stopped (sh_sched sh1)" "\<not> sch_shutdown (sh_sched sh1)" "\<not> sch_one_thread (sh_sched sh1)"
    "sch_outstanding_work (sh_sched sh1) = of_nat (Suc (Suc (work_in (ops @ [Task_Operation]))))"
    by blast
  from main_finishes [OF sh1(1) fn _ sh1(2-7) small] obtain sh2 m2 where
    "main_run 0 r start (length main_posts) (l @ [Called op]) (sh2, [demo_at (At_Loop m2), u])"
    "main_sched (ops @ [Task_Operation]) (Some r) (sh_sched sh2)" by auto
  from Cons.IH [OF this] Cons.prems(3,4) show ?case by simp
qed

text \<open>The end: nothing but the guard is counted, one thread is in the reactor, the other asleep.\<close>

lemma main_rests:
  assumes "main_run 0 r (main_start demo_raw 1) (length main_posts) l (sh, [demo_at (At_Loop m), new_thread])"
    and "main_sched [Task_Operation] (Some r) (sh_sched sh)"
  shows "\<exists>s'. main_run 0 r (main_start demo_raw 1) (length main_posts) l
      (sh\<lparr>sh_sched := s'\<rparr>, [demo_at (In_Task m (- 1)), demo_at (Waiting 0)]) \<and>
    snd (wait_return s') = Block"
proof -
  let ?s = "sh_sched sh\<lparr>sch_op_queue := [], sch_task_interrupted := False\<rparr>"
  let ?run = "main_run 0 r (main_start demo_raw 1) (length main_posts) l"
  have "loop_head (sh_sched sh) = (?s, Run_Task (- 1))"
    using assms(2) loop_head_task [of "sh_sched sh" "[]"] by (simp add: main_sched_def unlock_for_more_def)
  then have "local_step 0 sh (demo_at (At_Loop m)) (sh\<lparr>sh_sched := ?s\<rparr>) (demo_at (In_Task m (- 1)))"
    using local_step.turn [of "demo_at (At_Loop m)" m sh ?s "Run_Task (- 1)" 0] by (simp add: demo_at_def)
  from main_advance_0 [OF assms(1) this]
  have "?run (sh\<lparr>sh_sched := ?s\<rparr>, [demo_at (In_Task m (- 1)), new_thread])"
    by (simp add: main_allows_def demo_at_def may_call_def begins_def)
  moreover have "local_step 0 (sh\<lparr>sh_sched := ?s\<rparr>) new_thread (sh\<lparr>sh_sched := ?s\<rparr>) (demo_at (At_Loop 0))"
    using local_step.run_enter [of new_thread "sh\<lparr>sh_sched := ?s\<rparr>" 0] assms(2)
    by (simp add: demo_at_def new_thread_def cs_enter_def main_sched_def)
  ultimately have in_loop: "?run (sh\<lparr>sh_sched := ?s\<rparr>, [demo_at (In_Task m (- 1)), demo_at (At_Loop 0)])"
    using main_advance_1 by (fastforce simp: main_allows_def demo_at_def new_thread_def may_call_def begins_def)
  define s' where "s' = ?s\<lparr>sch_wakeup_event := waiter_enter (clear_flag (sch_wakeup_event ?s))\<rparr>"
  then have "loop_head ?s = (s', Block)"
    using assms(2) loop_head_block [of ?s] by (simp add: main_sched_def)
  then have "local_step 0 (sh\<lparr>sh_sched := ?s\<rparr>) (demo_at (At_Loop 0)) (sh\<lparr>sh_sched := s'\<rparr>) (demo_at (Waiting 0))"
    using local_step.turn [of "demo_at (At_Loop 0)" 0 "sh\<lparr>sh_sched := ?s\<rparr>" s' Block 0] by (simp add: demo_at_def)
  from main_advance_1 [OF in_loop this]
  have "?run (sh\<lparr>sh_sched := s'\<rparr>, [demo_at (In_Task m (- 1)), demo_at (Waiting 0)])"
    by (simp add: main_allows_def demo_at_def may_call_def begins_def)
  moreover obtain f k where "ev_rel (sch_wakeup_event ?s) f k"
    using reachable_inv [OF main_run_facts(5) [OF demo_zeroed zero_less_one in_loop]] by (auto simp: system_inv_def)
  then have "\<not> flag_is_set (waiter_leave (sch_wakeup_event s'))"
    using ev.rel_leave [OF ev.block] ev.rel_is_set by (simp add: s'_def) blast
  then have "snd (wait_return s') = Block" by (simp add: wait_return_def Let_def)
  ultimately show ?thesis by blast
qed

lemma demo_main_run:
  "\<exists>m l sh. main_run 0 r (main_start demo_raw 1) (length main_posts) l
     (sh, [demo_at (In_Task m (- 1)), demo_at (Waiting 0)]) \<and> snd (wait_return (sh_sched sh)) = Block"
proof -
  let ?run = "main_run 0 r (main_start demo_raw 1) (length main_posts)"
  let ?prints = "map print_op [0..<100]"
  obtain sh0 where sh0: "?run (map Posted main_posts) (sh0, [new_thread, new_thread])"
      "main_sched main_posts None (sh_sched sh0)"
    using demo_posts [of "length main_posts" r] by auto
  have "sch_outstanding_work (sh_sched sh0) \<noteq> 0"
    using sh0(2) by (simp add: main_sched_def main_posts_def work_in_def filter_map comp_def print_op_def init_op_def)
  then have "local_step 0 sh0 new_thread sh0 (demo_at (At_Loop 0))"
    using local_step.run_enter [of new_thread sh0 0] by (simp add: demo_at_def new_thread_def cs_enter_def)
  from main_advance_0 [OF sh0(1) this]
  have loop: "?run (map Posted main_posts) (sh0, [demo_at (At_Loop 0), new_thread])"
    by (simp add: main_allows_def demo_at_def new_thread_def may_call_def begins_def)
  have "main_sched (init_op # ?prints) None (sh_sched sh0)" "is_function init_op"
    using sh0(2) by (simp_all add: main_posts_def init_op_def)
  from main_takes [OF loop this] obtain sh1 where sh1:
    "?run (map Posted main_posts @ [Called init_op]) (sh1, [demo_at (In_Op 0 init_op), new_thread])"
    "sch_op_queue (sh_sched sh1) = ?prints" "sch_task (sh_sched sh1) = None"
    "\<not> sch_stopped (sh_sched sh1)" "\<not> sch_shutdown (sh_sched sh1)" "\<not> sch_one_thread (sh_sched sh1)"
    "sch_outstanding_work (sh_sched sh1) = of_nat (Suc (Suc (work_in ?prints)))"
    by blast
  have "work_in ?prints < 2 ^ 32" by (simp add: work_in_def filter_map comp_def print_op_def)
  from main_installs [OF sh1 this] obtain sh2 m2 where
    "?run (map Posted main_posts @ [Called init_op]) (sh2, [demo_at (At_Loop m2), new_thread])"
    "main_sched (?prints @ [Task_Operation]) (Some r) (sh_sched sh2)" by blast
  from main_runs_all [OF this] obtain sh3 m3 where
    "?run ((map Posted main_posts @ [Called init_op]) @ map Called ?prints) (sh3, [demo_at (At_Loop m3), new_thread])"
    "main_sched [Task_Operation] (Some r) (sh_sched sh3)" by (auto simp: print_op_def)
  from main_rests [OF this] show ?thesis by fastforce
qed

theorem main_prints_in_order_witness:
  "\<exists>m l sh. main_run 0 9 (main_start demo_raw 1) (length main_posts) l
     (sh, [demo_at (In_Task m (- 1)), demo_at (Waiting 0)]) \<and> calls l = main_posts \<and>
     length (calls l) = 101"
proof -
  obtain m l sh where run: "main_run 0 9 (main_start demo_raw 1) (length main_posts) l
      (sh, [demo_at (In_Task m (- 1)), demo_at (Waiting 0)])" "snd (wait_return (sh_sched sh)) = Block"
    using demo_main_run by blast
  with main_prints_in_order [OF demo_zeroed zero_less_one run(1)] have "calls l = main_posts"
    by (auto simp: demo_at_def)
  with run(1) length_main_posts show ?thesis by metis
qed

end
