(* ===== verification/Progress.thy ===== *)
theory Progress
  imports Histories Run_Steps
begin

text \<open>
  An operation in the shared queue is never out of reach: executions in which one thread goes on by
  itself until it begins to complete the operation, whatever the other threads are in the middle of.
\<close>

subsection \<open>One thread going on\<close>

definition at_pc :: "nat \<Rightarrow> pc \<Rightarrow> thread" where
  "at_pc self p = \<lparr>th_pc = p, th_stack = [(self, fresh_info)], th_must_stop = False, th_leaked = []\<rparr>"

lemma at_pc_simps [simp]:
  "th_pc (at_pc self p) = p" "th_stack (at_pc self p) = [(self, fresh_info)]"
  "\<not> th_must_stop (at_pc self p)" "th_leaked (at_pc self p) = []"
  "th_info self (at_pc self p) = fresh_info" "set_info self fresh_info (at_pc self p) = at_pc self p"
  "(at_pc self p)\<lparr>th_pc := p'\<rparr> = at_pc self p'"
  "(at_pc self p)\<lparr>th_must_stop := False\<rparr> = at_pc self p"
  by (simp_all add: at_pc_def th_info_def set_info_def)

text \<open>Executions in which every step is a move of the thread at one place in the list.\<close>

inductive by_itself :: "nat \<Rightarrow> nat \<Rightarrow> system \<Rightarrow> log_entry list \<Rightarrow> system \<Rightarrow> bool"
  for self :: nat and i :: nat and sy :: system
where
  start: "by_itself self i sy [] sy"
| move: "by_itself self i sy l (sh, ts) \<Longrightarrow> i < length ts \<Longrightarrow> local_step self sh (ts ! i) sh' t' \<Longrightarrow>
    th_pc t' \<noteq> th_pc (ts ! i) \<Longrightarrow>
    by_itself self i sy (l @ map Called (begins (ts ! i) t')) (sh', ts[i := t'])"

lemma by_itself_at:
  assumes "by_itself self i sy l (sh, ts[i := t])" "i < length ts"
    and "local_step self sh t sh' t'" "th_pc t' \<noteq> th_pc t"
  shows "by_itself self i sy (l @ map Called (begins t t')) (sh', ts[i := t'])"
  using by_itself.move [OF assms(1), of sh' t'] assms(2-4) by simp

lemma by_itself_history: "by_itself self i sy l sy' \<Longrightarrow> history self sy l sy'"
proof (induction rule: by_itself.induct)
  case (move l sh ts sh' t')
  then have "\<nexists>e. user_post self sh (ts ! i) e sh' t'" using user_post_stays by fastforce
  with move show ?case by (blast intro: history.work)
qed (rule history.start)

text \<open>
  The three places where a thread takes its next turn of the loop, and the scheduler it finds there:
  at the loop, waking with the flag set, and at the end of the clean-up after the reactor.
\<close>

definition next_turn_at :: "shared \<Rightarrow> pc \<Rightarrow> size_t \<Rightarrow> scheduler \<Rightarrow> bool" where
  "next_turn_at sh p n s \<longleftrightarrow>
     (p = At_Loop n \<and> s = sh_sched sh) \<or>
     (p = Waiting n \<and> s = (sh_sched sh)\<lparr>sch_wakeup_event := waiter_leave (sch_wakeup_event (sh_sched sh))\<rparr> \<and>
        flag_is_set (sch_wakeup_event s)) \<or>
     (p = Task_Flushed n \<and> s = fst (task_cleanup_locked (sh_sched sh) fresh_info))"

lemma next_turn_step:
  assumes "next_turn_at sh p n s" "loop_head s = (s', nx)" "nx \<noteq> Return_Zero"
    and "p' = (case nx of Run_Task u \<Rightarrow> In_Task n u | Complete op \<Rightarrow> In_Op n op | _ \<Rightarrow> Waiting n)"
  shows "local_step self sh (at_pc self p) (sh\<lparr>sh_sched := s'\<rparr>) (at_pc self p')"
proof -
  have go: "goto_next n nx (at_pc self p) = at_pc self p'" using assms(3,4) by (cases nx) simp_all
  from assms(1) consider "p = At_Loop n" "s = sh_sched sh"
    | "p = Waiting n" "wait_return (sh_sched sh) = loop_head s"
    | "p = Task_Flushed n" "task_cleanup_locked (sh_sched sh) fresh_info = (s, fresh_info)"
    by (auto simp: next_turn_at_def wait_return_def Let_def task_cleanup_locked_def push_private_queue_eq)
  then show ?thesis
  proof cases
    case 1
    with assms(2) local_step.turn [of "at_pc self p" n sh s' nx self] go show ?thesis by simp
  next
    case 2
    with assms(2) local_step.wake [of "at_pc self p" n sh s' nx self] go show ?thesis by simp
  next
    case 3
    from local_step.task_relock [OF _ _ assms(2), of "at_pc self p" n sh self fresh_info] 3 go
    show ?thesis by simp
  qed
qed

lemma next_turn_moves: "next_turn_at sh p n s \<Longrightarrow> In_Task m u \<noteq> p \<and> In_Op m op \<noteq> p"
  by (auto simp: next_turn_at_def)

text \<open>What stays: the state is reachable, nobody has stopped it and the operation is in the queue.\<close>

definition in_reach :: "nat \<Rightarrow> system \<Rightarrow> bool" where
  "in_reach self sy \<longleftrightarrow> reachable self sy \<and> work_total (fst sy) (snd sy) < 2 ^ 64"

lemma in_reach_step:
  assumes "in_reach self (sh, ts[i := t])" "i < length ts" "local_step self sh t sh' t'"
    and "\<not> may_call t \<or> th_pc t' \<noteq> th_pc t"
  shows "in_reach self (sh', ts[i := t'])"
proof -
  have "reachable self (sh, ts[i := t])" using assms(1) by (simp add: in_reach_def)
  then have ok: "th_ok self t" using reachable_th_ok [of self sh "ts[i := t]" i] assms(2) by simp
  have "sys_step self (sh, ts[i := t]) (sh', ts[i := t, i := t'])"
    using assms(2,3) by (intro sys_step.step) auto
  with \<open>reachable self (sh, ts[i := t])\<close> have "reachable self (sh', ts[i := t, i := t'])"
    by (rule reachable.step)
  then have "reachable self (sh', ts[i := t'])" by simp
  moreover have "work_total sh' [t'] \<le> work_total sh [t]"
    using local_step_total [OF assms(3) ok] assms(4) by (auto simp: of_bool_def split: if_splits)
  then have "work_total sh' (ts[i := t']) \<le> work_total sh (ts[i := t])"
    using total_update [of i "ts[i := t]" sh' t' sh 0] assms(2) by simp
  ultimately show ?thesis using assms(1) by (simp add: in_reach_def)
qed

lemma in_reach_counts:
  assumes "in_reach self (sh, ts)" "op \<in> set (sch_op_queue (sh_sched sh))" "is_work op"
  shows "sch_outstanding_work (sh_sched sh) \<noteq> 0"
proof
  assume "sch_outstanding_work (sh_sched sh) = 0"
  with assms(1) have "work_total sh ts = 0"
    by (auto simp: in_reach_def intro: zero_count_no_work dest: reachable_inv)
  then have "filter is_work (sch_op_queue (sh_sched sh)) = []"
    by (simp add: work_total_def work_in_def)
  with assms(2,3) show False by (simp add: filter_empty_conv)
qed

text \<open>Two stretches of the loop: through a function, and through the reactor, which returns nothing.\<close>

type_synonym stage = "log_entry list \<times> shared \<times> pc"

definition stage_of :: "nat \<Rightarrow> system \<Rightarrow> thread list \<Rightarrow> nat \<Rightarrow> stage \<Rightarrow> bool" where
  "stage_of self sy ts i st \<longleftrightarrow>
     (case st of (l, sh, p) \<Rightarrow>
        by_itself self i sy l (sh, ts[i := at_pc self p]) \<and> in_reach self (sh, ts[i := at_pc self p]) \<and>
        \<not> sch_stopped (sh_sched sh))"

lemma stage_step:
  assumes "stage_of self sy ts i (l, sh, p)" "i < length ts"
    and "local_step self sh (at_pc self p) sh' (at_pc self p')" "p' \<noteq> p"
    and "\<not> sch_stopped (sh_sched sh')"
  shows "stage_of self sy ts i (l @ map Called (begins (at_pc self p) (at_pc self p')), sh', p')"
  using assms by_itself_at [OF _ assms(2,3)] in_reach_step [OF _ assms(2,3)] by (simp add: stage_of_def)

lemma through_function:
  assumes "stage_of self sy ts i (l, sh, In_Op n x)" "i < length ts" "is_work x"
    and "op \<in> set (sch_op_queue (sh_sched sh))" "is_work op"
  shows "\<exists>l' sh' n'. stage_of self sy ts i (l @ l', sh', At_Loop n') \<and>
    sch_op_queue (sh_sched sh') = sch_op_queue (sh_sched sh)"
proof -
  let ?s = "sh_sched sh\<lparr>sch_outstanding_work := sch_outstanding_work (sh_sched sh) - 1\<rparr>"
  let ?zero = "sch_outstanding_work (sh_sched sh) = 1"
  let ?sh = "sh\<lparr>sh_sched := ?s\<rparr>"
  have run: "\<not> sch_stopped (sh_sched sh)" using assms(1) by (simp add: stage_of_def)
  have "local_step self sh (at_pc self (In_Op n x)) sh (at_pc self (After_Op n))"
    using local_step.handler_done [of "at_pc self (In_Op n x)" n x self sh] assms(3) by simp
  from stage_step [OF assms(1,2) this _ run] have s1: "stage_of self sy ts i (l, sh, After_Op n)"
    by (simp add: begins_def)
  have "local_step self sh (at_pc self (After_Op n)) sh (at_pc self (Work_Dec n))"
    using local_step.work_flush [of "at_pc self (After_Op n)" n sh self "sh_sched sh" fresh_info]
    by (simp add: flush_private_work_def)
  from stage_step [OF s1 assms(2) this _ run] have s2: "stage_of self sy ts i (l, sh, Work_Dec n)"
    by (simp add: begins_def)
  have dec: "local_step self sh (at_pc self (Work_Dec n)) ?sh
      ((at_pc self (Work_Dec n))\<lparr>th_pc := Push_Private n, th_must_stop := ?zero\<rparr>)"
    using local_step.work_dec [of "at_pc self (Work_Dec n)" n sh ?s ?zero self] by (simp add: decrement_work_eq)
  have "\<not> ?zero"
  proof -
    have "in_reach self (sh, ts[i := at_pc self (Work_Dec n)])" using s2 by (simp add: stage_of_def)
    from in_reach_step [OF this assms(2) dec] have "in_reach self (?sh, ts[i := (at_pc self (Work_Dec n))
        \<lparr>th_pc := Push_Private n, th_must_stop := ?zero\<rparr>])" by simp
    from in_reach_counts [OF this _ assms(5)] assms(4) show ?thesis by simp
  qed
  with dec have "local_step self sh (at_pc self (Work_Dec n)) ?sh (at_pc self (Push_Private n))" by simp
  from stage_step [OF s2 assms(2) this] run have s3: "stage_of self sy ts i (l, ?sh, Push_Private n)"
    by (simp add: begins_def)
  have "local_step self ?sh (at_pc self (Push_Private n)) ?sh (at_pc self (At_Loop (if n \<noteq> - 1 then n + 1 else n)))"
    using local_step.next_turn [of "at_pc self (Push_Private n)" n self ?sh] by (simp add: oq_empty_def)
  from stage_step [OF s3 assms(2) this] run
  have "stage_of self sy ts i (l, ?sh, At_Loop (if n \<noteq> - 1 then n + 1 else n))" by (simp add: begins_def)
  then show ?thesis by (intro exI [of _ "[]"] exI [of _ ?sh]) auto
qed

lemma through_reactor:
  assumes "stage_of self sy ts i (l, sh, In_Task n u)" "i < length ts"
  shows "stage_of self sy ts i (l, sh, Task_Flushed n)"
proof -
  have run: "\<not> sch_stopped (sh_sched sh)" using assms(1) by (simp add: stage_of_def)
  have "local_step self sh (at_pc self (In_Task n u)) sh (at_pc self (Task_Done n))"
    using local_step.task_run [of "at_pc self (In_Task n u)" n u fresh_info self "[]" sh] by simp
  from stage_step [OF assms this _ run] have s1: "stage_of self sy ts i (l, sh, Task_Done n)"
    by (simp add: begins_def)
  have "local_step self sh (at_pc self (Task_Done n)) sh (at_pc self (Task_Flushed n))"
    using local_step.task_flush [of "at_pc self (Task_Done n)" n sh self "sh_sched sh" fresh_info]
    by (simp add: flush_private_work_def)
  from stage_step [OF s1 assms(2) this _ run] show ?thesis by (simp add: begins_def)
qed

subsection \<open>Reaching an operation\<close>

lemma next_turn_queue:
  "next_turn_at sh p n s \<Longrightarrow> sch_stopped s = sch_stopped (sh_sched sh) \<and>
   sch_op_queue s = sch_op_queue (sh_sched sh) @ (if p = Task_Flushed n then [Task_Operation] else [])"
  by (auto simp: next_turn_at_def task_cleanup_locked_def push_private_queue_eq push_op_def oq_push_def)

lemma reaches:
  assumes "next_turn_at sh p n s" "stage_of self sy ts i (l, sh, p)" "i < length ts"
    and "sch_op_queue s = pre @ op # post" "is_work op" "\<forall>x \<in> set pre. x = Task_Operation \<or> is_work x"
  shows "\<exists>l' sy'. by_itself self i sy (l @ l') sy' \<and> Called op \<in> set l'"
  using assms(1,2,4,6)
proof (induction pre arbitrary: sh p n s l post)
  case Nil
  then have run: "\<not> sch_stopped s" using next_turn_queue by (simp add: stage_of_def)
  have "op \<noteq> Task_Operation" using assms(5) by auto
  let ?s = "unlock_for_more (post \<noteq> []) (s\<lparr>sch_op_queue := post\<rparr>)"
  have "loop_head s = (?s, Complete op)" using run Nil.prems(3) \<open>op \<noteq> _\<close> by (simp add: loop_head_op)
  from next_turn_step [OF Nil.prems(1) this]
  have "local_step self sh (at_pc self p) (sh\<lparr>sh_sched := ?s\<rparr>) (at_pc self (In_Op n op))" by simp
  moreover have "p \<noteq> In_Op n op" using Nil.prems(1) by (auto simp: next_turn_at_def)
  ultimately have "by_itself self i sy (l @ [Called op]) (sh\<lparr>sh_sched := ?s\<rparr>, ts[i := at_pc self (In_Op n op)])"
    using by_itself_at [OF _ assms(3)] Nil.prems(2) assms(5) by (fastforce simp: stage_of_def begins_def)
  then show ?case by (intro exI [of _ "[Called op]"]) auto
next
  case (Cons x pre)
  then have run: "\<not> sch_stopped s" using next_turn_queue by (simp add: stage_of_def)
  let ?q = "pre @ op # post"
  have others: "\<forall>x \<in> set pre. x = Task_Operation \<or> is_work x" using Cons.prems(4) by simp
  show ?case
  proof (cases "x = Task_Operation")
    case True
    let ?s = "unlock_for_more (?q \<noteq> []) (s\<lparr>sch_op_queue := ?q, sch_task_interrupted := (?q \<noteq> [])\<rparr>)"
    let ?sh = "sh\<lparr>sh_sched := ?s\<rparr>"
    have "loop_head s = (?s, Run_Task 0)" using run Cons.prems(3) True loop_head_task [of s ?q] by simp
    from next_turn_step [OF Cons.prems(1) this]
    have "local_step self sh (at_pc self p) ?sh (at_pc self (In_Task n 0))" by simp
    from stage_step [OF Cons.prems(2) assms(3) this] next_turn_moves [OF Cons.prems(1), of n 0 x] run
    have "stage_of self sy ts i (l, ?sh, In_Task n 0)" by (simp add: begins_elsewhere frame_simps)
    then have flushed: "stage_of self sy ts i (l, ?sh, Task_Flushed n)" using assms(3) by (rule through_reactor)
    let ?s1 = "fst (task_cleanup_locked (sh_sched ?sh) fresh_info)"
    have "next_turn_at ?sh (Task_Flushed n) n ?s1" by (simp add: next_turn_at_def)
    moreover have "sch_op_queue ?s1 = pre @ op # (post @ [Task_Operation])"
      using next_turn_queue [OF \<open>next_turn_at ?sh (Task_Flushed n) n ?s1\<close>] by (simp add: frame_simps)
    ultimately show ?thesis using Cons.IH flushed others by blast
  next
    case False
    then have work: "is_work x" using Cons.prems(4) by simp
    let ?s = "unlock_for_more (?q \<noteq> []) (s\<lparr>sch_op_queue := ?q\<rparr>)"
    let ?sh = "sh\<lparr>sh_sched := ?s\<rparr>"
    have "loop_head s = (?s, Complete x)" using run Cons.prems(3) False by (simp add: loop_head_op)
    from next_turn_step [OF Cons.prems(1) this]
    have "local_step self sh (at_pc self p) ?sh (at_pc self (In_Op n x))" by simp
    from stage_step [OF Cons.prems(2) assms(3) this] next_turn_moves [OF Cons.prems(1), of n 0 x] run
    obtain l1 where "stage_of self sy ts i (l @ l1, ?sh, In_Op n x)" by (fastforce simp: frame_simps)
    from through_function [OF this assms(3) work _ assms(5)] obtain l2 sh2 n2 where
      stage: "stage_of self sy ts i ((l @ l1) @ l2, sh2, At_Loop n2)" "sch_op_queue (sh_sched sh2) = ?q"
      by (auto simp: frame_simps)
    have "next_turn_at sh2 (At_Loop n2) n2 (sh_sched sh2)" by (simp add: next_turn_at_def)
    from Cons.IH [OF this stage others] obtain l3 sy' where
      "by_itself self i sy (((l @ l1) @ l2) @ l3) sy'" "Called op \<in> set l3" by blast
    then show ?thesis by (intro exI [of _ "l1 @ l2 @ l3"] exI [of _ sy']) auto
  qed
qed

text \<open>
  A thread that can go on by itself: outside, at the loop, asleep, in the reactor, or in a function
  that has posted no continuation.
\<close>

fun can_go_on :: "pc \<Rightarrow> bool" where
  "can_go_on (At_Loop n) = True"
| "can_go_on (Waiting n) = True"
| "can_go_on (In_Task n u) = True"
| "can_go_on (In_Op n op) = is_work op"
| "can_go_on p = is_outside p"

lemma thread_at_pc:
  assumes "th_ok self t" "in_run (th_pc t)" "th_info self t = fresh_info" "\<not> th_must_stop t" "th_leaked t = []"
  shows "t = at_pc self (th_pc t)"
  using assms by (auto elim!: th_ok_frame simp: at_pc_def)

lemma stage_reaches:
  assumes "next_turn_at sh p n s" "stage_of self sy ts i (l, sh, p)" "i < length ts"
    and "op \<in> set (sch_op_queue (sh_sched sh))" "is_work op"
    and "\<forall>x \<in> set (sch_op_queue (sh_sched sh)). x = Task_Operation \<or> is_work x"
  shows "\<exists>l' sy'. by_itself self i sy (l @ l') sy' \<and> Called op \<in> set l'"
proof -
  obtain pre post where split: "sch_op_queue (sh_sched sh) = pre @ op # post"
    using assms(4) by (auto simp: in_set_conv_decomp)
  with next_turn_queue [OF assms(1)]
  have "sch_op_queue s = pre @ op # post @ (if p = Task_Flushed n then [Task_Operation] else [])" by simp
  moreover have "\<forall>x \<in> set pre. x = Task_Operation \<or> is_work x" using split assms(6) by simp
  ultimately show ?thesis using reaches [OF assms(1-3) _ assms(5)] by blast
qed

lemma sleeper_signalled:
  assumes "reachable self (sh, ts)" "i < length ts" "\<not> sch_one_thread (sh_sched sh)" "nobody_threw ts"
    and "th_pc (ts ! i) = Waiting n" "sch_op_queue (sh_sched sh) \<noteq> []"
  shows "flag_is_set (waiter_leave (sch_wakeup_event (sh_sched sh)))"
proof -
  obtain f where rel: "ev_rel (sch_wakeup_event (sh_sched sh)) f (sum_list (map (waiting \<circ> th_pc) ts))"
    using reachable_inv [OF assms(1)] by (auto simp: system_inv_def)
  have "1 \<le> sum_list (map (waiting \<circ> th_pc) ts)"
    using sum_list_member_le [OF assms(2), of "waiting \<circ> th_pc"] assms(5) by simp
  then obtain k where "sum_list (map (waiting \<circ> th_pc) ts) = Suc k"
    by (cases "sum_list (map (waiting \<circ> th_pc) ts)") auto
  with rel have "ev_rel (sch_wakeup_event (sh_sched sh)) f (Suc k)" by simp
  moreover have "flag_is_set (sch_wakeup_event (sh_sched sh))"
    using reachable_awake [OF assms(1)] assms(3,4,6) by (auto simp: awake_def)
  ultimately show ?thesis using ev.rel_is_set ev.rel_leave by fastforce
qed

lemma outside_enters:
  assumes "in_reach self (sh, ts)" "i < length ts" "is_outside (th_pc (ts ! i))" "\<not> th_must_stop (ts ! i)"
    and "th_ok self (ts ! i)" "th_leaked (ts ! i) = []" "\<not> sch_stopped (sh_sched sh)"
    and "op \<in> set (sch_op_queue (sh_sched sh))" "is_work op"
  shows "stage_of self (sh, ts) ts i ([], sh, At_Loop 0)"
proof -
  let ?t = "ts ! i"
  have "sch_outstanding_work (sh_sched sh) \<noteq> 0" using in_reach_counts [OF assms(1,8,9)] .
  moreover have "th_stack ?t = []" using assms(3,5) outside_ok by (auto simp: th_ok_def)
  then have "?t\<lparr>th_pc := At_Loop 0, th_stack := cs_enter self fresh_info (th_stack ?t)\<rparr> = at_pc self (At_Loop 0)"
    using assms(4,6) by (simp add: at_pc_def cs_enter_def)
  ultimately have enter: "local_step self sh ?t sh (at_pc self (At_Loop 0))"
    using local_step.run_enter [of ?t sh self] assms(3,4) by metis
  have new: "th_pc (at_pc self (At_Loop 0)) \<noteq> th_pc ?t" using assms(3) by (cases "th_pc ?t") auto
  have "by_itself self i (sh, ts) [] (sh, ts[i := at_pc self (At_Loop 0)])"
    using by_itself_at [of self i "(sh, ts)" "[]" sh ts ?t, OF _ assms(2) enter] new
    by (simp add: by_itself.start begins_elsewhere)
  moreover have "in_reach self (sh, ts[i := at_pc self (At_Loop 0)])"
    using in_reach_step [of self sh ts i ?t, OF _ assms(2) enter] assms(1) new by simp
  ultimately show ?thesis using assms(7) by (simp add: stage_of_def)
qed

lemma goes_on:
  assumes "reachable self (sh, ts)" "work_total sh ts < 2 ^ 64" "i < length ts"
    and "\<not> sch_one_thread (sh_sched sh)" "nobody_threw ts" "\<not> sch_stopped (sh_sched sh)"
    and "can_go_on (th_pc (ts ! i))" "\<not> th_must_stop (ts ! i)"
    and "in_run (th_pc (ts ! i)) \<longrightarrow> th_info self (ts ! i) = fresh_info"
    and "op \<in> set (sch_op_queue (sh_sched sh))" "is_work op"
    and "\<forall>x \<in> set (sch_op_queue (sh_sched sh)). x = Task_Operation \<or> is_work x"
  shows "\<exists>l sy. by_itself self i (sh, ts) l sy \<and> Called op \<in> set l"
proof -
  let ?t = "ts ! i"
  have ok: "th_ok self ?t" using assms(1,3) by (rule reachable_th_ok)
  have lost: "th_leaked ?t = []" using reachable_nothing_leaked [OF assms(1)] assms(3,4) by simp
  have reach: "in_reach self (sh, ts)" using assms(1,2) by (simp add: in_reach_def)
  note finish = stage_reaches [OF _ _ assms(3) _ assms(11)]
  have here: "stage_of self (sh, ts) ts i ([], sh, th_pc ?t)" if "in_run (th_pc ?t)"
    using thread_at_pc [OF ok that _ assms(8) lost] that assms(3,6,9) reach
    by (simp add: stage_of_def by_itself.start)
  have outside: ?thesis if "is_outside (th_pc ?t)"
    using finish [OF _ outside_enters [OF reach assms(3) that assms(8) ok lost assms(6,10,11)], of 0 "sh_sched sh"]
      assms(10,12) by (auto simp: next_turn_at_def)
  show ?thesis
  proof (cases "th_pc ?t")
    case (At_Loop n)
    with here have "stage_of self (sh, ts) ts i ([], sh, At_Loop n)" by simp
    from finish [OF _ this, of n "sh_sched sh"] assms(10,12) show ?thesis by (auto simp: next_turn_at_def)
  next
    case (Waiting n)
    let ?s = "(sh_sched sh)\<lparr>sch_wakeup_event := waiter_leave (sch_wakeup_event (sh_sched sh))\<rparr>"
    have "flag_is_set (sch_wakeup_event ?s)"
      using sleeper_signalled [OF assms(1,3-5) Waiting length_pos_if_in_set [OF assms(10), THEN length_greater_0_conv [THEN iffD1]]]
      by simp
    then have turn: "next_turn_at sh (Waiting n) n ?s" by (simp add: next_turn_at_def)
    have "stage_of self (sh, ts) ts i ([], sh, Waiting n)" using here Waiting by simp
    from finish [OF turn this assms(10,12)] show ?thesis by auto
  next
    case (In_Task n u)
    with here have "stage_of self (sh, ts) ts i ([], sh, In_Task n u)" by simp
    then have "stage_of self (sh, ts) ts i ([], sh, Task_Flushed n)" using assms(3) by (rule through_reactor)
    from finish [OF _ this, of n] assms(10,12) show ?thesis by (auto simp: next_turn_at_def)
  next
    case (In_Op n x)
    with here have "stage_of self (sh, ts) ts i ([], sh, In_Op n x)" by simp
    from through_function [OF this assms(3) _ assms(10,11)] In_Op assms(7) obtain l1 sh1 n1 where
      st: "stage_of self (sh, ts) ts i ([] @ l1, sh1, At_Loop n1)"
        "sch_op_queue (sh_sched sh1) = sch_op_queue (sh_sched sh)" by auto
    from finish [OF _ st(1), of n1 "sh_sched sh1"] st(2) assms(10,12)
    have "\<exists>l' sy'. by_itself self i (sh, ts) ([] @ l1 @ l') sy' \<and> Called op \<in> set l'"
      by (auto simp: next_turn_at_def)
    then show ?thesis by (metis Un_iff append_Nil set_append)
  qed (use assms(7) outside in simp_all)
qed

text \<open>C10. In a scheduler for several threads that is not stopped and whose \<open>run\<close> has not thrown, every
  thread can call every operation in the shared queue by its own moves alone, whether it is yet to
  call \<open>run\<close>, at the loop, asleep, in the reactor or in a function that posted no continuation: from
  every state any interleaving can reach, there is an execution in which no other thread moves and
  nothing is handed over, and in which this thread calls the operation. In particular a sleeper that
  wakes finds the signal of the push still there, and the count of work cannot stop the scheduler
  first. (No descriptor is queued; fewer than \<open>2 ^ 64\<close> operations; the reactor may return.)\<close>

theorem queued_operation_can_be_called:
  assumes "reachable self (sh, ts)" and "work_total sh ts < 2 ^ 64" and "i < length ts"
    and "\<not> sch_one_thread (sh_sched sh)" and "nobody_threw ts" and "\<not> sch_stopped (sh_sched sh)"
    and "can_go_on (th_pc (ts ! i))" and "\<not> th_must_stop (ts ! i)"
    and "in_run (th_pc (ts ! i)) \<longrightarrow> th_info self (ts ! i) = fresh_info"
    and "op \<in> set (sch_op_queue (sh_sched sh))" and "is_work op"
    and "\<forall>x \<in> set (sch_op_queue (sh_sched sh)). x = Task_Operation \<or> is_work x"
  shows "\<exists>l sy. by_itself self i (sh, ts) l sy \<and> Called op \<in> set l"
  using assms by (rule goes_on)

theorem queued_operation_can_be_called_witness:
  "\<exists>l sy. by_itself 0 0 (demo_shared, [demo_thread]) l sy \<and> Called (Executor_Op 7) \<in> set l"
proof (rule queued_operation_can_be_called [where i = 0])
  show "\<not> sch_stopped (sh_sched demo_shared)"
    by (simp add: demo_shared_def demo_loop_head frame_simps demo_sched_eq)
qed (use demo_reachable in \<open>simp_all add: demo_shared_eq demo_thread_def nobody_threw_def work_total_def
    th_queued_def th_info_def demo_shared_def demo_loop_head frame_simps demo_sched_eq\<close>)

end
