(* ===== verification/Bounded_Wait.thy ===== *)
theory Bounded_Wait
  imports Histories
begin

text \<open>
  How long an operation in the shared queue can be passed over: a potential that every move of any
  thread uses up, until one of them begins to complete the operation.
\<close>

subsection \<open>Moves\<close>

text \<open>
  Executions with a count of the moves, the steps in which a thread gets on (its program counter
  changes); calls to the scheduler and spurious wake-ups are not counted. Nobody stops the scheduler
  and no thread's \<open>run\<close> throws.
\<close>

fun threw :: "pc \<Rightarrow> bool" where
  "threw (Threw e) = True"
| "threw p = False"

definition moved :: "thread \<Rightarrow> thread \<Rightarrow> nat" where
  "moved t t' = of_bool (th_pc t' \<noteq> th_pc t)"

inductive busy_run :: "nat \<Rightarrow> system \<Rightarrow> nat \<Rightarrow> log_entry list \<Rightarrow> system \<Rightarrow> bool"
  for self :: nat and sy :: system
where
  start: "\<not> sch_stopped (sh_sched (fst sy)) \<Longrightarrow> busy_run self sy 0 [] sy"
| spawn: "busy_run self sy m l (sh, ts) \<Longrightarrow> busy_run self sy m l (sh, ts @ [new_thread])"
| step:
    "busy_run self sy m l (sh, ts) \<Longrightarrow> i < length ts \<Longrightarrow> local_step self sh (ts ! i) sh' t' \<Longrightarrow>
     \<not> sch_stopped (sh_sched sh') \<Longrightarrow> \<not> threw (th_pc t') \<Longrightarrow>
     busy_run self sy (m + moved (ts ! i) t') (l @ map Called (begins (ts ! i) t')) (sh', ts[i := t'])"

subsection \<open>The potential\<close>

text \<open>How many moves a thread can make before it takes the next operation from the queue.\<close>

fun pc_rank :: "pc \<Rightarrow> nat" where
  "pc_rank (In_Task n u) = 2"
| "pc_rank (Task_Done n) = 1"
| "pc_rank (In_Op n op) = (if is_work op then 4 else 5)"
| "pc_rank (After_Op n) = 3"
| "pc_rank (Work_Dec n) = 2"
| "pc_rank (Push_Private n) = 1"
| "pc_rank p = 0"

definition th_rank :: "thread \<Rightarrow> nat" where
  "th_rank t = (if is_outside (th_pc t) then of_bool (\<not> th_must_stop t) else pc_rank (th_pc t))"

lemma th_rank_le: "th_rank t \<le> 5"
  by (cases "th_pc t") (auto simp: th_rank_def)

lemma th_rank_inside: "\<not> is_outside (th_pc t) \<Longrightarrow> th_rank t = pc_rank (th_pc t)"
  by (simp add: th_rank_def)

text \<open>An operation with \<open>length pre\<close> others before it.\<close>

definition potential :: "op_ref list \<Rightarrow> thread list \<Rightarrow> nat" where
  "potential pre ts = 6 * length pre + sum_list (map th_rank ts)"

text \<open>Whoever hands operations over appends them.\<close>

lemma handed_over_behind:
  "\<exists>q. sch_op_queue (do_dispatch op s) = sch_op_queue s @ q"
  "\<exists>q. sch_op_queue (init_task r s) = sch_op_queue s @ q"
  "post_immediate_completion self op c s stk = (s', stk') \<Longrightarrow> \<exists>q. sch_op_queue s' = sch_op_queue s @ q"
  "post_deferred_completions self ops s stk = (s', stk2, lost) \<Longrightarrow> \<exists>q. sch_op_queue s' = sch_op_queue s @ q"
  by (auto simp: do_dispatch_def init_task_def post_immediate_completion_def post_deferred_completions_def
      frame_simps push_op_def oq_push_def oq_splice_def work_started_def Let_def split: if_splits option.splits)

text \<open>What one step comes to: it calls the operation, or pays for its move.\<close>

definition advances :: "op_ref \<Rightarrow> op_ref list \<Rightarrow> thread \<Rightarrow> shared \<Rightarrow> thread \<Rightarrow> bool" where
  "advances op pre t sh' t' \<longleftrightarrow>
     op \<in> set (begins t t') \<or>
     (\<exists>pre' post'. sch_op_queue (sh_sched sh') = pre' @ op # post' \<and>
        6 * length pre' + th_rank t' + moved t t' \<le> 6 * length pre + th_rank t)"

lemma advances_behind:
  assumes "sch_op_queue (sh_sched sh') = (pre @ op # post) @ q" "th_rank t' + moved t t' \<le> th_rank t"
  shows "advances op pre t sh' t'"
  using assms unfolding advances_def by (intro disjI2 exI [of _ pre] exI [of _ "post @ q"]) simp

text \<open>A turn of the loop takes the first operation.\<close>

lemma advances_turn:
  assumes "loop_head s = (s', nx)" "\<not> sch_stopped s" "sch_op_queue s = pre @ op # post" "is_work op"
    and "\<nexists>n op. th_pc t = In_Op n op" "th_rank t = 0" "sh_sched sh' = s'" "th_pc t' = th_pc (goto_next n nx t2)"
  shows "advances op pre t sh' t'"
proof (cases pre)
  case Nil
  moreover have "op \<noteq> Task_Operation" using assms(4) by auto
  ultimately have "nx = Complete op" using assms(1-3) loop_head_op [of s op post] by simp
  with assms(8) have "th_pc t' = In_Op n op" by simp
  moreover from this assms(5) have "th_pc t' \<noteq> th_pc t" by metis
  ultimately have "op \<in> set (begins t t')" using assms(4) by (simp add: begins_def)
  then show ?thesis by (simp add: advances_def)
next
  case (Cons x xs)
  then have queue: "sch_op_queue s' = xs @ op # post"
    using assms(1-3) by (cases s rule: loop_head_cases) (auto simp: loop_head_simps frame_simps)
  have "th_rank t' + moved t t' \<le> 6" using th_rank_le [of t'] by (simp add: moved_def)
  with Cons queue assms(7) show ?thesis by (auto simp: advances_def)
qed

lemma local_step_advances:
  assumes "local_step self sh t sh' t'" "\<not> sch_stopped (sh_sched sh)" "\<not> sch_stopped (sh_sched sh')"
    and "\<not> threw (th_pc t')" "sch_op_queue (sh_sched sh) = pre @ op # post" "is_work op"
  shows "advances op pre t sh' t'"
  using assms(1)
proof (cases rule: local_step.cases)
  case (turn n s' nx)
  with assms show ?thesis by (intro advances_turn [where s = "sh_sched sh"]) (auto simp: th_rank_def)
next
  case (wake n s' nx)
  show ?thesis
  proof (cases "sh_sched sh" rule: wait_return_cases)
    case turn
    with wake assms show ?thesis
      by (intro advances_turn [where s = "(sh_sched sh)\<lparr>sch_wakeup_event := waiter_leave (sch_wakeup_event (sh_sched sh))\<rparr>"])
        (auto simp: th_rank_def)
  next
    case block
    with wake assms show ?thesis by (intro advances_behind [where q = "[]"]) (auto simp: th_rank_def moved_def)
  qed
next
  case (task_relock n s1 ti s' nx)
  then have "sch_op_queue s1 = pre @ op # (post @ private_op_queue (th_info self t) @ [Task_Operation])"
      "\<not> sch_stopped s1"
    using assms(2,5) by (auto simp: task_cleanup_locked_def push_private_queue_eq push_op_def oq_push_def)
  with task_relock assms show ?thesis
    by (intro advances_turn [where s = s1]) (auto simp: th_rank_def)
next
  case (call_post op' c s' stk)
  with handed_over_behind(3) [OF call_post(5)] assms(5) show ?thesis
    by (auto intro!: advances_behind simp: moved_def th_rank_def)
next
  case (call_dispatch op')
  with handed_over_behind(1) [of op' "sh_sched sh"] assms(5) show ?thesis
    by (auto intro!: advances_behind simp: moved_def th_rank_def)
next
  case (call_init_task r)
  with handed_over_behind(2) [of r "sh_sched sh"] assms(5) show ?thesis
    by (auto intro!: advances_behind simp: moved_def th_rank_def)
next
  case (call_cancel_ops "is" s' stk lost)
  with handed_over_behind(4) [OF call_cancel_ops(5)] assms(5) show ?thesis
    by (auto intro!: advances_behind simp: moved_def th_rank_def)
next
  case (perform_io n d i "is" s' stk lost)
  then have "\<exists>q. sch_op_queue s' = sch_op_queue (sh_sched sh) @ q"
    using handed_over_behind(4) [of self "map Reactor_Op is" "sh_sched sh" "th_stack t" s' stk lost]
    by (auto split: if_splits)
  with perform_io assms(5) show ?thesis
    by (auto intro!: advances_behind simp: moved_def th_rank_def)
next
  case (must_stop)
  with assms(3) show ?thesis by (simp add: frame_simps)
next
  case (call_stop)
  with assms(3) show ?thesis by (simp add: frame_simps)
qed (use assms(4,5) in \<open>auto intro!: advances_behind [where q = "[]"]
    simp: moved_def th_rank_def set_info_def may_call_def work_started_def sch_restart_def dest: queue_kept\<close>)

subsection \<open>The bound\<close>

lemma potential_update:
  assumes "i < length ts"
  shows "sum_list (map th_rank (ts[i := t'])) + th_rank (ts ! i) = sum_list (map th_rank ts) + th_rank t'"
proof -
  have "th_rank (ts ! i) \<le> sum_list (map th_rank ts)" using sum_list_member_le [OF assms] .
  then show ?thesis by (simp add: sum_list_map_update_nat [OF assms])
qed

lemma busy_run_runs: "busy_run self sy m l sy' \<Longrightarrow> \<not> sch_stopped (sh_sched (fst sy'))"
  by (induction rule: busy_run.induct) simp_all

lemma busy_run_pays:
  assumes "busy_run self sy m l sy'"
    and "sch_op_queue (sh_sched (fst sy)) = pre0 @ op # post0" "is_work op"
  shows "Called op \<in> set l \<or>
    (\<exists>pre post. sch_op_queue (sh_sched (fst sy')) = pre @ op # post \<and>
       potential pre (snd sy') + m + 5 * length (snd sy) \<le> potential pre0 (snd sy) + 5 * length (snd sy'))"
  using assms(1)
proof induction
  case start
  show ?case using assms(2) by (intro disjI2 exI [of _ pre0] exI [of _ post0]) simp
next
  case (spawn m l sh ts)
  have more: "potential pre (ts @ [new_thread]) \<le> potential pre ts + 5" for pre
    using th_rank_le [of new_thread] by (simp add: potential_def)
  from spawn.IH show ?case
  proof (elim disjE exE conjE)
    fix pre post
    assume "sch_op_queue (sh_sched (fst (sh, ts))) = pre @ op # post"
      and "potential pre (snd (sh, ts)) + m + 5 * length (snd sy) \<le> potential pre0 (snd sy) + 5 * length (snd (sh, ts))"
    with more [of pre] show ?thesis by (intro disjI2 exI [of _ pre] exI [of _ post]) simp
  qed simp
next
  case (step m l sh ts i sh' t')
  show ?case
  proof (cases "Called op \<in> set l")
    case False
    with step.IH obtain pre post where IH: "sch_op_queue (sh_sched sh) = pre @ op # post"
        "potential pre ts + m + 5 * length (snd sy) \<le> potential pre0 (snd sy) + 5 * length ts" by auto
    have "\<not> sch_stopped (sh_sched sh)" using busy_run_runs [OF step.hyps(1)] by simp
    from local_step_advances [OF step.hyps(3) this step.hyps(4,5) IH(1) assms(3)]
    consider "op \<in> set (begins (ts ! i) t')"
      | pre' post' where "sch_op_queue (sh_sched sh') = pre' @ op # post'"
        "6 * length pre' + th_rank t' + moved (ts ! i) t' \<le> 6 * length pre + th_rank (ts ! i)"
      by (auto simp: advances_def)
    then show ?thesis
    proof cases
      case 1
      then show ?thesis by auto
    next
      case 2
      have "potential pre' (ts[i := t']) + moved (ts ! i) t' \<le> potential pre ts"
        using 2(2) potential_update [OF step.hyps(2), of t'] by (simp add: potential_def)
      with 2(1) IH(2) show ?thesis by (intro disjI2 exI [of _ pre'] exI [of _ post']) simp
    qed
  qed simp
qed

lemma busy_run_bound:
  assumes "busy_run self (sh0, ts0) m l (sh, ts)"
    and "k < length (sch_op_queue (sh_sched sh0))" "is_work (sch_op_queue (sh_sched sh0) ! k)"
    and "Called (sch_op_queue (sh_sched sh0) ! k) \<notin> set l"
  shows "m \<le> 6 * k + 5 * length ts"
proof -
  let ?q = "sch_op_queue (sh_sched sh0)"
  have "?q = take k ?q @ ?q ! k # drop (Suc k) ?q" using assms(2) by (rule id_take_nth_drop)
  with busy_run_pays [OF assms(1), of "take k ?q" "?q ! k" "drop (Suc k) ?q"] assms(3,4)
  have "m + 5 * length ts0 \<le> potential (take k ?q) ts0 + 5 * length ts" by fastforce
  moreover have "sum_list (map th_rank ts0) \<le> 5 * length ts0"
    using th_rank_le by (induction ts0) (auto intro: add_mono)
  then have "potential (take k ?q) ts0 \<le> 6 * k + 5 * length ts0" using assms(2) by (simp add: potential_def)
  ultimately show ?thesis by simp
qed

text \<open>A busy execution, told as a history.\<close>

lemma busy_run_history:
  "busy_run self sy m l sy' \<Longrightarrow> (sys_step self)\<^sup>*\<^sup>* sy sy'"
  by (induction rule: busy_run.induct) (auto intro: rtranclp.rtrancl_into_rtrancl sys_step.intros)

subsection \<open>An execution\<close>

lemma busy_alone:
  assumes "busy_run self sy m l (sh, [t])" "local_step self sh t sh' t'" "th_pc t' \<noteq> th_pc t"
    and "\<not> sch_stopped (sh_sched sh')" "\<not> threw (th_pc t')"
  shows "busy_run self sy (Suc m) (l @ map Called (begins t t')) (sh', [t'])"
  using busy_run.step [OF assms(1), of 0 sh' t'] assms(2-5) by (simp add: moved_def)

lemma demo_busy_run:
  "busy_run 0 (\<lparr>sh_sched = demo_posted, sh_pending = {#5#}, sh_guards = 0\<rparr>, [demo_at (At_Loop 0)]) 6
     [Called (Executor_Op 7)] (demo_asleep, [demo_at (Waiting 1)])"
proof -
  let ?sh = "\<lambda>s. \<lparr>sh_sched = s, sh_pending = {#5#}, sh_guards = 0\<rparr>"
  let ?run = "demo_posted\<lparr>sch_op_queue := []\<rparr>"
  let ?busy = "busy_run 0 (?sh demo_posted, [demo_at (At_Loop 0)])"
  have taken: "\<not> sch_stopped demo_taken" by (simp add: demo_taken_def demo_posted_eq)
  have "?busy 0 [] (?sh demo_posted, [demo_at (At_Loop 0)])"
    by (rule busy_run.start) (simp add: demo_posted_eq)
  moreover have "loop_head demo_posted = (?run, Complete (Executor_Op 7))"
    by (simp add: loop_head_op [OF _ demo_posted_eq(1)] demo_posted_eq unlock_for_more_def)
  ultimately have "?busy 1 [Called (Executor_Op 7)] (?sh ?run, [demo_at (In_Op 0 (Executor_Op 7))])"
    using busy_alone [OF _ local_step.turn [where n = 0 and s' = ?run and nx = "Complete (Executor_Op 7)"]]
    by (fastforce simp: demo_at_def begins_def demo_posted_eq)
  note this = busy_alone [OF this local_step.handler_done [where n = 0 and op = "Executor_Op 7"]]
  then have "?busy 2 [Called (Executor_Op 7)] (?sh ?run, [demo_at (After_Op 0)])"
    by (simp add: eval_nat_numeral demo_at_def begins_def demo_posted_eq)
  note this = busy_alone [OF this local_step.work_flush [where n = 0 and s' = ?run and ti = fresh_info]]
  then have "?busy 3 [Called (Executor_Op 7)] (?sh ?run, [demo_at (Work_Dec 0)])"
    by (simp add: eval_nat_numeral demo_at_def begins_def th_info_def set_info_def flush_private_work_def demo_posted_eq)
  note this = busy_alone [OF this local_step.work_dec [where n = 0 and s' = demo_taken and zero = False]]
  then have "?busy 4 [Called (Executor_Op 7)] (?sh demo_taken, [demo_at (Push_Private 0)])"
    by (simp add: eval_nat_numeral demo_at_def begins_def decrement_work_eq demo_posted_eq demo_taken_def)
  note this = busy_alone [OF this local_step.next_turn [where n = 0]]
  then have "?busy 5 [Called (Executor_Op 7)] (?sh demo_taken, [demo_at (At_Loop 1)])"
    by (simp add: eval_nat_numeral demo_at_def begins_def th_info_def oq_empty_def taken)
  note this = busy_alone [OF this local_step.turn [where n = 1 and nx = Block and s' = "fst (loop_head demo_taken)"]]
  then show ?thesis
    by (simp add: eval_nat_numeral demo_at_def begins_def demo_taken_head demo_asleep_def taken)
qed

text \<open>C8. No operation is passed over for long, however unfairly the threads are scheduled and whatever
  they post. While nobody stops the scheduler and no \<open>run\<close> throws, an operation with \<open>k\<close> others before
  it in the shared queue has been called once the threads have made more than \<open>6 k\<close> moves and five for
  each of them, counted together: posting from other threads cannot push it back, and threads that run
  the reactor or long chains of operations cannot keep it waiting.\<close>

theorem queued_operation_is_called_soon:
  assumes "busy_run self (sh0, ts0) m l (sh, ts)"
    and "k < length (sch_op_queue (sh_sched sh0))" and "is_work (sch_op_queue (sh_sched sh0) ! k)"
    and "6 * k + 5 * length ts < m"
  shows "Called (sch_op_queue (sh_sched sh0) ! k) \<in> set l"
  using busy_run_bound [OF assms(1-3)] assms(4) by (meson not_less)

theorem queued_operation_is_called_soon_witness:
  "Called (sch_op_queue demo_posted ! 0) \<in> set [Called (Executor_Op 7)]"
  using queued_operation_is_called_soon [OF demo_busy_run, of 0] by (simp add: demo_posted_eq)

end
