(* ===== verification/Wakeups.thy ===== *)
theory Wakeups
  imports Bounded_Wait
begin

text \<open>
  Threads that wait in the reactor. A thread that found nothing else to do calls the reactor with no
  timeout and stays there until a descriptor is ready or somebody interrupts it; what is queued or
  stopped meanwhile has to reach it, unless another thread will see to it.
\<close>

subsection \<open>Where threads can wait\<close>

text \<open>Inside the reactor with no timeout, on the way to the next turn of the loop, or asleep.\<close>

fun in_reactor :: "pc \<Rightarrow> bool" where
  "in_reactor (In_Task n usec) = (usec \<noteq> 0)"
| "in_reactor p = False"

fun on_the_way :: "pc \<Rightarrow> bool" where
  "on_the_way (In_Task n usec) = (usec = 0)"
| "on_the_way (Waiting n) = False"
| "on_the_way (Threw e) = False"
| "on_the_way p = (\<not> is_outside p)"

lemma pc_kinds:
  "in_run p \<Longrightarrow> on_the_way p \<or> waiting p = 1 \<or> in_reactor p"
  "in_reactor p \<Longrightarrow> holds_task p = 1"
  by (cases p; simp)+

subsection \<open>The flag of the reactor\<close>

lemma task_interrupted_frame [frame_simps]:
  "sch_task_interrupted (emit e s) = sch_task_interrupted s"
  "sch_task_interrupted (unlock_for_more m s) = sch_task_interrupted s"
  "sch_task_interrupted (sch_stop s) = (sch_task_interrupted s \<or> sch_task s \<noteq> None)"
  "sch_task_interrupted (work_started s) = sch_task_interrupted s"
  "sch_task_interrupted (sch_restart s) = sch_task_interrupted s"
  by (auto simp: emit_def unlock_for_more_def sch_stop_def stop_all_threads_def ev_signal_all_def
      ev_unlock_and_signal_one_def work_started_def sch_restart_def Let_def)

text \<open>An operation handed over from outside: the reactor is interrupted or a sleeping thread notified.\<close>

lemma wake_interrupts:
  "sch_task_interrupted s \<Longrightarrow> sch_task_interrupted (wake_one_thread_and_unlock s)"
  "sch_task s \<noteq> None \<Longrightarrow> ev_rel (sch_wakeup_event s) f 0 \<Longrightarrow> sch_task_interrupted (wake_one_thread_and_unlock s)"
proof -
  show "sch_task_interrupted s \<Longrightarrow> sch_task_interrupted (wake_one_thread_and_unlock s)"
    by (simp add: wake_one_thread_and_unlock_def ev_maybe_unlock_and_signal_one_def Let_def frame_simps)
  assume "sch_task s \<noteq> None" "ev_rel (sch_wakeup_event s) f 0"
  moreover from this(2) have "\<not> have_waiters (set_flag (sch_wakeup_event s))"
    using ev.signal_reaches_waiter [of "sch_wakeup_event s" f 0] by simp
  ultimately show "sch_task_interrupted (wake_one_thread_and_unlock s)"
    by (simp add: wake_one_thread_and_unlock_def ev_maybe_unlock_and_signal_one_def Let_def frame_simps)
qed

text \<open>Whoever turns the flag on interrupts the reactor.\<close>

lemma wake_emits:
  "sch_task_interrupted (wake_one_thread_and_unlock s) \<Longrightarrow> \<not> sch_task_interrupted s \<Longrightarrow>
   sch_effects (wake_one_thread_and_unlock s) = sch_effects s @ [Task_Interrupt]"
  by (auto simp: wake_one_thread_and_unlock_def ev_maybe_unlock_and_signal_one_def Let_def emit_def split: if_splits)

lemma stop_emits:
  "sch_task_interrupted (sch_stop s) \<Longrightarrow> \<not> sch_task_interrupted s \<Longrightarrow>
   last (sch_effects (sch_stop s)) = Task_Interrupt"
  by (auto simp: sch_stop_def stop_all_threads_def ev_signal_all_def Let_def emit_def split: if_splits)

subsection \<open>One step beside a thread in the reactor\<close>

text \<open>The scheduler while a thread holds the marker of the reactor.\<close>

definition task_taken :: "scheduler \<Rightarrow> bool" where
  "task_taken s \<longleftrightarrow> task_tokens s = 0"

lemma task_taken_iff: "task_taken s \<longleftrightarrow> Task_Operation \<notin> set (sch_op_queue s) \<and> sch_task s \<noteq> None"
  by (auto simp: task_taken_def task_tokens_def count_list_0_iff)

lemma loop_head_beside:
  assumes "loop_head s = (s', nx)" "task_taken s"
  shows "sch_task_interrupted s' = sch_task_interrupted s" "sch_stopped s' = sch_stopped s"
    "nx = Return_Zero \<longleftrightarrow> sch_stopped s" "nx \<noteq> Run_Task u"
  using assms by (cases s rule: loop_head_cases; auto simp: loop_head_simps frame_simps task_taken_iff)+

lemma wait_return_beside:
  assumes "wait_return s = (s', nx)" "task_taken s"
  shows "sch_task_interrupted s' = sch_task_interrupted s" "sch_stopped s' = sch_stopped s"
    "nx = Return_Zero \<Longrightarrow> sch_stopped s" "nx \<noteq> Run_Task u"
proof -
  let ?s = "s\<lparr>sch_wakeup_event := waiter_leave (sch_wakeup_event s)\<rparr>"
  have taken: "task_taken ?s" using assms(2) by (simp add: task_taken_iff)
  have "sch_task_interrupted s' = sch_task_interrupted s \<and> sch_stopped s' = sch_stopped s \<and>
      (nx = Return_Zero \<longrightarrow> sch_stopped s) \<and> nx \<noteq> Run_Task u"
  proof (cases s rule: wait_return_cases)
    case turn
    with assms(1) have "loop_head ?s = (s', nx)" by simp
    from loop_head_beside [OF this taken] show ?thesis by simp
  next
    case block
    with assms(1) show ?thesis by auto
  qed
  then show "sch_task_interrupted s' = sch_task_interrupted s" "sch_stopped s' = sch_stopped s"
    "nx = Return_Zero \<Longrightarrow> sch_stopped s" "nx \<noteq> Run_Task u" by simp_all
qed

text \<open>
  What a step of another thread leaves: an interrupted reactor, or a scheduler that is not stopped and
  where the queue is as it was, or empty, or the thread itself goes on or sleeps, or another sleeps.
\<close>

definition beside :: "scheduler \<Rightarrow> pc \<Rightarrow> nat \<Rightarrow> scheduler \<Rightarrow> pc \<Rightarrow> bool" where
  "beside s p k s' p' \<longleftrightarrow>
     (sch_task_interrupted s \<longrightarrow> sch_task_interrupted s') \<and>
     (sch_stopped s' \<longrightarrow> sch_stopped s \<or> sch_task_interrupted s') \<and> \<not> in_reactor p' \<and>
     (on_the_way p' \<or> waiting p' = 1 \<or> sch_task_interrupted s' \<or> 0 < k \<or> sch_stopped s \<or>
        sch_op_queue s' = sch_op_queue s \<and> \<not> on_the_way p \<and> waiting p = 0)"

lemma beside_same:
  "sch_task_interrupted s' = sch_task_interrupted s \<Longrightarrow> sch_stopped s' \<longrightarrow> sch_stopped s \<Longrightarrow> \<not> in_reactor p' \<Longrightarrow>
   on_the_way p' \<or> waiting p' = 1 \<or> sch_op_queue s' = sch_op_queue s \<and> is_outside p \<Longrightarrow> beside s p k s' p'"
  by (cases p) (auto simp: beside_def)

lemma beside_wake:
  assumes "s' = wake_one_thread_and_unlock s1" "sch_task_interrupted s1 = sch_task_interrupted s"
    and "sch_stopped s1 = sch_stopped s" "sch_wakeup_event s1 = sch_wakeup_event s" "sch_task s1 \<noteq> None"
    and "ev_rel (sch_wakeup_event s) f k" "\<not> in_reactor p'"
  shows "beside s p k s' p'"
proof (cases k)
  case 0
  with assms wake_interrupts(2) [of s1 f] show ?thesis by (simp add: beside_def)
next
  case (Suc j)
  with assms wake_interrupts(1) [of s1] show ?thesis by (auto simp: beside_def frame_simps)
qed

lemma called_from:
  "may_call t \<Longrightarrow> \<not> in_reactor (th_pc t) \<and> (on_the_way (th_pc t) \<or> is_outside (th_pc t)) \<and> waiting (th_pc t) = 0"
  by (cases "th_pc t") (auto simp: may_call_def)

lemma post_shapes:
  "post_immediate_completion self op c s stk = (s', stk') \<Longrightarrow>
     s' = s \<or> s' = wake_one_thread_and_unlock (push_op op (work_started s))"
  "post_deferred_completions self ops s stk = (s', stk2, lost) \<Longrightarrow>
     s' = s \<or> (\<exists>q. s' = wake_one_thread_and_unlock (s\<lparr>sch_op_queue := q\<rparr>))"
  by (auto simp: post_immediate_completion_def post_deferred_completions_def Let_def split: if_splits option.splits prod.splits)

lemma beside_stop:
  assumes "task_taken s" "\<not> in_reactor p'"
  shows "beside s p k (sch_stop s) p'"
  using assms by (simp add: beside_def frame_simps task_taken_iff)

lemma local_step_beside:
  assumes "local_step self sh t sh' t'" "task_taken (sh_sched sh)" "holds_task (th_pc t) = 0"
    and "ev_rel (sch_wakeup_event (sh_sched sh)) f (k + waiting (th_pc t))" "\<not> threw (th_pc t')"
  shows "beside (sh_sched sh) (th_pc t) k (sh_sched sh') (th_pc t')"
proof -
  have task: "sch_task (sh_sched sh) \<noteq> None" using assms(2) by (simp add: task_taken_iff)
  have awake: "ev_rel (sch_wakeup_event (sh_sched sh)) f k" if "waiting (th_pc t) = 0" using assms(4) that by simp
  note woken = beside_wake [OF _ _ _ _ _ awake]
  from assms(1) show ?thesis
  proof (cases rule: local_step.cases)
    case (turn n s' nx)
    with loop_head_beside [OF turn(4) assms(2)] show ?thesis by (cases nx) (auto simp: beside_def)
  next
    case (wake n s' nx)
    with wait_return_beside [OF wake(4) assms(2)] show ?thesis by (cases nx) (auto simp: beside_def)
  next
    case (call_post op c s' stk)
    from post_shapes(1) [OF call_post(5)] show ?thesis
    proof
      assume "s' = sh_sched sh"
      with called_from [OF call_post(3)] call_post(1,2) show ?thesis by (auto intro: beside_same)
    next
      assume "s' = wake_one_thread_and_unlock (push_op op (work_started (sh_sched sh)))"
      from woken [OF this] task called_from [OF call_post(3)] call_post(1,2) show ?thesis
        by (simp add: push_op_def work_started_def)
    qed
  next
    case (call_dispatch op)
    have "do_dispatch op (sh_sched sh) = wake_one_thread_and_unlock (push_op op (work_started (sh_sched sh)))"
      by (simp add: do_dispatch_def)
    from woken [OF this] task called_from [OF call_dispatch(3)] call_dispatch(1,2) show ?thesis
      by (simp add: push_op_def work_started_def)
  next
    case (call_init_task r)
    with task called_from [OF call_init_task(3)] show ?thesis by (auto intro: beside_same simp: init_task_def)
  next
    case (call_cancel_ops "is" s' stk lost)
    from post_shapes(2) [OF call_cancel_ops(5)] show ?thesis
    proof (elim disjE exE)
      assume "s' = sh_sched sh"
      with called_from [OF call_cancel_ops(3)] call_cancel_ops(1,2) show ?thesis by (auto intro: beside_same)
    next
      fix q assume "s' = wake_one_thread_and_unlock (sh_sched sh\<lparr>sch_op_queue := q\<rparr>)"
      from woken [OF this] task called_from [OF call_cancel_ops(3)] call_cancel_ops(1,2) show ?thesis by simp
    qed
  next
    case (perform_io n d i "is" s' stk lost)
    have "s' = sh_sched sh \<or> (\<exists>q. s' = wake_one_thread_and_unlock (sh_sched sh\<lparr>sch_op_queue := q\<rparr>))"
      using perform_io(5) post_shapes(2) [of self "map Reactor_Op is" "sh_sched sh" "th_stack t" s' stk lost]
      by (auto split: if_splits)
    then show ?thesis
    proof (elim disjE exE)
      assume "s' = sh_sched sh"
      with perform_io(1,2) show ?thesis by (auto intro: beside_same)
    next
      fix q assume "s' = wake_one_thread_and_unlock (sh_sched sh\<lparr>sch_op_queue := q\<rparr>)"
      from woken [OF this] task perform_io(1-3) show ?thesis by simp
    qed
  next
    case must_stop
    with beside_stop [OF assms(2)] assms(3) pc_kinds(2) show ?thesis by fastforce
  next
    case call_stop
    with beside_stop [OF assms(2)] called_from [OF call_stop(3)] show ?thesis by simp
  next
    case (call_work_finished g s' zero)
    with called_from [OF call_work_finished(3)] show ?thesis by (auto intro!: beside_same simp: decrement_work_eq)
  next
    case call_restart
    with called_from [OF call_restart(3)] show ?thesis by (auto intro!: beside_same simp: sch_restart_def)
  next
    case call_work_started
    with called_from [OF call_work_started(3)] show ?thesis by (auto intro!: beside_same simp: work_started_def)
  next
    case (call_start_op i)
    with called_from [OF call_start_op(3)] show ?thesis by (auto intro!: beside_same simp: work_started_def)
  qed (use assms(3,5) in \<open>auto intro!: beside_same simp: set_info_def decrement_work_eq flush_private_work_def
    Let_def split: if_splits\<close>)
qed

subsection \<open>Every reachable state\<close>

text \<open>
  With a thread in the reactor: if the scheduler was stopped the reactor was interrupted, and if there
  are operations it was interrupted or another thread sleeps or goes on.
\<close>

definition reactor_covered :: "system \<Rightarrow> bool" where
  "reactor_covered sy \<longleftrightarrow>
     (case sy of (sh, ts) \<Rightarrow>
        (\<exists>t \<in> set ts. in_reactor (th_pc t)) \<longrightarrow>
          (sch_stopped (sh_sched sh) \<longrightarrow> sch_task_interrupted (sh_sched sh)) \<and>
          (sch_op_queue (sh_sched sh) \<noteq> [] \<longrightarrow> sch_task_interrupted (sh_sched sh) \<or>
             (\<exists>t \<in> set ts. on_the_way (th_pc t) \<or> waiting (th_pc t) = 1)))"

lemma loop_head_to_reactor:
  "loop_head s = (s', Run_Task u) \<Longrightarrow> u \<noteq> 0 \<Longrightarrow> sch_op_queue s' = [] \<and> \<not> sch_stopped s'"
  by (cases s rule: loop_head_cases) (auto simp: loop_head_simps frame_simps split: if_splits)

lemma wait_return_to_reactor:
  "wait_return s = (s', Run_Task u) \<Longrightarrow> u \<noteq> 0 \<Longrightarrow> sch_op_queue s' = [] \<and> \<not> sch_stopped s'"
  by (cases s rule: wait_return_cases) (auto dest: loop_head_to_reactor)

text \<open>A thread goes into the reactor to stay only when there is nothing else to do.\<close>

lemma enters_reactor:
  assumes "local_step self sh t sh' t'" "th_ok self t" "in_reactor (th_pc t')"
  shows "sch_op_queue (sh_sched sh') = [] \<and> \<not> sch_stopped (sh_sched sh')"
  using assms(1)
proof (cases rule: local_step.cases)
  case (turn n s' nx)
  with assms(3) loop_head_to_reactor show ?thesis by (cases nx) auto
next
  case (wake n s' nx)
  with assms(3) wait_return_to_reactor show ?thesis by (cases nx) auto
next
  case (task_relock n s1 ti s' nx)
  with assms(3) loop_head_to_reactor show ?thesis by (cases nx) auto
next
  case must_stop
  with assms(2,3) show ?thesis by (cases "th_pc t") (auto simp: th_ok_def)
qed (use assms(3) called_from in \<open>auto simp: set_info_def\<close>)

lemma covered_step:
  assumes "system_inv self (sh, ts)" "i < length ts" "local_step self sh (ts ! i) sh' t'"
    and "\<not> threw (th_pc t')" "reactor_covered (sh, ts)"
  shows "reactor_covered (sh', ts[i := t'])"
proof -
  let ?t = "ts ! i" and ?s = "sh_sched sh" and ?s' = "sh_sched sh'"
  have ok: "th_ok self ?t" using assms(1,2) by (auto simp: system_inv_def)
  have kept: "u \<in> set (ts[i := t'])" if "u \<in> set ts" "u \<noteq> ?t" for u
    using that by (metis in_set_conv_nth length_list_update nth_list_update_neq)
  have new: "t' \<in> set (ts[i := t'])" using assms(2) by (rule set_update_memI)
  show ?thesis
  proof (cases "in_reactor (th_pc t')")
    case True
    with enters_reactor [OF assms(3) ok] show ?thesis by (simp add: reactor_covered_def)
  next
    case stays: False
    show ?thesis
    proof (cases "\<exists>u \<in> set (ts[i := t']). in_reactor (th_pc u)")
      case True
      then obtain j where "j < length ts" "in_reactor (th_pc (ts[i := t'] ! j))" by (auto simp: in_set_conv_nth)
      with stays have j: "j < length ts" "j \<noteq> i" "in_reactor (th_pc (ts ! j))"
        by (cases "i = j"; simp)+
      let ?f = "\<lambda>t. holds_task (th_pc t)"
      have "task_tokens ?s + sum_list (map ?f ts) = 1" using assms(1) by (simp add: system_inv_def comp_def)
      moreover have "?f (ts ! j) + ?f ?t \<le> sum_list (map ?f ts)"
        using sum_list_two_le [of j ts i ?f] j(1,2) assms(2) by simp
      ultimately have task: "task_taken ?s" "holds_task (th_pc ?t) = 0"
        using pc_kinds(2) [OF j(3)] by (auto simp: task_taken_def)
      obtain f where "ev_rel (sch_wakeup_event ?s) f (sum_list (map (waiting \<circ> th_pc) ts))"
        using assms(1) by (auto simp: system_inv_def)
      moreover define k where "k = sum_list (map (waiting \<circ> th_pc) ts) - waiting (th_pc ?t)"
      moreover have le: "waiting (th_pc ?t) \<le> sum_list (map (waiting \<circ> th_pc) ts)"
        using sum_list_member_le [OF assms(2), of "waiting \<circ> th_pc"] by simp
      ultimately have "ev_rel (sch_wakeup_event ?s) f (k + waiting (th_pc ?t))" by simp
      from local_step_beside [OF assms(3) task this assms(4)] have bes: "beside ?s (th_pc ?t) k ?s' (th_pc t')" .
      have before: "sch_stopped ?s \<Longrightarrow> sch_task_interrupted ?s"
        "sch_op_queue ?s \<noteq> [] \<Longrightarrow> sch_task_interrupted ?s \<or> (\<exists>t \<in> set ts. on_the_way (th_pc t) \<or> waiting (th_pc t) = 1)"
        using assms(5) j(1,3) by (auto simp: reactor_covered_def)
      have others: "\<exists>u \<in> set (ts[i := t']). waiting (th_pc u) = 1" if "0 < k"
      proof -
        have "sum_list (map (waiting \<circ> th_pc) (ts[i := t'])) = k + waiting (th_pc t')"
          using sum_list_map_update_nat [OF assms(2), of "waiting \<circ> th_pc" t'] le
          unfolding k_def o_apply by arith
        with that have "filter (\<lambda>t. waiting (th_pc t) = 1) (ts[i := t']) \<noteq> []"
          using sum_waiting [of "ts[i := t']"] by (metis add_gr_0 length_0_conv less_numeral_extra(3))
        then show ?thesis by (simp add: filter_empty_conv)
      qed
      show ?thesis
        unfolding reactor_covered_def prod.case
      proof (intro impI conjI)
        show "sch_stopped ?s' \<Longrightarrow> sch_task_interrupted ?s'" using bes before(1) by (auto simp: beside_def)
        assume queue: "sch_op_queue ?s' \<noteq> []"
        from bes consider "on_the_way (th_pc t') \<or> waiting (th_pc t') = 1" | "sch_task_interrupted ?s'" | "0 < k"
          | "sch_op_queue ?s' = sch_op_queue ?s" "\<not> on_the_way (th_pc ?t)" "waiting (th_pc ?t) = 0"
          using before(1) by (auto simp: beside_def)
        then show "sch_task_interrupted ?s' \<or>
            (\<exists>u \<in> set (ts[i := t']). on_the_way (th_pc u) \<or> waiting (th_pc u) = 1)"
        proof cases
          case 4
          with before(2) queue consider "sch_task_interrupted ?s"
            | u where "u \<in> set ts" "on_the_way (th_pc u) \<or> waiting (th_pc u) = 1" by auto
          then show ?thesis
          proof cases
            case 1
            with bes show ?thesis by (simp add: beside_def)
          next
            case (2 u)
            with 4 have "u \<noteq> ?t" by auto
            with 2 kept show ?thesis by blast
          qed
        qed (use new others in auto)
      qed
    next
      case False
      then show ?thesis by (simp add: reactor_covered_def)
    qed
  qed
qed

lemma threw_stays_so: "local_step self sh t sh' t' \<Longrightarrow> threw (th_pc t) \<Longrightarrow> threw (th_pc t')"
  by (cases rule: local_step.cases; cases "th_pc t") (auto simp: may_call_def)

lemma reachable_covered:
  "reachable self sy \<Longrightarrow> \<forall>t \<in> set (snd sy). \<not> threw (th_pc t) \<Longrightarrow> reactor_covered sy"
proof (induction rule: reachable.induct)
  case (start raw hint)
  then show ?case by (simp add: reactor_covered_def initial_shared_def)
next
  case (step sy sy')
  obtain sh ts where sy: "sy = (sh, ts)" by (cases sy)
  have inv: "system_inv self (sh, ts)" using reachable_inv [OF step.hyps(1)] sy by simp
  from step.hyps(2) show ?case unfolding sy
  proof (cases rule: sys_step.cases)
    case spawn
    with step sy show ?thesis by (auto simp: reactor_covered_def new_thread_def)
  next
    case (step i sh' t')
    have none: "\<forall>t \<in> set (ts[i := t']). \<not> threw (th_pc t)" using step \<open>\<forall>t \<in> set (snd sy'). _\<close> by simp
    then have t': "\<not> threw (th_pc t')" using set_update_memI [OF step(2)] by blast
    have "\<not> threw (th_pc (ts ! j))" if "j < length ts" for j
      using that none t' threw_stays_so [OF step(3)] by (cases "j = i") (auto simp: all_set_conv_all_nth)
    then have "\<forall>t \<in> set ts. \<not> threw (th_pc t)" by (simp add: all_set_conv_all_nth)
    then have "reactor_covered (sh, ts)" using step.IH sy by simp
    with covered_step [OF inv step(2,3) t'] step(1) show ?thesis by simp
  qed
qed

lemma work_reaches_thread:
  assumes "reachable self (sh, ts)" "\<not> sch_one_thread (sh_sched sh)" "\<forall>t \<in> set ts. \<not> threw (th_pc t)"
    and "sch_op_queue (sh_sched sh) \<noteq> [] \<or> sch_stopped (sh_sched sh)" "t \<in> set ts" "in_run (th_pc t)"
  shows "\<exists>u \<in> set ts. on_the_way (th_pc u) \<or> waiting (th_pc u) = 1 \<and> flag_is_set (sch_wakeup_event (sh_sched sh)) \<or>
    in_reactor (th_pc u) \<and> sch_task_interrupted (sh_sched sh)"
proof -
  have "nobody_threw ts" using assms(3) by (auto simp: nobody_threw_def)
  then have flag: "flag_is_set (sch_wakeup_event (sh_sched sh))"
    using reachable_awake [OF assms(1)] assms(2,4) by (auto simp: awake_def)
  have covered: "reactor_covered (sh, ts)" using reachable_covered [OF assms(1)] assms(3) by simp
  from pc_kinds(1) [OF assms(6)] show ?thesis
  proof (elim disjE)
    assume "in_reactor (th_pc t)"
    with covered assms(4,5) flag show ?thesis by (auto simp: reactor_covered_def)
  qed (use flag assms(5) in blast)+
qed

subsection \<open>What the outside is asked for\<close>

text \<open>
  The flags are the scheduler's own. What wakes a thread is the notification and the interrupt it asks
  for: a step that sets the flag of the event while \<open>k > 0\<close> threads sleep, or that of the reactor while
  a thread holds its marker (\<open>b\<close>), records one.
\<close>

definition told :: "effect list \<Rightarrow> bool" where
  "told d \<longleftrightarrow> Notified Notify_One \<in> set d \<or> Notified Notify_All \<in> set d"

definition asks :: "nat \<Rightarrow> bool \<Rightarrow> scheduler \<Rightarrow> scheduler \<Rightarrow> bool" where
  "asks k b s s' \<longleftrightarrow>
     (\<exists>d. sch_effects s' = sch_effects s @ d \<and>
        (0 < k \<longrightarrow> \<not> flag_is_set (sch_wakeup_event s) \<longrightarrow> flag_is_set (sch_wakeup_event s') \<longrightarrow> told d) \<and>
        (b \<longrightarrow> \<not> sch_task_interrupted s \<longrightarrow> sch_task_interrupted s' \<longrightarrow> Task_Interrupt \<in> set d))"

lemma asks_same:
  "sch_effects s' = sch_effects s \<Longrightarrow> (b \<longrightarrow> sch_task_interrupted s' = sch_task_interrupted s) \<Longrightarrow>
   sch_wakeup_event s' = sch_wakeup_event s \<or> \<not> flag_is_set (sch_wakeup_event s') \<Longrightarrow> asks k b s s'"
  by (auto simp: asks_def)

lemma asks_from:
  "asks k b s1 s' \<Longrightarrow> sch_effects s1 = sch_effects s \<Longrightarrow> (b \<longrightarrow> sch_task_interrupted s1 = sch_task_interrupted s) \<Longrightarrow>
   flag_is_set (sch_wakeup_event s1) = flag_is_set (sch_wakeup_event s) \<Longrightarrow> asks k b s s'"
  by (simp add: asks_def)

lemma wake_asks:
  assumes "ev_rel (sch_wakeup_event s) f k" "k < 2 ^ 63"
  shows "asks k b s (wake_one_thread_and_unlock s)"
  using ev.signal_reaches_waiter [OF assms]
  by (auto simp: asks_def told_def wake_one_thread_and_unlock_def ev_maybe_unlock_and_signal_one_def Let_def emit_def)

lemma stop_asks: "asks k b s (sch_stop s)"
  by (auto simp: asks_def told_def sch_stop_def stop_all_threads_def ev_signal_all_def Let_def emit_def)

lemma unlock_asks:
  assumes "ev_rel (sch_wakeup_event s) f k" "k < 2 ^ 63"
  shows "asks k b s (unlock_for_more m s)"
  using ev.signal_reaches_waiter [OF assms]
  by (auto simp: asks_def told_def unlock_for_more_def ev_unlock_and_signal_one_def Let_def emit_def)

lemma wake_asks_from:
  assumes "s' = wake_one_thread_and_unlock s1" "sch_effects s1 = sch_effects s"
    "sch_task_interrupted s1 = sch_task_interrupted s" "sch_wakeup_event s1 = sch_wakeup_event s"
    and "ev_rel (sch_wakeup_event s) f k" "k < 2 ^ 63"
  shows "asks k b s s'"
  using asks_from [OF wake_asks [of s1 f k b]] assms by simp

lemma loop_head_asks:
  assumes "loop_head s = (s', nx)" "ev_rel (sch_wakeup_event s) f k" "k < 2 ^ 63" "b \<longrightarrow> task_taken s"
  shows "asks k b s s'"
proof (cases s rule: loop_head_cases)
  case (task q)
  with assms(1,4) unlock_asks [OF _ assms(3), of "s\<lparr>sch_op_queue := q, sch_task_interrupted := q \<noteq> []\<rparr>" f b "q \<noteq> []"]
  show ?thesis using assms(2) by (auto simp: loop_head_task task_taken_iff elim!: asks_from)
next
  case (op op q)
  with assms(1) unlock_asks [OF _ assms(3), of "s\<lparr>sch_op_queue := q\<rparr>" f b "q \<noteq> []"]
  show ?thesis using assms(2) by (auto simp: loop_head_op elim!: asks_from)
next
  case block
  with assms(1) ev.rel_is_set [OF ev.block [OF assms(2)]] show ?thesis
    by (auto simp: loop_head_block intro!: asks_same)
qed (use assms(1) in \<open>auto intro: asks_same\<close>)

lemma wait_return_asks:
  assumes "wait_return s = (s', nx)" "ev_rel (sch_wakeup_event s) f (Suc k)" "k < 2 ^ 63" "b \<longrightarrow> task_taken s"
  shows "asks k b s s'"
proof -
  note left = ev.rel_leave [OF assms(2)]
  have flag: "flag_is_set (waiter_leave (sch_wakeup_event s)) = flag_is_set (sch_wakeup_event s)"
    using ev.rel_is_set [OF left] ev.rel_is_set [OF assms(2)] by simp
  show ?thesis
  proof (cases s rule: wait_return_cases)
    case turn
    let ?s = "s\<lparr>sch_wakeup_event := waiter_leave (sch_wakeup_event s)\<rparr>"
    have "asks k b ?s s'"
      using loop_head_asks [of ?s s' nx f k b] turn(1) assms(1,3,4) left by (simp add: task_taken_iff)
    then show ?thesis by (rule asks_from) (simp_all add: flag)
  next
    case block
    with assms(1) ev.rel_is_set [OF ev.rel_enter [OF left]] ev.rel_is_set [OF left] show ?thesis
      by (auto intro!: asks_same)
  qed
qed

lemma local_step_asks:
  assumes "local_step self sh t sh' t'" "ev_rel (sch_wakeup_event (sh_sched sh)) f (k + waiting (th_pc t))"
    and "k < 2 ^ 63" "b \<longrightarrow> task_taken (sh_sched sh) \<and> holds_task (th_pc t) = 0"
  shows "asks k b (sh_sched sh) (sh_sched sh')"
proof -
  have awake: "ev_rel (sch_wakeup_event (sh_sched sh)) f k" if "waiting (th_pc t) = 0" using assms(2) that by simp
  note woken = wake_asks_from [OF _ _ _ _ awake assms(3)]
  from assms(1) show ?thesis
  proof (cases rule: local_step.cases)
    case (turn n s' nx)
    with loop_head_asks [OF turn(4) awake assms(3), of b] assms(4) show ?thesis by simp
  next
    case (wake n s' nx)
    with wait_return_asks [OF wake(4) _ assms(3), of f b] assms(2,4) show ?thesis by simp
  next
    case (task_relock n s1 ti s' nx)
    then have s1: "sch_effects s1 = sch_effects (sh_sched sh)" "sch_wakeup_event s1 = sch_wakeup_event (sh_sched sh)"
      and b: "\<not> b"
      using assms(4) by (auto simp: task_cleanup_locked_def push_private_queue_eq push_op_def)
    have "asks k b s1 s'" using loop_head_asks [OF task_relock(5), of f k b] s1 b awake task_relock(3) assms(3) by simp
    then have "asks k b (sh_sched sh) s'" using s1 b by (auto elim!: asks_from)
    with task_relock(1) show ?thesis by simp
  next
    case (call_post op c s' stk)
    from post_shapes(1) [OF call_post(5)] called_from [OF call_post(3)] call_post(1,2) show ?thesis
      by (auto intro: asks_same woken simp: push_op_def work_started_def)
  next
    case (call_dispatch op)
    with called_from [OF call_dispatch(3)] show ?thesis
      by (auto intro!: woken simp: do_dispatch_def push_op_def work_started_def)
  next
    case (call_init_task r)
    have "init_task r (sh_sched sh) = sh_sched sh \<or>
        init_task r (sh_sched sh) = wake_one_thread_and_unlock (push_op Task_Operation (sh_sched sh\<lparr>sch_task := Some r\<rparr>))"
      by (simp add: init_task_def)
    with called_from [OF call_init_task(3)] call_init_task(1,2) show ?thesis
      by (auto intro: asks_same woken simp: push_op_def)
  next
    case (call_cancel_ops "is" s' stk lost)
    from post_shapes(2) [OF call_cancel_ops(5)] called_from [OF call_cancel_ops(3)] call_cancel_ops(1,2) show ?thesis
      by (auto intro: asks_same woken)
  next
    case (perform_io n d i "is" s' stk lost)
    have "s' = sh_sched sh \<or> (\<exists>q. s' = wake_one_thread_and_unlock (sh_sched sh\<lparr>sch_op_queue := q\<rparr>))"
      using perform_io(5) post_shapes(2) [of self "map Reactor_Op is" "sh_sched sh" "th_stack t" s' stk lost]
      by (auto split: if_splits)
    with perform_io(1-3) show ?thesis by (auto intro: asks_same woken)
  next
    case must_stop
    with stop_asks show ?thesis by simp
  next
    case call_stop
    with stop_asks show ?thesis by simp
  qed (auto intro!: asks_same simp: decrement_work_eq flush_private_work_def work_started_def sch_restart_def
    push_private_queue_eq Let_def split: if_splits)
qed

subsection \<open>Since its last step\<close>

text \<open>
  Executions that note, for every thread, how many requests had been recorded when it made its last
  step of its own: the requests behind that number were made while it was where it is now.
\<close>

inductive watched :: "nat \<Rightarrow> nat list \<Rightarrow> system \<Rightarrow> bool" for self :: nat where
  start: "zeroed raw \<Longrightarrow> watched self [] (initial_shared raw hint, [])"
| spawn: "watched self ns (sh, ts) \<Longrightarrow>
    watched self (ns @ [length (sch_effects (sh_sched sh))]) (sh, ts @ [new_thread])"
| step: "watched self ns (sh, ts) \<Longrightarrow> i < length ts \<Longrightarrow> local_step self sh (ts ! i) sh' t' \<Longrightarrow>
    watched self (ns[i := length (sch_effects (sh_sched sh'))]) (sh', ts[i := t'])"

definition asked_since :: "nat \<Rightarrow> shared \<Rightarrow> effect list" where
  "asked_since n sh = drop n (sch_effects (sh_sched sh))"

lemma watched_reachable: "watched self ns sy \<Longrightarrow> reachable self sy"
  by (induction rule: watched.induct) (blast intro: reachable.intros sys_step.intros)+

lemma reachable_watched: "reachable self sy \<Longrightarrow> \<exists>ns. watched self ns sy"
proof (induction rule: reachable.induct)
  case (step sy sy')
  obtain sh ts ns where "sy = (sh, ts)" "watched self ns (sh, ts)" using step.IH by (cases sy) blast
  with step.hyps(2) show ?case by (blast intro: watched.spawn watched.step)
qed (blast intro: watched.start)

text \<open>A flag that is set was set for the threads it concerns, and they were told.\<close>

definition told_thread :: "shared \<Rightarrow> nat \<Rightarrow> thread \<Rightarrow> bool" where
  "told_thread sh n t \<longleftrightarrow> n \<le> length (sch_effects (sh_sched sh)) \<and>
     (waiting (th_pc t) = 1 \<longrightarrow> flag_is_set (sch_wakeup_event (sh_sched sh)) \<longrightarrow> told (asked_since n sh)) \<and>
     (in_reactor (th_pc t) \<longrightarrow> sch_task_interrupted (sh_sched sh) \<longrightarrow> Task_Interrupt \<in> set (asked_since n sh))"

lemma loop_head_arrives:
  assumes "loop_head s = (s', nx)" "ev_rel (sch_wakeup_event s) f k"
  shows "nx = Block \<Longrightarrow> \<not> flag_is_set (sch_wakeup_event s')"
    and "nx = Run_Task u \<Longrightarrow> u \<noteq> 0 \<Longrightarrow> \<not> sch_task_interrupted s'"
  using assms ev.rel_is_set [OF ev.block [OF assms(2)]]
  by (cases s rule: loop_head_cases; auto simp: loop_head_simps frame_simps split: if_splits)+

lemma wait_return_arrives:
  assumes "wait_return s = (s', nx)" "ev_rel (sch_wakeup_event s) f (Suc k)"
  shows "nx = Block \<Longrightarrow> \<not> flag_is_set (sch_wakeup_event s')"
    and "nx = Run_Task u \<Longrightarrow> u \<noteq> 0 \<Longrightarrow> \<not> sch_task_interrupted s'"
proof -
  note left = ev.rel_leave [OF assms(2)]
  let ?s = "s\<lparr>sch_wakeup_event := waiter_leave (sch_wakeup_event s)\<rparr>"
  have rel: "ev_rel (sch_wakeup_event ?s) f k" using left by simp
  have "(nx = Block \<longrightarrow> \<not> flag_is_set (sch_wakeup_event s')) \<and> (nx = Run_Task u \<longrightarrow> u \<noteq> 0 \<longrightarrow> \<not> sch_task_interrupted s')"
  proof (cases s rule: wait_return_cases)
    case turn
    with assms(1) have "loop_head ?s = (s', nx)" by simp
    from loop_head_arrives [OF this rel] show ?thesis by blast
  next
    case block
    with assms(1) ev.rel_is_set [OF ev.rel_enter [OF left]] ev.rel_is_set [OF left] show ?thesis by auto
  qed
  then show "nx = Block \<Longrightarrow> \<not> flag_is_set (sch_wakeup_event s')"
    "nx = Run_Task u \<Longrightarrow> u \<noteq> 0 \<Longrightarrow> \<not> sch_task_interrupted s'" by simp_all
qed

lemma own_step_arrives:
  assumes "local_step self sh t sh' t'" "th_ok self t" "ev_rel (sch_wakeup_event (sh_sched sh)) f (k + waiting (th_pc t))"
  shows "waiting (th_pc t') = 1 \<Longrightarrow> \<not> flag_is_set (sch_wakeup_event (sh_sched sh'))"
    and "in_reactor (th_pc t') \<Longrightarrow> \<not> sch_task_interrupted (sh_sched sh')"
proof -
  have "(waiting (th_pc t') = 1 \<longrightarrow> \<not> flag_is_set (sch_wakeup_event (sh_sched sh'))) \<and>
      (in_reactor (th_pc t') \<longrightarrow> \<not> sch_task_interrupted (sh_sched sh'))"
    using assms(1)
  proof (cases rule: local_step.cases)
    case (turn n s' nx)
    with assms(3) loop_head_arrives [OF turn(4), of f k] show ?thesis by (cases nx) auto
  next
    case (wake n s' nx)
    with assms(3) wait_return_arrives [OF wake(4), of f k] show ?thesis by (cases nx) auto
  next
    case (task_relock n s1 ti s' nx)
    then have "ev_rel (sch_wakeup_event s1) f k"
      using assms(3) by (auto simp: task_cleanup_locked_def push_private_queue_eq push_op_def)
    with loop_head_arrives [OF task_relock(5) this] task_relock show ?thesis by (cases nx) auto
  next
    case must_stop
    with assms(2) show ?thesis by (cases "th_pc t") (auto simp: th_ok_def)
  qed (use called_from in \<open>auto simp: set_info_def\<close>)
  then show "waiting (th_pc t') = 1 \<Longrightarrow> \<not> flag_is_set (sch_wakeup_event (sh_sched sh'))"
    "in_reactor (th_pc t') \<Longrightarrow> \<not> sch_task_interrupted (sh_sched sh')" by simp_all
qed

lemma told_beside:
  assumes "told_thread sh n t" "asks k b (sh_sched sh) (sh_sched sh')"
    and "waiting (th_pc t) = 1 \<Longrightarrow> 0 < k" "in_reactor (th_pc t) \<Longrightarrow> b"
  shows "told_thread sh' n t"
proof -
  obtain d where d: "asked_since n sh' = asked_since n sh @ d" "n \<le> length (sch_effects (sh_sched sh'))"
    and k: "0 < k \<Longrightarrow> \<not> flag_is_set (sch_wakeup_event (sh_sched sh)) \<Longrightarrow>
        flag_is_set (sch_wakeup_event (sh_sched sh')) \<Longrightarrow> told d"
    and b: "b \<Longrightarrow> \<not> sch_task_interrupted (sh_sched sh) \<Longrightarrow> sch_task_interrupted (sh_sched sh') \<Longrightarrow>
        Task_Interrupt \<in> set d"
    using assms(1,2) by (auto simp: asks_def asked_since_def told_thread_def)
  have "told (asked_since n sh')"
    if "waiting (th_pc t) = 1" "flag_is_set (sch_wakeup_event (sh_sched sh'))"
  proof (cases "flag_is_set (sch_wakeup_event (sh_sched sh))")
    case True
    with assms(1) that(1) show ?thesis by (auto simp: told_thread_def d(1) told_def)
  next
    case False
    with k [OF assms(3)] that show ?thesis by (auto simp: d(1) told_def)
  qed
  moreover have "Task_Interrupt \<in> set (asked_since n sh')"
    if "in_reactor (th_pc t)" "sch_task_interrupted (sh_sched sh')"
  proof (cases "sch_task_interrupted (sh_sched sh)")
    case True
    with assms(1) that(1) show ?thesis by (auto simp: told_thread_def d(1))
  next
    case False
    with b [OF assms(4)] that show ?thesis by (auto simp: d(1))
  qed
  ultimately show ?thesis using d(2) by (simp add: told_thread_def)
qed

text \<open>Sleeping threads and a thread in the reactor, as the others see them.\<close>

lemma others_wait:
  assumes "system_inv self (sh, ts)" "i < length ts" "length ts < 2 ^ 63"
  obtains f k where "ev_rel (sch_wakeup_event (sh_sched sh)) f (k + waiting (th_pc (ts ! i)))" "k < 2 ^ 63"
    and "\<And>j. j < length ts \<Longrightarrow> j \<noteq> i \<Longrightarrow> waiting (th_pc (ts ! j)) = 1 \<Longrightarrow> 0 < k"
    and "\<And>j. j < length ts \<Longrightarrow> j \<noteq> i \<Longrightarrow> in_reactor (th_pc (ts ! j)) \<Longrightarrow>
      task_taken (sh_sched sh) \<and> holds_task (th_pc (ts ! i)) = 0"
proof -
  let ?w = "waiting \<circ> th_pc" and ?h = "holds_task \<circ> th_pc"
  obtain f where f: "ev_rel (sch_wakeup_event (sh_sched sh)) f (sum_list (map ?w ts))"
    using assms(1) by (auto simp: system_inv_def)
  have tokens: "task_tokens (sh_sched sh) + sum_list (map ?h ts) = 1" using assms(1) by (simp add: system_inv_def)
  have le: "?w (ts ! i) \<le> sum_list (map ?w ts)" using sum_list_member_le [OF assms(2)] .
  have "sum_list (map ?w ts) \<le> length ts"
  proof -
    have "?w t \<le> 1" for t by (cases "th_pc t") simp_all
    then have "sum_list (map ?w ts) \<le> sum_list (map (\<lambda>_. 1) ts)" by (intro sum_list_mono)
    then show ?thesis by (simp add: sum_list_triv)
  qed
  then have "sum_list (map ?w ts) - ?w (ts ! i) < 2 ^ 63" using assms(3) by linarith
  moreover have "0 < sum_list (map ?w ts) - ?w (ts ! i)"
    if "j < length ts" "j \<noteq> i" "waiting (th_pc (ts ! j)) = 1" for j
    using sum_list_two_le [of j ts i ?w] that assms(2) by simp
  moreover have "task_taken (sh_sched sh) \<and> holds_task (th_pc (ts ! i)) = 0"
    if "j < length ts" "j \<noteq> i" "in_reactor (th_pc (ts ! j))" for j
    using sum_list_two_le [of j ts i ?h] that assms(2) tokens pc_kinds(2) [OF that(3)]
    by (simp add: task_taken_def)
  ultimately show thesis using that [of f "sum_list (map ?w ts) - ?w (ts ! i)"] f le by simp
qed

lemma watched_told:
  "watched self ns (sh, ts) \<Longrightarrow> length ts < 2 ^ 63 \<Longrightarrow>
   length ns = length ts \<and> (\<forall>j < length ts. told_thread sh (ns ! j) (ts ! j))"
proof (induction "(sh, ts)" arbitrary: sh ts rule: watched.induct)
  case (spawn ns sh ts)
  then show ?case by (auto simp: nth_append told_thread_def new_thread_def less_Suc_eq)
next
  case (step ns sh ts i sh' t')
  have inv: "system_inv self (sh, ts)" using reachable_inv [OF watched_reachable [OF step.hyps(1)]] .
  have len: "length ts < 2 ^ 63" using step.prems by simp
  have IH: "length ns = length ts" "\<And>j. j < length ts \<Longrightarrow> told_thread sh (ns ! j) (ts ! j)"
    using step.hyps(2) [OF len] by simp_all
  have ok: "th_ok self (ts ! i)" using inv step.hyps(3) by (auto simp: system_inv_def)
  obtain f k where f: "ev_rel (sch_wakeup_event (sh_sched sh)) f (k + waiting (th_pc (ts ! i)))" "k < 2 ^ 63"
    and sleeps: "\<And>j. j < length ts \<Longrightarrow> j \<noteq> i \<Longrightarrow> waiting (th_pc (ts ! j)) = 1 \<Longrightarrow> 0 < k"
    and reacts: "\<And>j. j < length ts \<Longrightarrow> j \<noteq> i \<Longrightarrow> in_reactor (th_pc (ts ! j)) \<Longrightarrow>
      task_taken (sh_sched sh) \<and> holds_task (th_pc (ts ! i)) = 0"
    using others_wait [OF inv step.hyps(3) len] by blast
  have "told_thread sh' (length (sch_effects (sh_sched sh'))) t'"
    using own_step_arrives [OF step.hyps(4) ok f(1)] by (auto simp: told_thread_def)
  moreover have "told_thread sh' (ns ! j) (ts ! j)" if "j < length ts" "j \<noteq> i" for j
  proof (rule told_beside [OF IH(2) [OF that(1)]])
    show "asks k (in_reactor (th_pc (ts ! j))) (sh_sched sh) (sh_sched sh')"
      using local_step_asks [OF step.hyps(4) f] reacts [OF that] by blast
  qed (use sleeps that in auto)
  ultimately show ?case using IH(1) step.hyps(3) by (auto simp: nth_list_update)
qed simp

subsection \<open>A thread in the reactor and one that posts\<close>

definition demo_idle_reactor :: scheduler where
  "demo_idle_reactor = fst (loop_head (init_task 5 (work_started (scheduler_ctor demo_raw 2))))"

definition demo_woken :: shared where
  "demo_woken = \<lparr>sh_sched = do_dispatch (Executor_Op 7) demo_idle_reactor, sh_pending = {#}, sh_guards = 1\<rparr>"

lemma demo_idle_reactor_eq:
  "loop_head (init_task 5 (work_started (scheduler_ctor demo_raw 2))) = (demo_idle_reactor, Run_Task (-1))"
  "\<not> sch_one_thread demo_idle_reactor" "sch_op_queue demo_idle_reactor = []"
proof -
  let ?s = "init_task 5 (work_started (scheduler_ctor demo_raw 2))"
  have s: "sch_op_queue ?s = [Task_Operation]" "\<not> sch_stopped ?s" "\<not> sch_one_thread ?s"
    by (simp_all add: demo_raw_def scheduler_ctor_def init_task_def work_started_def push_op_def oq_push_def frame_simps)
  then have head: "loop_head ?s = (unlock_for_more False (?s\<lparr>sch_op_queue := [], sch_task_interrupted := False\<rparr>), Run_Task (-1))"
    by (simp add: loop_head_task)
  then show "loop_head ?s = (demo_idle_reactor, Run_Task (-1))" by (simp add: demo_idle_reactor_def)
  show "\<not> sch_one_thread demo_idle_reactor" "sch_op_queue demo_idle_reactor = []"
    using s(3) by (simp_all add: demo_idle_reactor_def head frame_simps)
qed

lemma watched_alone:
  "watched self [n] (sh, [t]) \<Longrightarrow> local_step self sh t sh' t' \<Longrightarrow>
   watched self [length (sch_effects (sh_sched sh'))] (sh', [t'])"
  using watched.step [of self "[n]" sh "[t]" 0 sh' t'] by simp

lemma demo_woken_watched: "watched 0 [1, 2] (demo_woken, [demo_at (In_Task 0 (-1)), new_thread])"
proof -
  let ?d0 = "scheduler_ctor demo_raw 2"
  let ?s = "init_task 5 (work_started ?d0)"
  let ?sh = "\<lambda>s. \<lparr>sh_sched = s, sh_pending = {#}, sh_guards = 1\<rparr>"
  have effects: "sch_effects ?s = [Task_Interrupt]" "sch_effects demo_idle_reactor = [Task_Interrupt]"
      "sch_effects (do_dispatch (Executor_Op 7) demo_idle_reactor) = [Task_Interrupt, Task_Interrupt]"
    by (simp_all add: demo_idle_reactor_def loop_head_def unlock_for_more_def demo_raw_def scheduler_ctor_def
        init_task_def work_started_def push_op_def oq_push_def oq_pop_def oq_front_def oq_empty_def do_dispatch_def
        wake_one_thread_and_unlock_def ev_maybe_unlock_and_signal_one_def have_waiters_def set_flag_def ev_init_def
        emit_def Let_def)
  have "watched 0 [0] (initial_shared demo_raw 2, [new_thread])"
    using watched.spawn [OF watched.start [OF demo_zeroed], of 0 2]
    by (simp add: initial_shared_def scheduler_ctor_def)
  moreover have "local_step 0 (initial_shared demo_raw 2) new_thread (?sh (work_started ?d0)) new_thread"
    using local_step.call_work_started [OF demo_may_call, of 0 "initial_shared demo_raw 2"]
    by (simp add: initial_shared_def)
  ultimately have "\<exists>n. watched 0 [n] (?sh (work_started ?d0), [new_thread])" using watched_alone by blast
  then have "watched 0 [1] (?sh ?s, [new_thread])"
    using watched_alone [OF _ local_step.call_init_task [OF demo_may_call, where r = 5]] effects(1) by fastforce
  moreover have "sch_outstanding_work ?s = 1"
    by (simp add: demo_raw_def scheduler_ctor_def init_task_def work_started_def push_op_def frame_simps)
  ultimately have "watched 0 [1] (?sh ?s, [demo_at (At_Loop 0)])"
    using watched_alone [OF _ local_step.run_enter, of 0 1 "?sh ?s" new_thread] effects(1)
    by (simp add: new_thread_def demo_at_def cs_enter_def)
  from watched_alone [OF this local_step.turn [where n = 0 and s' = demo_idle_reactor and nx = "Run_Task (-1)"]]
  have "watched 0 [1] (?sh demo_idle_reactor, [demo_at (In_Task 0 (-1))])"
    by (simp add: demo_idle_reactor_eq demo_at_def effects(2))
  from watched.spawn [OF this]
  have "watched 0 [1, 1] (?sh demo_idle_reactor, [demo_at (In_Task 0 (-1)), new_thread])" by (simp add: effects(2))
  from watched.step [OF this, of 1 "?sh (do_dispatch (Executor_Op 7) demo_idle_reactor)" new_thread]
    local_step.call_dispatch [OF demo_may_call, of "Executor_Op 7" 0 "?sh demo_idle_reactor"]
  show ?thesis by (simp add: demo_woken_def effects(3) numeral_2_eq_2)
qed

text \<open>C5. The scheduler for several threads cannot get stuck, the reactor included. In every reachable
  state with operations in the queue, or after a call of \<open>stop\<close>, as long as some thread is in \<open>run\<close>
  and none has thrown, one of the threads goes on by itself, or sleeps with the signal set and the
  condition variable has been notified since it went to sleep, or waits in the reactor and
  \<open>task_->interrupt()\<close> has been called since it went in. So a thread that went into the reactor with
  nothing to do is not left in \<open>epoll_wait\<close> while work arrives and no other thread can take it.\<close>

theorem work_finds_a_thread:
  assumes "watched self ns (sh, ts)" and "length ts < 2 ^ 63"
    and "\<not> sch_one_thread (sh_sched sh)" and "\<forall>t \<in> set ts. \<not> threw (th_pc t)"
    and "sch_op_queue (sh_sched sh) \<noteq> [] \<or> sch_stopped (sh_sched sh)" and "t \<in> set ts" and "in_run (th_pc t)"
  shows "\<exists>i < length ts. on_the_way (th_pc (ts ! i)) \<or>
    waiting (th_pc (ts ! i)) = 1 \<and> flag_is_set (sch_wakeup_event (sh_sched sh)) \<and>
      (Notified Notify_One \<in> set (asked_since (ns ! i) sh) \<or> Notified Notify_All \<in> set (asked_since (ns ! i) sh)) \<or>
    in_reactor (th_pc (ts ! i)) \<and> sch_task_interrupted (sh_sched sh) \<and>
      Task_Interrupt \<in> set (asked_since (ns ! i) sh)"
proof -
  from work_reaches_thread [OF watched_reachable [OF assms(1)] assms(3-7)] obtain i where i: "i < length ts"
    "on_the_way (th_pc (ts ! i)) \<or> waiting (th_pc (ts ! i)) = 1 \<and> flag_is_set (sch_wakeup_event (sh_sched sh)) \<or>
      in_reactor (th_pc (ts ! i)) \<and> sch_task_interrupted (sh_sched sh)"
    by (auto simp: in_set_conv_nth)
  with watched_told [OF assms(1,2)] show ?thesis
    by (intro exI [of _ i]) (auto simp: told_thread_def told_def)
qed

theorem work_finds_a_thread_witness:
  "in_reactor (th_pc (demo_at (In_Task 0 (-1)))) \<and> sch_task_interrupted (sh_sched demo_woken) \<and>
   Task_Interrupt \<in> set (asked_since 1 demo_woken)"
proof -
  have "sch_op_queue (sh_sched demo_woken) \<noteq> []" "\<not> sch_one_thread (sh_sched demo_woken)"
    by (simp_all add: demo_woken_def do_dispatch_def push_op_def oq_push_def work_started_def demo_idle_reactor_eq frame_simps)
  with work_finds_a_thread [OF demo_woken_watched, of "demo_at (In_Task 0 (-1))"] show ?thesis
    by (auto simp: demo_at_def new_thread_def less_Suc_eq)
qed

end
