(* ===== verification/No_Spinning.thy ===== *)
theory No_Spinning
  imports Bounded_Wait
begin

text \<open>
  The cost of \<open>run\<close> in a scheduler without a reactor: a potential that pays for every move of every
  thread out of the operations they take from the queue.
\<close>

subsection \<open>Threads away from the reactor\<close>

fun off_reactor :: "pc \<Rightarrow> bool" where
  "off_reactor (In_Task n u) = False"
| "off_reactor (Task_Done n) = False"
| "off_reactor (Task_Flushed n) = False"
| "off_reactor (In_Op n op) = is_work op"
| "off_reactor p = True"

definition only_work :: "system \<Rightarrow> bool" where
  "only_work sy \<longleftrightarrow>
     (case sy of (sh, ts) \<Rightarrow>
        list_all is_work (sch_op_queue (sh_sched sh)) \<and> (\<forall>t \<in> set ts. off_reactor (th_pc t)))"

text \<open>How many moves a thread has left before it takes an operation or goes to sleep.\<close>

fun moves_left :: "pc \<Rightarrow> nat" where
  "moves_left (In_Op n op) = 5"
| "moves_left (After_Op n) = 4"
| "moves_left (Work_Dec n) = 3"
| "moves_left (Push_Private n) = 2"
| "moves_left (At_Loop n) = 1"
| "moves_left p = 0"

definition to_sleep :: "thread \<Rightarrow> nat" where
  "to_sleep t = (if is_outside (th_pc t) then (if th_must_stop t then 0 else 2) else moves_left (th_pc t))"

lemma to_sleep_le: "to_sleep t \<le> 5"
  by (cases "th_pc t") (auto simp: to_sleep_def)

text \<open>A step keeps away from the reactor and is paid for by the operation it begins, if any.\<close>

definition pays :: "thread \<Rightarrow> shared \<Rightarrow> thread \<Rightarrow> bool" where
  "pays t sh' t' \<longleftrightarrow>
     list_all is_work (sch_op_queue (sh_sched sh')) \<and> off_reactor (th_pc t') \<and>
     to_sleep t' + moved t t' \<le> to_sleep t + 6 * length (begins t t')"

lemma pays_same_place:
  assumes "list_all is_work (sch_op_queue (sh_sched sh'))" "off_reactor (th_pc t)" "th_pc t' = th_pc t"
    "th_must_stop t \<longrightarrow> th_must_stop t'"
  shows "pays t sh' t'"
  using assms by (simp add: pays_def moved_def to_sleep_def begins_def)

lemma pays_turn:
  assumes "loop_head s = (s', nx)" "\<not> sch_stopped s" "list_all is_work (sch_op_queue s)"
    and "\<nexists>n op. th_pc t = In_Op n op" "\<not> is_outside (th_pc t)" "nx = Block \<longrightarrow> moves_left (th_pc t) = 1"
    and "sh_sched sh' = s'" "th_pc t' = th_pc (goto_next n nx t2)"
  shows "pays t sh' t'"
proof (cases s rule: loop_head_cases)
  case (op op q)
  with assms(1) have nx: "nx = Complete op" "sch_op_queue s' = q"
    by (auto simp: loop_head_simps frame_simps)
  with assms(8) have pc: "th_pc t' = In_Op n op" by simp
  with assms(4) have "th_pc t' \<noteq> th_pc t" by metis
  with op nx pc assms(3,7) show ?thesis by (simp add: pays_def moved_def to_sleep_def begins_def)
next
  case block
  with assms(1) have nx: "nx = Block" "sch_op_queue s' = []"
    by (auto simp: loop_head_simps frame_simps)
  with assms show ?thesis by (simp add: pays_def moved_def to_sleep_def begins_def)
qed (use assms(2,3) in auto)

lemma handed_over_work:
  assumes "list_all is_work (sch_op_queue s)"
  shows "is_work op \<Longrightarrow> list_all is_work (sch_op_queue (do_dispatch op s))"
    and "is_work op \<Longrightarrow> post_immediate_completion self op c s stk = (s', stk') \<Longrightarrow> list_all is_work (sch_op_queue s')"
    and "list_all is_work ops \<Longrightarrow> post_deferred_completions self ops s stk = (s', stk2, lost) \<Longrightarrow>
      list_all is_work (sch_op_queue s')"
  using assms
  by (auto simp: do_dispatch_def post_immediate_completion_def post_deferred_completions_def
      frame_simps push_op_def oq_push_def oq_splice_def work_started_def Let_def split: if_splits option.splits)

lemma reactor_ops_are_work: "list_all is_work (map Reactor_Op is)"
  by (induction "is") simp_all

lemma local_step_pays:
  assumes "local_step self sh t sh' t'" "\<not> sch_stopped (sh_sched sh)" "\<not> sch_stopped (sh_sched sh')"
    and "\<not> threw (th_pc t')" "sch_task (sh_sched sh') = None"
    and "list_all is_work (sch_op_queue (sh_sched sh))" "off_reactor (th_pc t)"
  shows "pays t sh' t'"
  using assms(1)
proof (cases rule: local_step.cases)
  case (turn n s' nx)
  with assms show ?thesis by (intro pays_turn [where s = "sh_sched sh"]) auto
next
  case (wake n s' nx)
  show ?thesis
  proof (cases "sh_sched sh" rule: wait_return_cases)
    case turn
    show ?thesis
    proof (cases "nx = Block")
      case True
      with turn wake assms show ?thesis
        by (intro pays_same_place) (auto simp: loop_head_def frame_simps Let_def split: list.splits if_splits)
    next
      case False
      with turn wake assms show ?thesis
        by (intro pays_turn [where s = "(sh_sched sh)\<lparr>sch_wakeup_event := waiter_leave (sch_wakeup_event (sh_sched sh))\<rparr>"])
          auto
    qed
  next
    case block
    with wake assms show ?thesis by (intro pays_same_place) auto
  qed
next
  case (call_post op' c s' stk)
  with handed_over_work(2) [OF assms(6) _ call_post(5)] assms(7) show ?thesis
    by (auto intro: pays_same_place)
next
  case (call_dispatch op')
  with handed_over_work(1) [OF assms(6)] assms(7) show ?thesis by (auto intro: pays_same_place)
next
  case (call_cancel_ops "is" s' stk lost)
  with handed_over_work(3) [OF assms(6) reactor_ops_are_work call_cancel_ops(5)] assms(7) show ?thesis
    by (auto intro: pays_same_place)
next
  case (call_init_task r)
  with assms(5) have "sch_op_queue (sh_sched sh') = sch_op_queue (sh_sched sh)"
    by (simp add: init_task_def frame_simps push_op_def split: if_splits)
  with call_init_task assms(6,7) show ?thesis by (intro pays_same_place) simp_all
next
  case (must_stop)
  with assms(3) show ?thesis by (simp add: frame_simps)
next
  case (call_stop)
  with assms(3) show ?thesis by (simp add: frame_simps)
qed (use assms(4,6,7) in \<open>auto simp: pays_def begins_def
    moved_def to_sleep_def set_info_def may_call_def work_started_def sch_restart_def dest: queue_kept\<close>)

subsection \<open>Executions\<close>

lemma task_kept:
  "loop_head s = (s', nx) \<Longrightarrow> sch_task s' = sch_task s"
  "decrement_work s = (s', z) \<Longrightarrow> sch_task s' = sch_task s"
  "flush_private_work s ti = (s', ti') \<Longrightarrow> sch_task s' = sch_task s"
  "push_private_queue s ti = (s', ti') \<Longrightarrow> sch_task s' = sch_task s"
  "post_immediate_completion self op c s stk = (s', stk') \<Longrightarrow> sch_task s' = sch_task s"
  "post_deferred_completions self ops s stk = (s', stk2, lost) \<Longrightarrow> sch_task s' = sch_task s"
  by (auto simp: loop_head_def decrement_work_eq flush_private_work_def push_private_queue_eq oq_splice_def
      post_immediate_completion_def post_deferred_completions_def push_op_def work_started_def frame_simps Let_def
      split: if_splits option.splits)

lemma task_kept_locked:
  "wait_return s = (s', nx) \<Longrightarrow> sch_task s' = sch_task s"
  "task_cleanup_locked s ti = (s', ti') \<Longrightarrow> sch_task s' = sch_task s"
  by (cases s rule: wait_return_cases)
    (auto simp: task_cleanup_locked_def push_op_def split: prod.splits dest!: task_kept)

lemma task_stays:
  "local_step self sh t sh' t' \<Longrightarrow> sch_task (sh_sched sh') = None \<Longrightarrow> sch_task (sh_sched sh) = None"
  by (erule local_step.cases)
    (auto simp: init_task_def push_op_def work_started_def sch_restart_def frame_simps do_dispatch_def
      eq_commute [of _ "post_deferred_completions self ops s stk" for ops s stk]
      split: if_splits dest: task_kept task_kept_locked dest!: task_kept(1))

lemma busy_run_costs:
  assumes "busy_run self sy m l sy'" "only_work sy" "sch_task (sh_sched (fst sy')) = None"
  shows "only_work sy' \<and>
    sum_list (map to_sleep (snd sy')) + m + 5 * length (snd sy) \<le>
      sum_list (map to_sleep (snd sy)) + 6 * length (calls l) + 5 * length (snd sy')"
  using assms
proof induction
  case (spawn m l sh ts)
  then show ?case using to_sleep_le [of new_thread] by (auto simp: only_work_def new_thread_def)
next
  case (step m l sh ts i sh' t')
  have "sch_task (sh_sched sh) = None" using task_stays step.hyps(3) step.prems(2) by simp
  with step.IH step.prems have IH: "list_all is_work (sch_op_queue (sh_sched sh))"
      "\<forall>t \<in> set ts. off_reactor (th_pc t)"
      "sum_list (map to_sleep ts) + m + 5 * length (snd sy) \<le>
        sum_list (map to_sleep (snd sy)) + 6 * length (calls l) + 5 * length ts"
    by (simp_all add: only_work_def)
  have "\<not> sch_stopped (sh_sched sh)" using busy_run_runs [OF step.hyps(1)] by simp
  then have "pays (ts ! i) sh' t'"
    using local_step_pays [OF step.hyps(3) _ step.hyps(4,5)] step.prems(2) IH step.hyps(2) by simp
  moreover have "sum_list (map to_sleep (ts[i := t'])) + to_sleep (ts ! i) = sum_list (map to_sleep ts) + to_sleep t'"
    using sum_list_map_update_nat [OF step.hyps(2)] .
  ultimately show ?case
    using IH step.hyps(2) by (auto simp: pays_def only_work_def dest: subsetD [OF set_update_subset_insert])
qed simp

text \<open>C9. \<open>run\<close> does not spin. In a scheduler without a reactor, however many threads run it, however
  they are interleaved and however often they wake without reason, the threads together make at most
  six moves for every operation they call and five for each thread: between two calls they come to
  rest. As every operation handed over is called at most once, what is posted is done after a number
  of moves in proportion to it.\<close>

theorem moves_are_paid_by_calls:
  assumes "busy_run self (sh0, ts0) m l (sh, ts)"
    and "\<forall>op \<in> set (sch_op_queue (sh_sched sh0)). is_work op" and "\<forall>t \<in> set ts0. off_reactor (th_pc t)"
    and "sch_task (sh_sched sh) = None"
  shows "m \<le> 6 * length (calls l) + 5 * length ts"
proof -
  have "sum_list (map to_sleep ts0) \<le> 5 * length ts0"
    using to_sleep_le by (induction ts0) (auto intro: add_mono)
  with busy_run_costs [OF assms(1)] assms(2-4) show ?thesis
    by (simp add: only_work_def list_all_iff)
qed

theorem moves_are_paid_by_calls_witness:
  "6 \<le> 6 * length (calls [Called (Executor_Op 7)]) + 5 * length [demo_at (Waiting 1)]"
proof (rule moves_are_paid_by_calls)
  show "busy_run 0 (\<lparr>sh_sched = demo_posted, sh_pending = {#5#}, sh_guards = 0\<rparr>, [demo_at (At_Loop 0)]) 6
      [Called (Executor_Op 7)] (demo_asleep, [demo_at (Waiting 1)])"
    by (rule demo_busy_run)
  show "sch_task (sh_sched demo_asleep) = None"
    by (simp add: demo_asleep_def demo_taken_head)
       (simp add: demo_taken_def demo_posted_def do_dispatch_def push_op_def work_started_def
        scheduler_ctor_def demo_raw_def frame_simps)
qed (simp_all add: demo_posted_eq demo_at_def)

end
