(* ===== verification/Reactor_System.thy ===== *)
theory Reactor_System
  imports Reactor_Properties Histories
begin

text \<open>
  The system of threads with the reactor itself: descriptors with their queues of operations, events,
  and the calls that start, perform and cancel operations, interleaved with everything the threads of
  Threads do. Where the code gives up the lock of a descriptor before it turns to the scheduler
  (\<open>cancel_ops\<close>, \<open>deregister_descriptor\<close>, \<open>perform_io\<close>, and \<open>start_op\<close> when its speculative \<open>perform\<close>
  settled the operation), a call is two steps with the operations on their way in between. The other
  ways through \<open>start_op\<close> keep the lock and turn to the scheduler once, at their end.
\<close>

subsection \<open>The first part of start_op\<close>

text \<open>
  Up to \<open>lock.unlock()\<close> (\<^verbatim>\<open>epoll_reactor.cc:173\<close>): the reactor after a speculative \<open>perform\<close> that settled
  the operation. None: the call goes another way.
\<close>

definition start_speculation ::
    "'io perform \<Rightarrow> op_type \<Rightarrow> nat option \<Rightarrow> nat \<Rightarrow> bool \<Rightarrow> 'io reactor \<Rightarrow> 'io reactor option" where
  "start_speculation perform ot descriptor_data op allow_speculative rx =
     (case descriptor_data of
        None \<Rightarrow> None
      | Some d \<Rightarrow>
         (case deref rx d of
            None \<Rightarrow> None
          | Some ds \<Rightarrow>
             if \<not> ds_shutdown ds \<and> oq_empty (ds_op_queue ds ot) \<and> allow_speculative \<and>
                (ot \<noteq> Read_Op \<or> oq_empty (ds_op_queue ds Except_Op)) \<and> ds_try_speculative ds ot
             then (let (status, rx1) = call_perform perform op rx
                   in if status = Not_Done then None
                      else Some (if status = Done_And_Exhausted \<and> ds_registered_events ds \<noteq> 0
                        then write_ds d (ds\<lparr>ds_try_speculative := (ds_try_speculative ds)(ot := False)\<rparr>) rx1
                        else rx1))
             else None))"

text \<open>That part and \<open>post_immediate_completion\<close> are the whole call.\<close>

lemma start_speculation_whole:
  "start_speculation perform ot data op spec rx = Some rx' \<Longrightarrow>
   start_op perform ctl self ot fd data op c spec (rx, s, stk) = Inr (reactor_post_immediate self op c (rx', s, stk))"
  by (auto simp: start_speculation_def start_op_def split: option.splits if_splits prod.splits)

lemma start_speculation_pending:
  assumes "start_speculation perform ot data op spec rx = Some rx'"
  shows "pending rx' = pending rx"
proof -
  obtain d ds status rx1 where ds: "deref rx d = Some ds" and pf: "call_perform perform op rx = (status, rx1)"
    and rx': "rx' = rx1 \<or> rx' = write_ds d (ds\<lparr>ds_try_speculative := (ds_try_speculative ds)(ot := False)\<rparr>) rx1"
    using assms by (auto simp: start_speculation_def split: option.splits if_splits prod.splits)
  note heap = heap_kept(2) [OF pf]
  from rx' show ?thesis
    using same_heap(1) [OF heap] pending_write_more [where rx = rx1 and m = "{#}" and ds = ds and d = d] ds same_heap(2) [OF heap]
    by (auto simp: ds_pending_def)
qed

subsection \<open>Steps\<close>

text \<open>
  Where a thread is in a call that gave up the descriptor's lock: the operations it has taken from the
  descriptor and not yet given to the scheduler, or the one it is starting, and its
  \<open>is_continuation\<close>.
\<close>

datatype in_flight = Idle | Starting nat bool | Cancelling "nat list" | Performed "nat list"

fun flight_ops :: "in_flight \<Rightarrow> nat list" where
  "flight_ops Idle = []"
| "flight_ops (Starting op c) = []"
| "flight_ops (Cancelling q) = q"
| "flight_ops (Performed q) = q"

text \<open>What one thread sees: the reactor, the scheduler, the work guards, itself and what it has in flight.\<close>

type_synonym 'io view = "'io reactor \<times> scheduler \<times> nat \<times> thread \<times> in_flight"

abbreviation alone :: "scheduler \<Rightarrow> nat \<Rightarrow> shared" where
  "alone s g \<equiv> \<lparr>sh_sched = s, sh_pending = {#}, sh_guards = g\<rparr>"

definition with_reactor :: "thread \<Rightarrow> bool" where
  "with_reactor t \<longleftrightarrow>
     (case th_pc t of In_Task n u \<Rightarrow> True | In_Op n (Descriptor_State d) \<Rightarrow> True | _ \<Rightarrow> False)"

inductive io_step ::
    "'io perform \<Rightarrow> 'io epoll_ctl \<Rightarrow> nat \<Rightarrow> 'io view \<Rightarrow> log_entry list \<Rightarrow> 'io view \<Rightarrow> bool"
  for perform :: "'io perform" and ctl :: "'io epoll_ctl" and self :: nat
where
  own_post:
    "user_post self (alone s g) t e (alone s' g') t' \<Longrightarrow>
     io_step perform ctl self (rx, s, g, t, Idle) [e] (rx, s', g', t', Idle)"
| own_step:
    "\<not> with_reactor t \<Longrightarrow> local_step self (alone s g) t (alone s' g') t' \<Longrightarrow>
     \<nexists>e. user_post self (alone s g) t e (alone s' g') t' \<Longrightarrow>
     io_step perform ctl self (rx, s, g, t, Idle) (map Called (begins t t')) (rx, s', g', t', Idle)"
| register:
    "may_call t \<Longrightarrow> register_descriptor ctl fd rx = (e, d, rx') \<Longrightarrow>
     io_step perform ctl self (rx, s, g, t, Idle) [] (rx', s, g, t, Idle)"
| start:
    "may_call t \<Longrightarrow> start_speculation perform ot data op spec rx = None \<Longrightarrow>
     start_op perform ctl self ot fd data op c spec (rx, s, th_stack t) = Inr (rx', s', stk) \<Longrightarrow>
     io_step perform ctl self (rx, s, g, t, Idle) [Posted (Reactor_Op op)]
       (rx', s', g, t\<lparr>th_stack := stk\<rparr>, Idle)"
| start_speculated:
    "may_call t \<Longrightarrow> start_speculation perform ot data op spec rx = Some rx' \<Longrightarrow>
     io_step perform ctl self (rx, s, g, t, Idle) [] (rx', s, g, t, Starting op c)"
| started:
    "may_call t \<Longrightarrow> post_immediate_completion self (Reactor_Op op) c s (th_stack t) = (s', stk) \<Longrightarrow>
     io_step perform ctl self (rx, s, g, t, Starting op c) [Posted (Reactor_Op op)]
       (rx, s', g, t\<lparr>th_stack := stk\<rparr>, Idle)"
| cancel:
    "may_call t \<Longrightarrow> cancel_locked data rx = Some (Inr (Some (map Reactor_Op q), rx')) \<Longrightarrow>
     io_step perform ctl self (rx, s, g, t, Idle) [] (rx', s, g, t, Cancelling q)"
| deregister:
    "may_call t \<Longrightarrow> deregister_locked ctl fd data closing rx = Some (Inr (Some (map Reactor_Op q), rx')) \<Longrightarrow>
     io_step perform ctl self (rx, s, g, t, Idle) [] (rx', s, g, t, Cancelling q)"
| cancelled:
    "may_call t \<Longrightarrow> post_deferred_completions self (map Reactor_Op q) s (th_stack t) = (s', stk, lost) \<Longrightarrow>
     io_step perform ctl self (rx, s, g, t, Cancelling q) []
       (rx, s', g, t\<lparr>th_stack := stk, th_leaked := th_leaked t @ lost\<rparr>, Idle)"
| task:
    "th_pc t = In_Task n u \<Longrightarrow> reactor_run events rx (private_op_queue (th_info self t)) = Inr (rx', ops') \<Longrightarrow>
     io_step perform ctl self (rx, s, g, t, Idle) []
       (rx', s, g, set_info self ((th_info self t)\<lparr>private_op_queue := ops'\<rparr>) (t\<lparr>th_pc := Task_Done n\<rparr>), Idle)"
| perform:
    "th_pc t = In_Op n (Descriptor_State d) \<Longrightarrow>
     perform_locked perform d (ucast (bytes :: size_t)) rx = Inr (done_ops, rx') \<Longrightarrow> done_ops \<noteq> [] \<Longrightarrow>
     io_step perform ctl self (rx, s, g, t, Idle) [] (rx', s, g, t, Performed done_ops)"
| perform_nothing:
    "th_pc t = In_Op n (Descriptor_State d) \<Longrightarrow>
     perform_locked perform d (ucast (bytes :: size_t)) rx = Inr ([], rx') \<Longrightarrow>
     io_step perform ctl self (rx, s, g, t, Idle) []
       (rx', s, g, t\<lparr>th_pc := Threw Undefined_Behaviour, th_stack := cs_leave (th_stack t)\<rparr>, Idle)"
| performed:
    "th_pc t = In_Op n (Descriptor_State d) \<Longrightarrow> perform_posts self rest s (th_stack t) = (s', stk, lost) \<Longrightarrow>
     io_step perform ctl self (rx, s, g, t, Performed (op # rest)) [Called (Reactor_Op op)]
       (rx, s', g, t\<lparr>th_pc := In_Op n (Reactor_Op op), th_stack := stk, th_leaked := th_leaked t @ lost\<rparr>, Idle)"

record 'io io_system =
  io_reactor :: "'io reactor"
  io_sched :: scheduler
  io_guards :: nat
  io_threads :: "(thread \<times> in_flight) list"

inductive io_history ::
    "'io perform \<Rightarrow> 'io epoll_ctl \<Rightarrow> nat \<Rightarrow> 'io io_system \<Rightarrow> log_entry list \<Rightarrow> 'io io_system \<Rightarrow> bool"
  for perform :: "'io perform" and ctl :: "'io epoll_ctl" and self :: nat and w0 :: "'io io_system"
where
  start: "io_history perform ctl self w0 [] w0"
| spawn: "io_history perform ctl self w0 l w \<Longrightarrow>
    io_history perform ctl self w0 l (w\<lparr>io_threads := io_threads w @ [(new_thread, Idle)]\<rparr>)"
| step: "io_history perform ctl self w0 l w \<Longrightarrow> i < length (io_threads w) \<Longrightarrow>
    io_step perform ctl self
      (io_reactor w, io_sched w, io_guards w, fst (io_threads w ! i), snd (io_threads w ! i)) l'
      (rx, s, g, t, f) \<Longrightarrow>
    io_history perform ctl self w0 (l @ l')
      (w\<lparr>io_reactor := rx, io_sched := s, io_guards := g, io_threads := (io_threads w)[i := (t, f)]\<rparr>)"

subsection \<open>The steps of the threads\<close>

text \<open>
  The system of Threads the composition refines: what is pending there is what the descriptors hold
  and what is on its way from them.
\<close>

definition in_flight_ops :: "(thread \<times> in_flight) list \<Rightarrow> nat multiset" where
  "in_flight_ops ths = (\<Sum>(t, f) \<leftarrow> ths. mset (flight_ops f))"

definition threads_of :: "'io io_system \<Rightarrow> system" where
  "threads_of w =
     (\<lparr>sh_sched = io_sched w, sh_pending = pending (io_reactor w) + in_flight_ops (io_threads w),
       sh_guards = io_guards w\<rparr>, map fst (io_threads w))"

text \<open>A step that neither takes nor adds pending operations does not look at them.\<close>

lemmas local_step_at =
  local_step.intros [where sh = "\<lparr>sh_sched = s, sh_pending = P, sh_guards = g\<rparr>" for s P g,
    unfolded shared.select_convs shared.update_convs]

lemma local_step_pending:
  assumes "local_step self (alone s g) t (alone s' g') t'" "\<not> with_reactor t"
  shows "local_step self \<lparr>sh_sched = s, sh_pending = P, sh_guards = g\<rparr> t
    \<lparr>sh_sched = s', sh_pending = P, sh_guards = g'\<rparr> t'"
  using assms(1)
proof (cases rule: local_step.cases)
  case (call_cancel_ops "is" s'' stk lost)
  then have "is = []" by simp
  with call_cancel_ops local_step.call_cancel_ops [of t "[]" "\<lparr>sh_sched = s, sh_pending = P, sh_guards = g\<rparr>" self]
  show ?thesis by simp
next
  case (next_turn n)
  with local_step.next_turn [of t n self "\<lparr>sh_sched = s, sh_pending = P, sh_guards = g\<rparr>"]
  show ?thesis by simp
qed (use assms(2) in \<open>auto simp: with_reactor_def intro: local_step_at\<close>)

lemma user_post_any_pending:
  assumes "user_post self \<lparr>sh_sched = s, sh_pending = P, sh_guards = g\<rparr> t e
    \<lparr>sh_sched = s', sh_pending = P, sh_guards = g'\<rparr> t'"
  shows "user_post self \<lparr>sh_sched = s, sh_pending = Q, sh_guards = g\<rparr> t e
    \<lparr>sh_sched = s', sh_pending = Q, sh_guards = g'\<rparr> t'"
  using assms
proof cases
  case (immediate op c s'' stk)
  with user_post.immediate [of t op self c "\<lparr>sh_sched = s, sh_pending = Q, sh_guards = g\<rparr>" s'' stk]
  show ?thesis by simp
next
  case (dispatched op)
  with user_post.dispatched [of t op self "\<lparr>sh_sched = s, sh_pending = Q, sh_guards = g\<rparr>"]
  show ?thesis by simp
next
  case (op_started i)
  then show ?thesis by simp
qed

text \<open>One step of the composition is none, a post or another step of the thread.\<close>

definition refined_step :: "nat \<Rightarrow> shared \<Rightarrow> thread \<Rightarrow> log_entry list \<Rightarrow> shared \<Rightarrow> thread \<Rightarrow> bool" where
  "refined_step self sh t l sh' t' \<longleftrightarrow>
     (sh' = sh \<and> t' = t \<and> l = []) \<or>
     (\<exists>e. user_post self sh t e sh' t' \<and> posts l = posted_in e \<and> calls l = []) \<or>
     (local_step self sh t sh' t' \<and> (\<nexists>e. user_post self sh t e sh' t') \<and> l = map Called (begins t t'))"

abbreviation seen :: "'io reactor \<Rightarrow> scheduler \<Rightarrow> nat \<Rightarrow> in_flight \<Rightarrow> nat multiset \<Rightarrow> shared" where
  "seen rx s g f R \<equiv> \<lparr>sh_sched = s, sh_pending = pending rx + mset (flight_ops f) + R, sh_guards = g\<rparr>"

lemma refined_stutter: "refined_step self sh t [] sh t"
  by (simp add: refined_step_def)

lemma refined_post:
  "user_post self sh t e sh' t' \<Longrightarrow> posts l = posted_in e \<Longrightarrow> calls l = [] \<Longrightarrow> refined_step self sh t l sh' t'"
  by (auto simp: refined_step_def)

lemma refined_work:
  "local_step self sh t sh' t' \<Longrightarrow> \<nexists>e. user_post self sh t e sh' t' \<Longrightarrow> l = map Called (begins t t') \<Longrightarrow>
   refined_step self sh t l sh' t'"
  by (auto simp: refined_step_def)

text \<open>A step that moves on, or that hands nothing new over, is no post.\<close>

lemma no_post:
  "th_pc t' \<noteq> th_pc t \<Longrightarrow> \<nexists>e. user_post self sh t e sh' t'"
  "th_ok self t \<Longrightarrow> sh_held sh' + th_held t' = sh_held sh + th_held t \<Longrightarrow> \<nexists>e. user_post self sh t e sh' t'"
proof -
  show "\<nexists>e. user_post self sh t e sh' t'" if "th_pc t' \<noteq> th_pc t"
    using that user_post_stays by blast
  have "posted_in e \<noteq> []" if "user_post self sh t e sh' t'" for e
    using that by cases simp_all
  then show "\<nexists>e. user_post self sh t e sh' t'"
    if "th_ok self t" "sh_held sh' + th_held t' = sh_held sh + th_held t"
    using that user_post_held(1) [of self sh t _ sh' t'] by fastforce
qed

lemma task_refines:
  assumes "th_pc t = In_Task n u"
    and "reactor_run events rx (private_op_queue (th_info self t)) = Inr (rx', ops')"
  shows "refined_step self (seen rx s g f R) t []
    (seen rx' s g f R) (set_info self ((th_info self t)\<lparr>private_op_queue := ops'\<rparr>) (t\<lparr>th_pc := Task_Done n\<rparr>))"
proof -
  obtain ds where "ops' = private_op_queue (th_info self t) @ map Descriptor_State ds" "pending rx' = pending rx"
    using reactor_run_appends [OF assms(2)] by blast
  with local_step.task_run [OF assms(1), of _ self ds "seen rx s g f R"] assms(1) show ?thesis
    by (intro refined_work no_post) (simp_all add: begins_def set_info_def)
qed

lemma cancelled_refines:
  assumes "may_call t" "th_ok self t"
    and "post_deferred_completions self (map Reactor_Op q) s (th_stack t) = (s', stk, lost)"
  shows "refined_step self (seen rx s g (Cancelling q) R) t [] (seen rx s' g Idle R)
    (t\<lparr>th_stack := stk, th_leaked := th_leaked t @ lost\<rparr>)"
proof (rule refined_work)
  show "local_step self (seen rx s g (Cancelling q) R) t (seen rx s' g Idle R)
      (t\<lparr>th_stack := stk, th_leaked := th_leaked t @ lost\<rparr>)"
    using local_step.call_cancel_ops [OF assms(1), of q "seen rx s g (Cancelling q) R" self s' stk lost] assms(3)
    by (simp add: ac_simps)
  show "\<nexists>e. user_post self (seen rx s g (Cancelling q) R) t e (seen rx s' g Idle R)
      (t\<lparr>th_stack := stk, th_leaked := th_leaked t @ lost\<rparr>)"
    using post_deferred_held [OF assms(3) th_ok_stack [OF assms(2)]]
    by (intro no_post(2) [OF assms(2)]) (simp add: sh_held_def th_held_def ac_simps)
qed (simp add: begins_def)

lemma performed_refines:
  assumes "th_pc t = In_Op n (Descriptor_State d)"
    and "perform_posts self rest s (th_stack t) = (s', stk, lost)"
  shows "refined_step self (seen rx s g (Performed (op # rest)) R) t [Called (Reactor_Op op)] (seen rx s' g Idle R)
    (t\<lparr>th_pc := In_Op n (Reactor_Op op), th_stack := stk, th_leaked := th_leaked t @ lost\<rparr>)"
proof (rule refined_work)
  show "local_step self (seen rx s g (Performed (op # rest)) R) t (seen rx s' g Idle R)
      (t\<lparr>th_pc := In_Op n (Reactor_Op op), th_stack := stk, th_leaked := th_leaked t @ lost\<rparr>)"
    using local_step.perform_io [OF assms(1), of op rest "seen rx s g (Performed (op # rest)) R" s' stk lost self] assms(2)
    by (simp add: perform_posts_def ac_simps split: if_splits)
qed (use assms(1) in \<open>simp_all add: no_post begins_def\<close>)

lemma start_refines:
  assumes "may_call t"
    and "start_op perform ctl self ot fd data op c spec (rx, s, th_stack t) = Inr (rx', s', stk)"
  shows "refined_step self (seen rx s g Idle R) t [Posted (Reactor_Op op)] (seen rx' s' g Idle R) (t\<lparr>th_stack := stk\<rparr>)"
proof -
  consider "pending rx' = pending rx"
      "post_immediate_completion self (Reactor_Op op) c s (th_stack t) = (s', stk)"
    | "pending rx' = add_mset op (pending rx)" "s' = work_started s" "stk = th_stack t"
    using start_op_outcome [OF assms(2)] by (auto simp: posted_def left_pending_def)
  then show ?thesis
  proof cases
    case 1
    with user_post.immediate [OF assms(1), of "Reactor_Op op" self c "seen rx s g Idle R" s' stk]
    show ?thesis by (intro refined_post) (auto simp: calls_def split: if_splits)
  next
    case 2
    with user_post.op_started [OF assms(1), where self = self and i = op and sh = "seen rx s g Idle R"]
    show ?thesis by (intro refined_post) (auto simp: calls_def)
  qed
qed

lemma started_refines:
  assumes "may_call t" "post_immediate_completion self (Reactor_Op op) c s (th_stack t) = (s', stk)"
  shows "refined_step self (seen rx s g (Starting op c) R) t [Posted (Reactor_Op op)] (seen rx s' g Idle R)
    (t\<lparr>th_stack := stk\<rparr>)"
  using user_post.immediate [OF assms(1), of "Reactor_Op op" self c "seen rx s g (Starting op c) R" s' stk] assms(2)
  by (intro refined_post) (auto simp: calls_def split: if_splits)

lemma own_step_refines:
  assumes "\<not> with_reactor t" "local_step self (alone s g) t (alone s' g') t'"
    and "\<nexists>e. user_post self (alone s g) t e (alone s' g') t'"
  shows "refined_step self (seen rx s g Idle R) t (map Called (begins t t')) (seen rx s' g' Idle R) t'"
proof (rule refined_work)
  show "local_step self (seen rx s g Idle R) t (seen rx s' g' Idle R) t'"
    using local_step_pending [OF assms(2,1)] by simp
  show "\<nexists>e. user_post self (seen rx s g Idle R) t e (seen rx s' g' Idle R) t'"
    using assms(3) user_post_any_pending [where Q = "{#}"] by simp blast
qed simp

lemma io_step_refines:
  assumes "io_step perform ctl self (rx, s, g, t, f) l (rx', s', g', t', f')" "th_ok self t"
  shows "refined_step self (seen rx s g f R) t l (seen rx' s' g' f' R) t'"
  using assms(1)
proof cases
  case (own_post e)
  have "user_post self (seen rx s g f R) t e (seen rx' s' g' f' R) t'"
    using user_post_any_pending [OF own_post(5)] own_post(1-4) by simp
  then show ?thesis
    using user_post_held(2) [OF own_post(5) assms(2)] own_post(2) by (auto intro: refined_post)
next
  case own_step
  note this(1-4) [simp]
  from own_step_refines [OF own_step(5,6,7), where rx = rx and R = R] show ?thesis by simp
next
  case (register fd e d)
  then show ?thesis by (simp add: refined_stutter register_pending)
next
  case (start ot fd data op c spec stk)
  note this(1-5) [simp]
  from start_refines [OF start(6,8), where g = g and R = R] show ?thesis by simp
next
  case (start_speculated ot data op spec c)
  then show ?thesis by (simp add: refined_stutter start_speculation_pending)
next
  case (started op c stk)
  note this(1-6) [simp]
  from started_refines [OF started(7,8), where rx = rx and g = g and R = R] show ?thesis by simp
next
  case (cancel data q)
  with cancel_takes [OF cancel(8)] show ?thesis by (simp add: refined_step_def)
next
  case (deregister fd data closing q)
  with deregister_takes [OF deregister(8)] show ?thesis by (simp add: refined_step_def)
next
  case (cancelled q stk lost)
  note this(1-6) [simp]
  from cancelled_refines [OF cancelled(7) assms(2) cancelled(8), where rx = rx and g = g and R = R] show ?thesis by simp
next
  case (task n u events ops')
  note this(1-6) [simp]
  from task_refines [OF task(7,8), where s = s and g = g and f = Idle and R = R] show ?thesis by simp
next
  case (perform n d bytes done_ops)
  with perform_locked_pending [OF perform(8)] show ?thesis by (simp add: refined_step_def)
next
  case (perform_nothing n d bytes)
  with perform_locked_pending [OF perform_nothing(8)]
    local_step.perform_io_nothing [of t n d self "seen rx s g f R"] show ?thesis
    by (intro refined_work no_post) (simp_all add: begins_def)
next
  case (performed n d rest stk lost op)
  note this(1-6) [simp]
  from performed_refines [OF performed(7,8), where rx = rx and g = g and op = op and R = R] show ?thesis by simp
qed

subsection \<open>The composition refines the system of threads\<close>

lemma in_flight_at:
  assumes "i < length ths"
  shows "\<exists>R. in_flight_ops ths = mset (flight_ops (snd (ths ! i))) + R \<and>
    (\<forall>t f. in_flight_ops (ths[i := (t, f)]) = mset (flight_ops f) + R)"
proof -
  have split: "in_flight_ops (a @ b) = in_flight_ops a + in_flight_ops b"
    "in_flight_ops ((t, f) # a) = mset (flight_ops f) + in_flight_ops a" for a b t f
    by (simp_all add: in_flight_ops_def)
  have "in_flight_ops ths = in_flight_ops (take i ths @ ths ! i # drop (Suc i) ths)"
    using id_take_nth_drop [OF assms] by simp
  then show ?thesis
    using assms by (cases "ths ! i") (simp add: split upd_conv_take_nth_drop ac_simps)
qed

lemma refined_step_history:
  assumes "history self sy l (sh, ts)" "i < length ts" "refined_step self sh (ts ! i) l' sh' t'"
  shows "\<exists>l1. history self sy l1 (sh', ts[i := t']) \<and> posts l1 = posts (l @ l') \<and> calls l1 = calls (l @ l')"
  using assms(3) unfolding refined_step_def
proof (elim disjE exE conjE)
  fix e assume "user_post self sh (ts ! i) e sh' t'" "posts l' = posted_in e" "calls l' = []"
  moreover from this(1) have "called_in e = []" by cases simp_all
  ultimately show ?thesis using history.post [OF assms(1,2)] by fastforce
next
  assume "local_step self sh (ts ! i) sh' t'" "\<nexists>e. user_post self sh (ts ! i) e sh' t'"
    "l' = map Called (begins (ts ! i) t')"
  with history.work [OF assms(1,2)] show ?thesis by fastforce
qed (use assms(1) in auto)

definition initial_io :: "scheduler \<Rightarrow> int \<Rightarrow> 'io reactor \<Rightarrow> 'io io_system" where
  "initial_io raw hint rx =
     \<lparr>io_reactor = rx, io_sched = scheduler_ctor raw hint, io_guards = 0, io_threads = []\<rparr>"

lemma threads_of_initial:
  "pending rx = {#} \<Longrightarrow> threads_of (initial_io raw hint rx) = (initial_shared raw hint, [])"
  by (simp add: threads_of_def initial_io_def initial_shared_def in_flight_ops_def)

lemma io_history_refines:
  assumes "io_history perform ctl self w0 l w" "reachable self (threads_of w0)"
  shows "\<exists>l'. history self (threads_of w0) l' (threads_of w) \<and> posts l' = posts l \<and> calls l' = calls l"
  using assms(1)
proof induction
  case start
  show ?case by (intro exI [of _ "[]"] conjI HOL.refl history.start)
next
  case (spawn l w)
  then obtain l' where "history self (threads_of w0) l' (threads_of w)" "posts l' = posts l" "calls l' = calls l"
    by blast
  with history.spawn [of self "threads_of w0" l' "fst (threads_of w)" "snd (threads_of w)"]
  show ?case by (auto simp: threads_of_def in_flight_ops_def)
next
  case (step l w i l' rx s g t f)
  let ?ths = "io_threads w"
  from step.IH obtain l0 where l0: "history self (threads_of w0) l0 (threads_of w)"
      "posts l0 = posts l" "calls l0 = calls l"
    by blast
  obtain R where R: "in_flight_ops ?ths = mset (flight_ops (snd (?ths ! i))) + R"
      "in_flight_ops (?ths[i := (t, f)]) = mset (flight_ops f) + R"
    using in_flight_at [OF step.hyps(2)] by blast
  have ok: "th_ok self (fst (?ths ! i))"
    using reachable_inv [OF history_reachable [OF l0(1) assms(2)]] step.hyps(2)
    by (auto simp: system_inv_def threads_of_def)
  have "history self (threads_of w0) l0
      (seen (io_reactor w) (io_sched w) (io_guards w) (snd (?ths ! i)) R, map fst ?ths)"
    using l0(1) R(1) by (simp add: threads_of_def ac_simps)
  from refined_step_history [OF this, of i l' "seen rx s g f R" t] io_step_refines [OF step.hyps(3) ok, of R]
    l0 R step.hyps(2)
  show ?case by (simp add: threads_of_def map_update ac_simps)
qed

subsection \<open>An execution\<close>

text \<open>One thread registers a descriptor, starts an operation that has to wait, runs and blocks.\<close>

abbreviation demo_io :: "unit reactor \<Rightarrow> scheduler \<Rightarrow> thread \<Rightarrow> unit io_system" where
  "demo_io rx s t \<equiv> \<lparr>io_reactor = rx, io_sched = s, io_guards = 0, io_threads = [(t, Idle)]\<rparr>"

definition demo_started :: scheduler where
  "demo_started = work_started (scheduler_ctor demo_raw 2)"

definition demo_blocked :: scheduler where
  "demo_blocked = demo_started\<lparr>sch_wakeup_event := \<lparr>ev_state = 2\<rparr>\<rparr>"

definition demo_waits :: "unit reactor" where
  "demo_waits = demo_rx\<lparr>rx_registered := [(4, 0)],
     rx_heap := [Some ((fresh_descriptor 4)\<lparr>ds_op_queue := (\<lambda>_. [])(Read_Op := [5])\<rparr>)]\<rparr>"

lemma demo_started_eq:
  "sch_op_queue demo_started = []" "sch_outstanding_work demo_started = 1" "\<not> sch_stopped demo_started"
  "sch_wakeup_event demo_started = \<lparr>ev_state = 0\<rparr>" "\<not> sch_one_thread demo_started"
  by (simp_all add: demo_started_def work_started_def scheduler_ctor_def demo_raw_def ev_init_def)

lemma demo_blocked_head: "loop_head demo_started = (demo_blocked, Block)"
  using loop_head_block [of demo_started] demo_started_eq
  by (simp add: demo_blocked_def waiter_enter_def clear_flag_def)

lemma demo_blocked_eq: "\<not> sch_one_thread demo_blocked" "snd (wait_return demo_blocked) = Block"
  by (simp_all add: demo_blocked_def demo_started_eq wait_return_def waiter_leave_def flag_is_set_def Let_def)

lemma demo_waits_pending: "pending demo_waits = {#5#}"
  by (simp add: pending_def demo_waits_def demo_rx_def slot_pending_def ds_pending_def)

lemma demo_watched: "initial_events \<noteq> 0"
  by (simp add: initial_events_def EPOLLIN_def EPOLLPRI_def EPOLLERR_def EPOLLHUP_def EPOLLET_def)

lemma io_history_alone:
  assumes "io_history perform ctl self w0 l (demo_io rx s t)"
    and "io_step perform ctl self (rx, s, 0, t, Idle) l' (rx', s', 0, t', Idle)"
  shows "io_history perform ctl self w0 (l @ l') (demo_io rx' s' t')"
  using io_history.step [OF assms(1), of 0 l' rx' s' 0 t' Idle] assms(2) by simp

lemma demo_io_history:
  "io_history perform_even ctl_ok 0 (initial_io demo_raw 2 demo_rx) [Posted (Reactor_Op 5)]
     (demo_io demo_waits demo_blocked (demo_at (Waiting 0)))"
proof -
  let ?io = "io_history perform_even ctl_ok 0 (initial_io demo_raw 2 demo_rx)"
  let ?rx = "demo_rx\<lparr>rx_heap := [Some (fresh_descriptor 4)], rx_registered := [(4, 0)]\<rparr>"
  have "?io [] (demo_io demo_rx (scheduler_ctor demo_raw 2) new_thread)"
    using io_history.spawn [OF io_history.start, of perform_even ctl_ok 0 "initial_io demo_raw 2 demo_rx"]
    by (simp add: initial_io_def)
  moreover have "register_descriptor ctl_ok 4 demo_rx = (0, 0, ?rx)"
    by (simp add: register_descriptor_def demo_rx_def map_assign_def call_ctl_def ctl_ok_def)
  ultimately have "?io [] (demo_io ?rx (scheduler_ctor demo_raw 2) new_thread)"
    using io_history_alone [OF _ io_step.register] demo_may_call by fastforce
  moreover have not_settled: "start_speculation perform_even Read_Op (Some 0) 5 True ?rx = None"
    by (simp add: start_speculation_def deref_def fresh_descriptor_def oq_empty_def call_perform_def perform_even_def)
  moreover have "start_op perform_even ctl_ok 0 Read_Op 4 (Some 0) 5 False True
      (?rx, scheduler_ctor demo_raw 2, []) = Inr (demo_waits, demo_started, [])"
    by (simp add: start_op_def deref_def start_after_speculation_def enqueue_op_def write_ds_def oq_empty_def
        oq_push_def fresh_descriptor_def demo_watched demo_waits_def demo_started_def)
  ultimately have "?io [Posted (Reactor_Op 5)] (demo_io demo_waits demo_started new_thread)"
    using io_history_alone [OF _ io_step.start [OF demo_may_call not_settled], where ctl = ctl_ok and self = 0]
    by (fastforce simp: new_thread_def)
  moreover have "local_step 0 (alone demo_started 0) new_thread (alone demo_started 0) (demo_at (At_Loop 0))"
    using local_step.run_enter [of new_thread "alone demo_started 0" 0]
    by (simp add: new_thread_def demo_at_def cs_enter_def demo_started_eq)
  ultimately have "?io [Posted (Reactor_Op 5)] (demo_io demo_waits demo_started (demo_at (At_Loop 0)))"
    using io_history_alone [OF _ io_step.own_step [OF _ _ no_post(1)]]
    by (fastforce simp: new_thread_def demo_at_def with_reactor_def begins_def)
  moreover have "local_step 0 (alone demo_started 0) (demo_at (At_Loop 0)) (alone demo_blocked 0) (demo_at (Waiting 0))"
    using local_step.turn [of "demo_at (At_Loop 0)" 0 "alone demo_started 0" demo_blocked Block 0]
    by (simp add: demo_blocked_head demo_at_def)
  ultimately show ?thesis
    using io_history_alone [OF _ io_step.own_step [OF _ _ no_post(1)]]
    by (fastforce simp: demo_at_def with_reactor_def begins_def)
qed

subsection \<open>What the composition guarantees\<close>

text \<open>C11. The whole of reactor and scheduler refines the system of threads. Every execution of any number
  of threads that post, run and stop, that register descriptors, start operations on them with any
  outcomes of the system calls, those that settle them at once included, cancel and close them, wait for any events and perform what became
  ready, where other threads may run between a thread's giving up a descriptor's lock and its turning
  to the scheduler, is an execution of the system in which operations only wait, with the same posts
  and the same calls.\<close>

theorem reactor_system_refines_threads:
  assumes "zeroed raw" and "pending rx = {#}"
    and "io_history perform ctl self (initial_io raw hint rx) l w"
  shows "\<exists>l'. history self (initial_shared raw hint, []) l' (threads_of w) \<and>
    posts l' = posts l \<and> calls l' = calls l"
  using io_history_refines [OF assms(3)] threads_of_initial [OF assms(2)] reachable.start [OF assms(1)] by simp

theorem reactor_system_refines_threads_witness:
  "\<exists>l'. history 0 (initial_shared demo_raw 2, []) l'
      (\<lparr>sh_sched = demo_blocked, sh_pending = {#5#}, sh_guards = 0\<rparr>, [demo_at (Waiting 0)]) \<and>
     posts l' = [Reactor_Op 5] \<and> calls l' = []"
proof -
  have "pending demo_rx = {#}" by (simp add: pending_def demo_rx_def)
  from reactor_system_refines_threads [OF demo_zeroed this demo_io_history] show ?thesis
    by (simp add: threads_of_def demo_waits_pending in_flight_ops_def posts_def calls_def)
qed

text \<open>C12. Nothing started on a descriptor is lost or completed twice, end to end. In the composition of
  reactor and scheduler for several threads, once every thread rests and has nothing in flight, and
  one that is blocked would go back to sleep, every operation ever posted or started has been called
  exactly as often as it was handed over, except the ones that are still in the queues of their
  descriptors.\<close>

theorem resting_reactor_holds_the_rest:
  assumes "zeroed raw" and "pending rx = {#}"
    and "io_history perform ctl self (initial_io raw hint rx) l w" and "hint \<noteq> 1"
    and "\<forall>(t, f) \<in> set (io_threads w). at_rest (th_pc t) \<and> f = Idle"
    and "nobody_threw (map fst (io_threads w))"
    and "(t, Idle) \<in> set (io_threads w)" and "waiting (th_pc t) = 1"
    and "snd (wait_return (io_sched w)) = Block"
  shows "mset (posts l) = mset (calls l) + image_mset Reactor_Op (pending (io_reactor w)) \<and>
    (distinct (posts l) \<longrightarrow> distinct (calls l)) \<and> \<not> sch_stopped (io_sched w)"
proof -
  obtain l' where l': "history self (initial_shared raw hint, []) l' (threads_of w)"
      "posts l' = posts l" "calls l' = calls l"
    using io_history_refines [OF assms(3)] threads_of_initial [OF assms(2)] reachable.start [OF assms(1)]
    by auto
  have rest: "\<forall>t \<in> set (map fst (io_threads w)). at_rest (th_pc t)" "t \<in> set (map fst (io_threads w))"
    using assms(5,7) by force+
  have "in_flight_ops ths = {#}" if "\<forall>(t, f) \<in> set ths. f = Idle" for ths
    using that by (induction ths) (auto simp: in_flight_ops_def)
  then have "in_flight_ops (io_threads w) = {#}" using assms(5) by blast
  then have sys: "threads_of w =
      (\<lparr>sh_sched = io_sched w, sh_pending = pending (io_reactor w), sh_guards = io_guards w\<rparr>,
       map fst (io_threads w))"
    by (simp add: threads_of_def)
  have "reachable self (threads_of w)" "\<not> sch_one_thread (io_sched w)"
    using history_reachable [OF l'(1) initial_reachable [OF assms(1)]] history_one_thread [OF l'(1)[unfolded sys]]
      assms(4) by (simp_all add: initial_one_thread)
  then have "held (threads_of w) = image_mset Reactor_Op (pending (io_reactor w))" "\<not> sch_stopped (io_sched w)"
    using rest_holds_pending [OF _ _ assms(6) rest assms(8), of self
        "\<lparr>sh_sched = io_sched w, sh_pending = pending (io_reactor w), sh_guards = io_guards w\<rparr>"] assms(9)
    by (simp_all add: sys)
  with history_counts [OF assms(1) l'(1)] l'(2,3) have
    "mset (posts l) = mset (calls l) + image_mset Reactor_Op (pending (io_reactor w))" by simp
  moreover from this have "distinct (calls l)" if "distinct (posts l)"
    using that by (metis distinct_append ex_mset mset_append mset_eq_imp_distinct_iff)
  ultimately show ?thesis using \<open>\<not> sch_stopped (io_sched w)\<close> by blast
qed

theorem resting_reactor_holds_the_rest_witness:
  "{#Reactor_Op 5#} = image_mset Reactor_Op (pending demo_waits) \<and> \<not> sch_stopped demo_blocked"
proof -
  have "pending demo_rx = {#}" by (simp add: pending_def demo_rx_def)
  from resting_reactor_holds_the_rest [OF demo_zeroed this demo_io_history, of "demo_at (Waiting 0)"] show ?thesis
    by (simp add: demo_blocked_eq nobody_threw_def demo_at_def posts_def calls_def)
qed

end
