(* ===== verification/Descriptor_Order.thy ===== *)
theory Descriptor_Order
  imports Reactor_System "HOL-Library.Sublist"
begin

text \<open>
  The order of the operations on one descriptor, in every execution of reactor and scheduler together:
  a queue of a descriptor only loses operations at its front and gains the one just started at its
  end, so what waits there stands in the order it was started in.
\<close>

subsection \<open>The operations that wait\<close>

definition waiting_on :: "'io reactor \<Rightarrow> nat \<Rightarrow> op_type \<Rightarrow> nat list" where
  "waiting_on rx d ot = (case deref rx d of None \<Rightarrow> [] | Some ds \<Rightarrow> ds_op_queue ds ot)"

lemma waiting_on_heap:
  assumes "rx_heap rx1 = rx_heap rx"
  shows "waiting_on rx1 d ot = waiting_on rx d ot"
  unfolding waiting_on_def same_heap(2) [OF assms] ..

lemma waiting_on_deref: "deref rx d = Some ds \<Longrightarrow> waiting_on rx d ot = ds_op_queue ds ot"
  by (simp add: waiting_on_def)

lemma waiting_on_write:
  assumes "deref rx d = Some ds" "rx_heap rx1 = rx_heap rx"
  shows "waiting_on (write_ds d ds' rx1) e ot = (if e = d then ds_op_queue ds' ot else waiting_on rx e ot)"
proof -
  have "d < length (rx_heap rx1)" using assms by (auto simp: deref_Some)
  then have "deref (write_ds d ds' rx1) e = (if e = d then Some ds' else deref rx e)"
    using same_heap(2) [OF assms(2), of e] by (simp add: deref_write_ds)
  then show ?thesis by (simp add: waiting_on_def)
qed

text \<open>What a step may do to a queue: take operations from its front, or append the one it starts.\<close>

definition takes :: "'io reactor \<Rightarrow> 'io reactor \<Rightarrow> bool" where
  "takes rx rx' \<longleftrightarrow> (\<forall>d ot. suffix (waiting_on rx' d ot) (waiting_on rx d ot))"

definition appends :: "nat \<Rightarrow> 'io reactor \<Rightarrow> 'io reactor \<Rightarrow> bool" where
  "appends op rx rx' \<longleftrightarrow>
     (\<forall>d ot. waiting_on rx' d ot = waiting_on rx d ot \<or> waiting_on rx' d ot = waiting_on rx d ot @ [op])"

lemma takes_refl: "takes rx rx"
  by (simp add: takes_def)

lemma takes_trans: "takes rx rx1 \<Longrightarrow> takes rx1 rx2 \<Longrightarrow> takes rx rx2"
  unfolding takes_def by (blast intro: suffix_order.trans)

lemma takes_write:
  assumes "deref rx d = Some ds" "rx_heap rx1 = rx_heap rx" "\<And>ot. suffix (ds_op_queue ds' ot) (ds_op_queue ds ot)"
  shows "takes rx (write_ds d ds' rx1)"
  unfolding takes_def waiting_on_write [OF assms(1,2)]
  using assms(3) waiting_on_deref [OF assms(1)] by auto

lemma appends_same: "rx_heap rx' = rx_heap rx \<Longrightarrow> appends op rx rx'"
  unfolding appends_def using waiting_on_heap by blast

lemma appends_write:
  assumes "deref rx d = Some ds" "rx_heap rx1 = rx_heap rx"
    and "\<And>ot. ds_op_queue ds' ot = ds_op_queue ds ot \<or> ds_op_queue ds' ot = ds_op_queue ds ot @ [op]"
  shows "appends op rx (write_ds d ds' rx1)"
  unfolding appends_def waiting_on_write [OF assms(1,2)]
  using assms(3) waiting_on_deref [OF assms(1)] by auto

lemma appends_from_same:
  assumes "appends op rx1 rx'" "rx_heap rx1 = rx_heap rx"
  shows "appends op rx rx'"
  using assms(1) unfolding appends_def waiting_on_heap [OF assms(2)] .

subsection \<open>Starting an operation\<close>

lemma enqueue_appends:
  assumes "deref rx d = Some ds" "ds_op_queue ds1 = ds_op_queue ds"
  shows "appends op rx (fst (enqueue_op ot op d ds1 (rx, s, stk)))"
  using appends_write [OF assms(1) HOL.refl, of _ op] assms(2) by (simp add: enqueue_op_def oq_push_def)

lemma fail_op_heap: "rx_heap (fst (fail_op self op c ec (rx, s, stk))) = rx_heap rx"
  by (simp add: fail_op_def reactor_post_immediate_def)

lemma start_after_speculation_appends:
  assumes "deref rx d = Some ds"
  shows "appends op rx (fst (start_after_speculation ctl self ot fd op c d ds (rx, s, stk)))"
proof -
  let ?ev = "ds_registered_events ds OR EPOLLOUT"
  obtain e rx1 where ctl: "call_ctl ctl Ctl_Mod fd ?ev rx = (e, rx1)"
    by (cases "call_ctl ctl Ctl_Mod fd ?ev rx")
  have heap: "rx_heap rx1 = rx_heap rx" using heap_kept(1) [OF ctl] .
  have "deref rx1 d = Some ds" using assms same_heap(2) [OF heap] by simp
  from appends_from_same [OF enqueue_appends [OF this] heap]
  have "appends op rx (fst (enqueue_op ot' op d (ds\<lparr>ds_registered_events := r\<rparr>) (rx1, s, stk)))" for r ot' by simp
  moreover have "appends op rx (fst (fail_op self op c e (rx1, s, stk)))"
    "appends op rx (fst (fail_op self op c e (rx, s, stk)))" for e
    by (rule appends_same; simp add: fail_op_heap heap)+
  ultimately show ?thesis
    using enqueue_appends [OF assms HOL.refl] by (simp add: start_after_speculation_def ctl)
qed

lemma start_op_appends:
  assumes "start_op perform ctl self ot fd data op c spec (rx, s, stk) = Inr st'"
  shows "appends op rx (fst st')"
proof (cases data)
  case None
  with assms show ?thesis by (auto simp: start_op_def intro: appends_same fail_op_heap)
next
  case (Some d)
  with assms obtain ds where ds: "deref rx d = Some ds"
    by (auto simp: start_op_def split: option.splits)
  obtain status rx1 where pf: "call_perform perform op rx = (status, rx1)"
    by (cases "call_perform perform op rx")
  have heap: "rx_heap rx1 = rx_heap rx" using heap_kept(2) [OF pf] .
  have ds1: "deref rx1 d = Some ds" using ds same_heap(2) [OF heap] by simp
  let ?ds = "ds\<lparr>ds_try_speculative := (ds_try_speculative ds)(ot := False)\<rparr>"
  have performed: "appends op rx (write_ds d ?ds rx1)" "appends op rx rx1"
    by (rule appends_write [OF ds heap], simp) (rule appends_same [OF heap])
  note after = appends_from_same [OF start_after_speculation_appends [OF ds1] heap]
    start_after_speculation_appends [OF ds]
  have blind: "appends op rx (fst st')"
    if "(case call_ctl ctl Ctl_Mod fd ev rx of (e, rx2) \<Rightarrow> Inr (enqueue_op ot' op d dw (rx2, s, stk))) = Inr st'"
      and dw: "ds_op_queue dw = ds_op_queue ds" for ev dw ot'
  proof -
    obtain e rx2 where ctl: "call_ctl ctl Ctl_Mod fd ev rx = (e, rx2)"
      by (cases "call_ctl ctl Ctl_Mod fd ev rx")
    have heap2: "rx_heap rx2 = rx_heap rx" using heap_kept(1) [OF ctl] .
    have "deref rx2 d = Some ds" using ds same_heap(2) [OF heap2] by simp
    from appends_from_same [OF enqueue_appends [OF this dw, of op ot' s stk] heap2] that(1) show ?thesis
      by (auto simp: ctl)
  qed
  from assms Some ds performed after enqueue_appends [OF ds HOL.refl] show ?thesis
    by (simp add: start_op_def pf Let_def split: if_split_asm)
      (auto simp: reactor_post_immediate_def appends_same fail_op_heap dest!: blind)
qed

subsection \<open>The other calls\<close>

lemma start_speculation_takes:
  assumes "start_speculation perform ot data op spec rx = Some rx'"
  shows "takes rx rx'"
proof -
  obtain d ds status rx1 where ds: "deref rx d = Some ds" and pf: "call_perform perform op rx = (status, rx1)"
    and rx': "rx' = rx1 \<or> rx' = write_ds d (ds\<lparr>ds_try_speculative := (ds_try_speculative ds)(ot := False)\<rparr>) rx1"
    using assms by (auto simp: start_speculation_def split: option.splits if_splits prod.splits)
  note heap = heap_kept(2) [OF pf]
  from rx' takes_write [OF ds heap, of "ds\<lparr>ds_try_speculative := (ds_try_speculative ds)(ot := False)\<rparr>"]
  show ?thesis by (auto simp: takes_def waiting_on_heap [OF heap])
qed

lemma register_takes:
  assumes "register_descriptor ctl fd rx = (e, d, rx')"
  shows "takes rx rx'"
proof -
  let ?rx1 = "rx\<lparr>rx_heap := rx_heap rx @ [Some (fresh_descriptor fd)],
    rx_registered := map_assign fd (length (rx_heap rx)) (rx_registered rx)\<rparr>"
  obtain e1 rx2 where ctl: "call_ctl ctl Ctl_Add fd initial_events ?rx1 = (e1, rx2)" by force
  have heap: "rx_heap rx2 = rx_heap rx @ [Some (fresh_descriptor fd)]" using heap_kept(1) [OF ctl] by simp
  have new: "waiting_on rx2 d ot = waiting_on rx d ot" for d ot
    by (auto simp: waiting_on_def deref_def heap nth_append fresh_descriptor_def less_Suc_eq)
  have "deref rx2 (length (rx_heap rx)) = Some (fresh_descriptor fd)" by (simp add: deref_Some heap)
  from takes_write [OF this HOL.refl, of "(fresh_descriptor fd)\<lparr>ds_registered_events := 0\<rparr>"] new
  have "takes rx (write_ds (length (rx_heap rx)) ((fresh_descriptor fd)\<lparr>ds_registered_events := 0\<rparr>) rx2)"
    by (simp add: takes_def)
  with new assms ctl show ?thesis
    by (auto simp: register_descriptor_def Let_def takes_def split: if_splits)
qed

lemma cancel_locked_takes:
  "cancel_locked data rx = Some (Inr (Some ops, rx')) \<Longrightarrow> takes rx rx'"
  by (auto simp: cancel_locked_def take_all_queues_eq split: option.splits intro!: takes_write)

lemma deregister_locked_takes:
  "deregister_locked ctl fd data closing rx = Some (Inr (Some ops, rx')) \<Longrightarrow> takes rx rx'"
  by (auto simp: deregister_locked_def take_all_queues_eq Let_def split: option.splits if_splits intro!: takes_write)

lemma perform_locked_takes:
  assumes "perform_locked perform d events rx = Inr (ops, rx')"
  shows "takes rx rx'"
proof -
  obtain ds ds' rx1 where ds: "deref rx d = Some ds"
      "perform_all_types perform events ds rx = (ds', ops, rx1)" "rx' = write_ds d ds' rx1"
    using assms by (auto simp: perform_locked_def split: option.splits prod.splits)
  from perform_all_types_split [OF ds(2)] have heap: "rx_heap rx1 = rx_heap rx"
    and "suffix (ds_op_queue ds' Except_Op) (ds_op_queue ds Except_Op)"
      "suffix (ds_op_queue ds' Write_Op) (ds_op_queue ds Write_Op)"
      "suffix (ds_op_queue ds' Read_Op) (ds_op_queue ds Read_Op)"
    by (auto simp: suffix_def)
  then have "suffix (ds_op_queue ds' ot) (ds_op_queue ds ot)" for ot by (cases ot) simp_all
  with takes_write [OF ds(1) heap] ds(3) show ?thesis by simp
qed

lemma reactor_run_takes: "reactor_run events rx ops = Inr (rx', ops') \<Longrightarrow> takes rx rx'"
proof (induction events rx ops rule: reactor_run.induct)
  case (3 d ev events rx ops)
  then obtain ds where ds: "deref rx d = Some ds" by (auto split: option.splits)
  have "takes rx (write_ds d (ds\<lparr>ds_task_result := r\<rparr>) rx)" for r
    by (rule takes_write [OF ds HOL.refl]) simp
  with 3 ds show ?case by (auto split: if_splits intro: takes_trans)
qed (auto intro: takes_refl)

subsection \<open>Every step\<close>

lemma io_step_queues:
  assumes "io_step perform ctl self (rx, s, g, t, f) l (rx', s', g', t', f')"
  shows "takes rx rx' \<or> (\<exists>op. appends op rx rx' \<and> l = [Posted (Reactor_Op op)])"
  using assms
proof cases
  case (start ot fd data op c spec stk)
  with start_op_appends [OF start(8)] show ?thesis by auto
next
  case (started op c stk)
  then show ?thesis by (auto intro: appends_same)
qed (auto intro: takes_refl start_speculation_takes register_takes cancel_locked_takes deregister_locked_takes
    perform_locked_takes reactor_run_takes)

lemma waiting_in_order_step:
  assumes "takes rx rx' \<or> (\<exists>op. appends op rx rx' \<and> l' = [Posted (Reactor_Op op)])"
    and "\<forall>d ot. subseq (map Reactor_Op (waiting_on rx d ot)) (posts l)"
  shows "subseq (map Reactor_Op (waiting_on rx' d ot)) (posts (l @ l'))"
  using assms(1)
proof (elim disjE exE conjE)
  assume "takes rx rx'"
  then obtain q where "waiting_on rx d ot = q @ waiting_on rx' d ot" by (auto simp: takes_def suffix_def)
  then have "subseq (map Reactor_Op (waiting_on rx' d ot)) (map Reactor_Op (waiting_on rx d ot))"
    by (simp add: subseq_drop_many)
  with assms(2) have "subseq (map Reactor_Op (waiting_on rx' d ot)) (posts l)"
    using subseq_order.trans by blast
  then show ?thesis by (auto intro: subseq_order.trans)
next
  fix op assume "appends op rx rx'" "l' = [Posted (Reactor_Op op)]"
  with assms(2) show ?thesis
    by (auto simp: appends_def list_emb_append2 intro!: list_emb_append_mono dest!: spec [of _ d] spec [of _ ot])
qed

lemma io_history_waiting:
  assumes "io_history perform ctl self w0 l w"
    and "\<forall>d ot. waiting_on (io_reactor w0) d ot = []"
  shows "\<forall>d ot. subseq (map Reactor_Op (waiting_on (io_reactor w) d ot)) (posts l)"
  using assms
proof induction
  case (step l w i l' rx s g t f)
  from waiting_in_order_step [OF io_step_queues [OF step.hyps(3)] step.IH [OF step.prems]]
  show ?case by simp
qed simp_all

lemma nothing_pending: "pending rx = {#} \<Longrightarrow> waiting_on rx d ot = []"
proof (cases "deref rx d")
  case (Some ds)
  assume "pending rx = {#}"
  with pending_write_less [OF Some, of "ds\<lparr>ds_op_queue := \<lambda>_. []\<rparr>" "ds_pending ds"] have "ds_pending ds = {#}"
    by (simp add: ds_pending_def)
  with Some show ?thesis by (cases ot) (simp_all add: waiting_on_def ds_pending_def)
qed (simp add: waiting_on_def)

subsection \<open>What the composition guarantees\<close>

text \<open>C13. What waits on a descriptor waits in the order it was started. In the composition of reactor and
  scheduler, whatever threads register, start, cancel, close, wait and perform and however they
  interleave, the reads (and the writes, and the exceptional operations) waiting on a descriptor form
  a subsequence of the operations handed over so far; and no step of any thread overtakes: it leaves
  every queue of every descriptor as it is but for operations taken from its front, or appends the
  one operation it starts.\<close>

theorem waiting_operations_in_start_order:
  assumes "pending rx0 = {#}"
    and "io_history perform ctl self (initial_io raw hint rx0) l w"
  shows "subseq (map Reactor_Op (waiting_on (io_reactor w) d ot)) (posts l) \<and>
    (io_step perform ctl self (io_reactor w, s, g, t, f) l' (rx', s', g', t', f') \<longrightarrow>
      suffix (waiting_on rx' d ot) (waiting_on (io_reactor w) d ot) \<or>
      (\<exists>op. l' = [Posted (Reactor_Op op)] \<and>
        waiting_on rx' d ot \<in> {waiting_on (io_reactor w) d ot, waiting_on (io_reactor w) d ot @ [op]}))"
proof (intro conjI impI)
  show "subseq (map Reactor_Op (waiting_on (io_reactor w) d ot)) (posts l)"
    using io_history_waiting [OF assms(2)] nothing_pending [OF assms(1)] by (simp add: initial_io_def)
next
  assume "io_step perform ctl self (io_reactor w, s, g, t, f) l' (rx', s', g', t', f')"
  from io_step_queues [OF this] show "suffix (waiting_on rx' d ot) (waiting_on (io_reactor w) d ot) \<or>
      (\<exists>op. l' = [Posted (Reactor_Op op)] \<and>
        waiting_on rx' d ot \<in> {waiting_on (io_reactor w) d ot, waiting_on (io_reactor w) d ot @ [op]})"
    by (auto simp: takes_def appends_def)
qed

theorem waiting_operations_in_start_order_witness:
  "subseq (map Reactor_Op (waiting_on demo_waits 0 Read_Op)) [Reactor_Op 5] \<and>
   (\<exists>rx' s'. io_step perform_even ctl_ok 0 (demo_waits, demo_blocked, 0, new_thread, Idle)
       [Posted (Reactor_Op 7)] (rx', s', 0, new_thread, Idle) \<and>
     (suffix (waiting_on rx' 0 Read_Op) [5] \<or>
      (\<exists>op. [Posted (Reactor_Op 7)] = [Posted (Reactor_Op op)] \<and>
        waiting_on rx' 0 Read_Op \<in> {[5], [5, op]})))"
proof -
  have none: "pending demo_rx = {#}" by (simp add: pending_def demo_rx_def)
  have waits: "waiting_on demo_waits 0 Read_Op = [5]" by (simp add: waiting_on_def deref_def demo_waits_def)
  have "\<exists>rx' s'. start_op perform_even ctl_ok 0 Read_Op 4 (Some 0) 7 False True (demo_waits, demo_blocked, []) =
      Inr (rx', s', [])"
    by (simp add: start_op_def deref_def demo_waits_def fresh_descriptor_def oq_empty_def enqueue_op_def)
  moreover have none_settled: "start_speculation perform_even Read_Op (Some 0) 7 True demo_waits = None"
    by (simp add: start_speculation_def deref_def demo_waits_def oq_empty_def)
  ultimately obtain rx' s' where "io_step perform_even ctl_ok 0 (demo_waits, demo_blocked, 0, new_thread, Idle)
      [Posted (Reactor_Op 7)] (rx', s', 0, new_thread, Idle)"
    using io_step.start [OF demo_may_call none_settled, where ctl = ctl_ok and self = 0] by (fastforce simp: new_thread_def)
  with waiting_operations_in_start_order [OF none demo_io_history, of 0 Read_Op] show ?thesis
    by (fastforce simp: waits)
qed

end
