(* ===== verification/Service_Types.thy ===== *)
theory Service_Types
  imports Service_Properties
begin

text \<open>
  The classes services derive from, in \<^verbatim>\<open>execution_context.hpp\<close> and \<^verbatim>\<open>io_context.hpp\<close>: what decides the
  key of a service, and what the \<open>static_cast\<close> of \<open>use_service\<close> relies on. A request that does not
  compile is None.
\<close>

subsection \<open>Types of services\<close>

text \<open>
  How a class derives: from \<open>execution_context::service\<close> or \<open>io_context::service\<close> itself, or from one of
  the two bases \<open>execution_context_service_base<Type>\<close> and \<open>service_base<Type>\<close>, with the name of \<open>Type\<close>.
\<close>

datatype derivation =
    From_Service
  | From_Io_Service
  | From_Execution_Base string
  | From_Io_Base string

record service_type =
  st_name :: string
  st_derivation :: derivation

text \<open>\<open>Service::key()\<close> is the one the class inherits.\<close>

definition service_class_key :: string where
  "service_class_key = ''execution_context::service''"

definition io_service_class_key :: string where
  "io_service_class_key = ''io_context::service''"

definition execution_base_key :: "string \<Rightarrow> string" where
  "execution_base_key typeid_name = typeid_name"

definition io_base_key :: "string \<Rightarrow> string" where
  "io_base_key typeid_name = typeid_name"

definition service_key :: "service_type \<Rightarrow> string" where
  "service_key T =
     (case st_derivation T of
        From_Service \<Rightarrow> service_class_key
      | From_Io_Service \<Rightarrow> io_service_class_key
      | From_Execution_Base name \<Rightarrow> execution_base_key name
      | From_Io_Base name \<Rightarrow> io_base_key name)"

text \<open>The services of the repository.\<close>

definition scheduler_type :: service_type where
  "scheduler_type = \<lparr>st_name = ''scheduler'', st_derivation = From_Execution_Base ''scheduler''\<rparr>"

definition epoll_reactor_type :: service_type where
  "epoll_reactor_type = \<lparr>st_name = ''epoll_reactor'', st_derivation = From_Execution_Base ''epoll_reactor''\<rparr>"

definition reactive_socket_service_type :: "string \<Rightarrow> service_type" where
  "reactive_socket_service_type Protocol =
     \<lparr>st_name = ''reactive_socket_service<'' @ Protocol @ ''>'',
      st_derivation = From_Io_Base (''reactive_socket_service<'' @ Protocol @ ''>'')\<rparr>"

definition stream_socket_service_type :: "string \<Rightarrow> service_type" where
  "stream_socket_service_type Protocol =
     \<lparr>st_name = ''stream_socket_service<'' @ Protocol @ ''>'',
      st_derivation = From_Io_Base (''stream_socket_service<'' @ Protocol @ ''>'')\<rparr>"

subsection \<open>Objects of those types\<close>

text \<open>
  The registry, the class of each object, the contexts that are \<open>io_context\<close>s, and their members
  \<open>impl_\<close> once those are bound.
\<close>

record typed_registry =
  ty_registry :: registry
  ty_class :: "nat \<Rightarrow> string"
  ty_io_contexts :: "nat set"
  ty_impl :: "nat \<Rightarrow> nat option"

text \<open>
  The constructors: the base \<open>service\<close> keeps the context, and the classes below \<open>io_context::service\<close>
  take an \<open>io_context&\<close>, so that they cannot be built from an \<open>execution_context&\<close>, which is what
  \<open>use_service(execution_context&)\<close> and \<open>make_service\<close> pass on.
\<close>

fun needs_io_context :: "derivation \<Rightarrow> bool" where
  "needs_io_context From_Io_Service = True"
| "needs_io_context (From_Io_Base name) = True"
| "needs_io_context d = False"

definition service_ctor :: "service_type \<Rightarrow> nat \<Rightarrow> typed_registry \<Rightarrow> nat \<times> typed_registry" where
  "service_ctor T owner w =
     (case new_service owner (ty_registry w) of
        (s, r) \<Rightarrow> (s, w\<lparr>ty_registry := r, ty_class := (ty_class w)(s := st_name T)\<rparr>))"

definition service_context :: "nat \<Rightarrow> typed_registry \<Rightarrow> nat" where
  "service_context s w = sr_context (ty_registry w) s"

definition get_io_context :: "nat \<Rightarrow> typed_registry \<Rightarrow> fault + nat" where
  "get_io_context s w =
     (if service_context s w \<in> ty_io_contexts w then Inr (service_context s w) else Inl Undefined_Behaviour)"

definition static_cast_service :: "service_type \<Rightarrow> nat \<Rightarrow> typed_registry \<Rightarrow> fault + nat" where
  "static_cast_service T s w = (if ty_class w s = st_name T then Inr s else Inl Undefined_Behaviour)"

text \<open>
  \<open>use_service<Service>\<close> of one thread, on an \<open>execution_context&\<close> or, with \<open>io\<close>, on an \<open>io_context&\<close>: the
  service registered under the key, cast to the type, or a new one. The specialisation for the
  scheduler, on an \<open>io_context&\<close>, returns its \<open>impl_\<close>.
\<close>

definition typed_use_service ::
    "bool \<Rightarrow> service_type \<Rightarrow> nat \<Rightarrow> typed_registry \<Rightarrow> (fault + nat \<times> typed_registry) option" where
  "typed_use_service io T ctx w =
     (if needs_io_context (st_derivation T) \<and> \<not> io then None
      else if io \<and> T = scheduler_type
      then Some (case ty_impl w ctx of None \<Rightarrow> Inl Undefined_Behaviour | Some s \<Rightarrow> Inr (s, w))
      else case use_service_lookup (service_key T) (ty_registry w) of
        Some s \<Rightarrow> Some (case static_cast_service T s w of Inl e \<Rightarrow> Inl e | Inr s' \<Rightarrow> Inr (s', w))
      | None \<Rightarrow>
          (case service_ctor T ctx w of (new, w1) \<Rightarrow>
             (case use_service_install (service_key T) new (ty_registry w1) of
                Inl e \<Rightarrow> Some (Inl e)
              | Inr (s, r) \<Rightarrow>
                  Some (case static_cast_service T s (w1\<lparr>ty_registry := r\<rparr>) of
                          Inl e \<Rightarrow> Inl e
                        | Inr s' \<Rightarrow> Inr (s', w1\<lparr>ty_registry := r\<rparr>)))))"

text \<open>
  The functions of \<^verbatim>\<open>service_registry_helpers.hpp\<close> on an \<open>execution_context&\<close>: the requests to its registry.
\<close>

definition context_use_service :: "service_type \<Rightarrow> nat \<Rightarrow> typed_registry \<Rightarrow> (fault + nat \<times> typed_registry) option" where
  "context_use_service T e w = typed_use_service False T e w"

definition context_has_service :: "service_type \<Rightarrow> typed_registry \<Rightarrow> bool" where
  "context_has_service T w = has_service (service_key T) (ty_registry w)"

definition context_add_service :: "service_type \<Rightarrow> nat \<Rightarrow> typed_registry \<Rightarrow> fault + typed_registry" where
  "context_add_service T new w =
     (case add_service (service_key T) new (ty_registry w) of
        Inl e \<Rightarrow> Inl e
      | Inr r \<Rightarrow> Inr (w\<lparr>ty_registry := r\<rparr>))"

text \<open>
  The constructor of \<open>io_context\<close> and its \<open>add_impl\<close>: a scheduler is built and added to the empty
  registry, and \<open>impl_\<close> is bound to it.
\<close>

definition typed_io_context_ctor :: "nat \<Rightarrow> (nat \<Rightarrow> string) \<Rightarrow> fault + typed_registry" where
  "typed_io_context_ctor ctx classes =
     (case service_ctor scheduler_type ctx
         \<lparr>ty_registry = registry_ctor ctx, ty_class = classes, ty_io_contexts = {ctx}, ty_impl = (\<lambda>_. None)\<rparr> of
        (impl, w) \<Rightarrow>
          (case context_add_service scheduler_type impl w of
             Inl e \<Rightarrow> Inl e
           | Inr w' \<Rightarrow> Inr (w'\<lparr>ty_impl := (ty_impl w')(ctx := Some impl)\<rparr>)))"

text \<open>
  An object that was added is what later requests of its type get, unless the type needs an
  \<open>io_context&\<close>: then no request through an \<open>execution_context&\<close> compiles.
\<close>

lemma added_service_is_used:
  assumes "context_add_service T s w = Inr w'" "ty_class w s = st_name T"
    and "keys_sorted (sr_services (ty_registry w))"
  shows "context_has_service T w' \<and> \<not> context_has_service T w \<and>
    context_use_service T e w' = (if needs_io_context (st_derivation T) then None else Some (Inr (s, w')))"
proof -
  have "map_find (sr_services (ty_registry w)) (service_key T) = None"
    "w' = w\<lparr>ty_registry := ty_registry w\<lparr>sr_services := map_assign (service_key T) s (sr_services (ty_registry w))\<rparr>\<rparr>"
    using assms(1) by (auto simp: context_add_service_def add_service_def split: if_splits)
  with assms(2) show ?thesis
    by (simp add: context_has_service_def context_use_service_def has_service_def typed_use_service_def
        use_service_lookup_def static_cast_service_def stdmap.find_assign [OF assms(3)])
qed

text \<open>A sequence of requests; the services they returned, in order.\<close>

fun typed_requests ::
    "service_type list \<Rightarrow> nat \<Rightarrow> typed_registry \<Rightarrow> (fault + nat list \<times> typed_registry) option" where
  "typed_requests [] ctx w = Some (Inr ([], w))"
| "typed_requests (T # Ts) ctx w =
     (case typed_use_service True T ctx w of
        None \<Rightarrow> None
      | Some (Inl e) \<Rightarrow> Some (Inl e)
      | Some (Inr (s, w')) \<Rightarrow>
          (case typed_requests Ts ctx w' of
             None \<Rightarrow> None
           | Some (Inl e) \<Rightarrow> Some (Inl e)
           | Some (Inr (ss, w'')) \<Rightarrow> Some (Inr (s # ss, w''))))"

subsection \<open>Keys and types\<close>

text \<open>
  What the registry knows after requests of the types \<open>asked\<close>: under every key the class that asked
  first, and every object of the context; and \<open>impl_\<close> is the registered scheduler.
\<close>

definition impl_ok :: "nat \<Rightarrow> typed_registry \<Rightarrow> bool" where
  "impl_ok ctx w \<longleftrightarrow>
     (\<exists>s. ty_impl w ctx = Some s \<and> map_find (sr_services (ty_registry w)) (service_key scheduler_type) = Some s \<and>
       ty_class w s = st_name scheduler_type)"

definition typed_ok :: "nat \<Rightarrow> service_type list \<Rightarrow> typed_registry \<Rightarrow> bool" where
  "typed_ok ctx asked w \<longleftrightarrow>
     keys_sorted (sr_services (ty_registry w)) \<and> impl_ok ctx w \<and>
     (\<forall>key. case map_find (sr_services (ty_registry w)) key of
        None \<Rightarrow> \<forall>T \<in> set asked. service_key T \<noteq> key
      | Some s \<Rightarrow> s < sr_next (ty_registry w) \<and> service_context s w = ctx \<and>
          (\<exists>T \<in> set asked. service_key T = key) \<and>
          (\<forall>T \<in> set asked. service_key T = key \<longrightarrow> ty_class w s = st_name T))"

definition keeps_services :: "typed_registry \<Rightarrow> typed_registry \<Rightarrow> bool" where
  "keeps_services w w' \<longleftrightarrow>
     (\<forall>key s. map_find (sr_services (ty_registry w)) key = Some s \<longrightarrow>
        map_find (sr_services (ty_registry w')) key = Some s \<and> ty_class w' s = ty_class w s)"

lemma keeps_services_refl [simp]: "keeps_services w w"
  by (simp add: keeps_services_def)

lemma keeps_servicesD:
  "keeps_services w w' \<Longrightarrow> map_find (sr_services (ty_registry w)) key = Some s \<Longrightarrow>
   map_find (sr_services (ty_registry w')) key = Some s \<and> ty_class w' s = ty_class w s"
  by (simp add: keeps_services_def)

lemma typed_okD:
  assumes "typed_ok ctx ts w"
  shows "keys_sorted (sr_services (ty_registry w))"
    "map_find (sr_services (ty_registry w)) key = None \<Longrightarrow> T \<in> set ts \<Longrightarrow> service_key T \<noteq> key"
    "map_find (sr_services (ty_registry w)) key = Some s \<Longrightarrow>
       s < sr_next (ty_registry w) \<and> service_context s w = ctx \<and> (\<exists>T \<in> set ts. service_key T = key) \<and>
       (\<forall>T \<in> set ts. service_key T = key \<longrightarrow> ty_class w s = st_name T)"
    "impl_ok ctx w"
proof -
  show "impl_ok ctx w" using assms by (simp add: typed_ok_def)
  show "keys_sorted (sr_services (ty_registry w))" using assms by (simp add: typed_ok_def)
  have at: "case map_find (sr_services (ty_registry w)) key of
      None \<Rightarrow> \<forall>T \<in> set ts. service_key T \<noteq> key
    | Some s \<Rightarrow> s < sr_next (ty_registry w) \<and> service_context s w = ctx \<and>
        (\<exists>T \<in> set ts. service_key T = key) \<and>
        (\<forall>T \<in> set ts. service_key T = key \<longrightarrow> ty_class w s = st_name T)"
    using assms by (simp add: typed_ok_def)
  then show "map_find (sr_services (ty_registry w)) key = None \<Longrightarrow> T \<in> set ts \<Longrightarrow> service_key T \<noteq> key"
    by simp
  from at show "map_find (sr_services (ty_registry w)) key = Some s \<Longrightarrow>
       s < sr_next (ty_registry w) \<and> service_context s w = ctx \<and> (\<exists>T \<in> set ts. service_key T = key) \<and>
       (\<forall>T \<in> set ts. service_key T = key \<longrightarrow> ty_class w s = st_name T)"
    by simp
qed

lemma typed_registry_outcome:
  assumes "typed_ok ctx ts w" and other: "T \<noteq> scheduler_type"
  shows "if \<forall>T' \<in> set ts. service_key T' = service_key T \<longrightarrow> st_name T' = st_name T
    then \<exists>s w'. typed_use_service True T ctx w = Some (Inr (s, w')) \<and> typed_ok ctx (ts @ [T]) w' \<and>
      ty_class w' s = st_name T \<and> service_context s w' = ctx \<and>
      map_find (sr_services (ty_registry w')) (service_key T) = Some s \<and>
      keeps_services w w'
    else typed_use_service True T ctx w = Some (Inl Undefined_Behaviour)"
proof (cases "map_find (sr_services (ty_registry w)) (service_key T)")
  case (Some s)
  then have facts: "service_context s w = ctx" "\<exists>T' \<in> set ts. service_key T' = service_key T"
      "\<forall>T' \<in> set ts. service_key T' = service_key T \<longrightarrow> ty_class w s = st_name T'"
    using typed_okD(3) [OF assms(1) Some] by auto
  show ?thesis
  proof (cases "ty_class w s = st_name T")
    case True
    then have "\<forall>T' \<in> set ts. service_key T' = service_key T \<longrightarrow> st_name T' = st_name T" using facts by auto
    moreover have "typed_ok ctx (ts @ [T]) w"
      using typed_okD [OF assms(1)] Some True
      by (auto simp: typed_ok_def split: option.split)
    ultimately show ?thesis
      using Some True facts by (simp add: other typed_use_service_def use_service_lookup_def static_cast_service_def)
  next
    case False
    then have "\<exists>T' \<in> set ts. service_key T' = service_key T \<and> st_name T' \<noteq> st_name T" using facts by auto
    then show ?thesis
      using Some False by (auto simp: other typed_use_service_def use_service_lookup_def static_cast_service_def)
  qed
next
  case None
  then have new: "\<forall>T' \<in> set ts. service_key T' \<noteq> service_key T"
    using typed_okD(2) [OF assms(1) None] by blast
  have sorted: "keys_sorted (sr_services (ty_registry w))" using assms(1) by (rule typed_okD(1))
  let ?s = "sr_next (ty_registry w)"
  define r where "r = (snd (new_service ctx (ty_registry w)))
      \<lparr>sr_services := map_assign (service_key T) ?s (sr_services (ty_registry w))\<rparr>"
  define w1 where "w1 = w\<lparr>ty_registry := r, ty_class := (ty_class w)(?s := st_name T)\<rparr>"
  have use: "typed_use_service True T ctx w = Some (Inr (?s, w1))"
    using None by (simp add: other typed_use_service_def registry_defs service_ctor_def static_cast_service_def r_def w1_def)
  have made: "ty_registry w1 = r" "sr_next r = Suc ?s" "ty_class w1 = (ty_class w)(?s := st_name T)"
    "service_context s w1 = (if s = ?s then ctx else service_context s w)" for s
    by (simp_all add: r_def w1_def new_service_def service_context_def)
  have find: "map_find (sr_services r) key =
      (if key = service_key T then Some ?s else map_find (sr_services (ty_registry w)) key)" for key
    using stdmap.find_assign [OF sorted] by (simp add: r_def new_service_def)
  have old: "s < ?s" if "map_find (sr_services (ty_registry w)) key = Some s" for key s
    using typed_okD(3) [OF assms(1) that] by blast
  have "typed_ok ctx (ts @ [T]) w1"
    unfolding typed_ok_def
  proof (intro conjI allI)
    show "keys_sorted (sr_services (ty_registry w1))"
      using sorted by (simp add: w1_def r_def map_assign_sorted)
    have "service_key T \<noteq> service_key scheduler_type" using typed_okD(4) [OF assms(1)] None by (auto simp: impl_ok_def)
    moreover have "sch < ?s" if "map_find (sr_services (ty_registry w)) key = Some sch" for key sch using old [OF that] .
    ultimately show "impl_ok ctx w1"
      using typed_okD(4) [OF assms(1)] by (force simp: impl_ok_def find made w1_def)
    fix key
    show "case map_find (sr_services (ty_registry w1)) key of
        None \<Rightarrow> \<forall>T \<in> set (ts @ [T]). service_key T \<noteq> key
      | Some s \<Rightarrow> s < sr_next (ty_registry w1) \<and> service_context s w1 = ctx \<and>
          (\<exists>T \<in> set (ts @ [T]). service_key T = key) \<and>
          (\<forall>T \<in> set (ts @ [T]). service_key T = key \<longrightarrow> ty_class w1 s = st_name T)"
    proof (cases "key = service_key T")
      case True
      with new show ?thesis by (auto simp: find made)
    next
      case False
      then show ?thesis
        using typed_okD(2,3) [OF assms(1), of key] by (auto simp: find made split: option.split)
    qed
  qed
  moreover have told: "\<forall>T' \<in> set ts. service_key T' = service_key T \<longrightarrow> st_name T' = st_name T" using new by auto
  moreover have "keeps_services w w1"
    using old None by (auto simp: find made keeps_services_def)
  moreover have "ty_class w1 ?s = st_name T" "service_context ?s w1 = ctx"
      "map_find (sr_services (ty_registry w1)) (service_key T) = Some ?s"
    by (simp_all add: find made)
  ultimately show ?thesis using use unfolding if_P [OF told] by blast
qed

lemma typed_use_service_outcome:
  assumes "typed_ok ctx ts w"
  shows "if \<forall>T' \<in> set ts. service_key T' = service_key T \<longrightarrow> st_name T' = st_name T
    then \<exists>s w'. typed_use_service True T ctx w = Some (Inr (s, w')) \<and> typed_ok ctx (ts @ [T]) w' \<and>
      ty_class w' s = st_name T \<and> service_context s w' = ctx \<and>
      map_find (sr_services (ty_registry w')) (service_key T) = Some s \<and>
      keeps_services w w'
    else typed_use_service True T ctx w = Some (Inl Undefined_Behaviour)"
proof (cases "T = scheduler_type")
  case True
  obtain s where s: "ty_impl w ctx = Some s" "map_find (sr_services (ty_registry w)) (service_key T) = Some s"
      "ty_class w s = st_name T"
    using typed_okD(4) [OF assms] True by (auto simp: impl_ok_def)
  then have told: "\<forall>T' \<in> set ts. service_key T' = service_key T \<longrightarrow> st_name T' = st_name T" "service_context s w = ctx"
    using typed_okD(3) [OF assms s(2)] by auto
  moreover have "typed_ok ctx (ts @ [T]) w"
    using typed_okD [OF assms] s by (auto simp: typed_ok_def split: option.split)
  ultimately show ?thesis
    using s True unfolding if_P [OF told(1)] by (simp add: typed_use_service_def scheduler_type_def)
qed (rule typed_registry_outcome [OF assms])

lemma typed_use_service_ok:
  assumes "typed_ok ctx ts w" "\<forall>T' \<in> set ts. service_key T' = service_key T \<longrightarrow> st_name T' = st_name T"
  obtains s w' where "typed_use_service True T ctx w = Some (Inr (s, w'))" "typed_ok ctx (ts @ [T]) w'"
    "ty_class w' s = st_name T" "map_find (sr_services (ty_registry w')) (service_key T) = Some s"
    "keeps_services w w'"
  using typed_use_service_outcome [OF assms(1), of T] unfolding if_P [OF assms(2)] by metis

lemma typed_use_service_clash:
  assumes "typed_ok ctx ts w" "\<not> (\<forall>T' \<in> set ts. service_key T' = service_key T \<longrightarrow> st_name T' = st_name T)"
  shows "typed_use_service True T ctx w = Some (Inl Undefined_Behaviour)"
  using typed_use_service_outcome [OF assms(1), of T] unfolding if_not_P [OF assms(2)] .

definition keys_tell_types :: "service_type list \<Rightarrow> bool" where
  "keys_tell_types Ts \<longleftrightarrow>
     (\<forall>T \<in> set Ts. \<forall>T' \<in> set Ts. service_key T = service_key T' \<longrightarrow> st_name T = st_name T')"

lemma typed_requests_ok:
  "typed_ok ctx asked w \<Longrightarrow> keys_tell_types asked \<Longrightarrow>
   if keys_tell_types (asked @ Ts)
   then \<exists>ss w'. typed_requests Ts ctx w = Some (Inr (ss, w')) \<and> typed_ok ctx (asked @ Ts) w' \<and>
     list_all2 (\<lambda>T s. map_find (sr_services (ty_registry w')) (service_key T) = Some s \<and>
       ty_class w' s = st_name T) Ts ss \<and>
     keeps_services w w'
   else typed_requests Ts ctx w = Some (Inl Undefined_Behaviour)"
proof (induction Ts arbitrary: asked w)
  case Nil
  then show ?case by simp
next
  case (Cons T Ts)
  show ?case
  proof (cases "\<forall>T' \<in> set asked. service_key T' = service_key T \<longrightarrow> st_name T' = st_name T")
    case True
    from typed_use_service_ok [OF Cons.prems(1) this] obtain s w1 where
      w1: "typed_use_service True T ctx w = Some (Inr (s, w1))"
        "typed_ok ctx (asked @ [T]) w1" "ty_class w1 s = st_name T"
        "map_find (sr_services (ty_registry w1)) (service_key T) = Some s" "keeps_services w w1" .
    have told: "keys_tell_types (asked @ [T])"
      unfolding keys_tell_types_def using True Cons.prems(2) [unfolded keys_tell_types_def]
      by (metis (no_types, lifting) UnE empty_iff empty_set insert_iff list.simps(15) set_append)
    note rest = Cons.IH [OF w1(2) told]
    show ?thesis
    proof (cases "keys_tell_types (asked @ T # Ts)")
      case True
      then have "keys_tell_types ((asked @ [T]) @ Ts)" by simp
      from rest [unfolded if_P [OF this]] obtain ss w2 where w2: "typed_requests Ts ctx w1 = Some (Inr (ss, w2))"
          "typed_ok ctx ((asked @ [T]) @ Ts) w2"
          "list_all2 (\<lambda>T s. map_find (sr_services (ty_registry w2)) (service_key T) = Some s \<and>
             ty_class w2 s = st_name T) Ts ss"
          "keeps_services w1 w2"
        by blast
      have r1: "typed_requests (T # Ts) ctx w = Some (Inr (s # ss, w2))" using w1(1) w2(1) by simp
      have r2: "typed_ok ctx (asked @ T # Ts) w2" using w2(2) by simp
      have "map_find (sr_services (ty_registry w2)) (service_key T) = Some s" "ty_class w2 s = st_name T"
        using w1(3) keeps_servicesD [OF w2(4) w1(4)] by auto
      then have r3: "list_all2 (\<lambda>T s. map_find (sr_services (ty_registry w2)) (service_key T) = Some s \<and>
          ty_class w2 s = st_name T) (T # Ts) (s # ss)" using w2(3) by simp
      have r4: "keeps_services w w2" using w1(5) w2(4) by (metis keeps_services_def)
      show ?thesis unfolding if_P [OF True] by (intro exI conjI) (fact r1 r2 r3 r4)+
    next
      case False
      with rest w1(1) show ?thesis by simp
    qed
  next
    case False
    from typed_use_service_clash [OF Cons.prems(1) this]
    have "typed_requests (T # Ts) ctx w = Some (Inl Undefined_Behaviour)" by simp
    moreover have "\<not> keys_tell_types (asked @ T # Ts)" using False by (auto simp: keys_tell_types_def)
    ultimately show ?thesis by simp
  qed
qed

text \<open>An \<open>io_context\<close> at the start, whatever the classes of objects: its scheduler, and nothing else.\<close>

definition typed_start :: "nat \<Rightarrow> (nat \<Rightarrow> string) \<Rightarrow> typed_registry" where
  "typed_start ctx classes =
     (let impl = sr_next (registry_ctor ctx); r = snd (new_service ctx (registry_ctor ctx))
      in \<lparr>ty_registry = r\<lparr>sr_services := [(service_key scheduler_type, impl)]\<rparr>,
          ty_class = classes(impl := st_name scheduler_type), ty_io_contexts = {ctx},
          ty_impl = (\<lambda>_. None)(ctx := Some impl)\<rparr>)"

lemma typed_start_ctor: "typed_io_context_ctor ctx classes = Inr (typed_start ctx classes)"
  by (simp add: typed_io_context_ctor_def typed_start_def service_ctor_def context_add_service_def registry_defs
      map_assign_def)

lemma typed_start_ok: "typed_ok ctx [scheduler_type] (typed_start ctx classes)"
  by (simp add: typed_ok_def impl_ok_def typed_start_def registry_defs keys_sorted_def service_context_def Let_def)

lemma requests_get_their_type_aux:
  "if keys_tell_types (scheduler_type # Ts)
   then \<exists>ss w. typed_requests Ts ctx (typed_start ctx classes) = Some (Inr (ss, w)) \<and>
     list_all2 (\<lambda>T s. ty_class w s = st_name T \<and> service_context s w = ctx \<and>
       map_find (sr_services (ty_registry w)) (service_key T) = Some s) Ts ss
   else typed_requests Ts ctx (typed_start ctx classes) = Some (Inl Undefined_Behaviour)"
proof -
  have "keys_tell_types [scheduler_type]" by (simp add: keys_tell_types_def)
  note run = typed_requests_ok [OF typed_start_ok [of ctx classes] this, of Ts]
  show ?thesis
  proof (cases "keys_tell_types (scheduler_type # Ts)")
    case True
    with run obtain ss w where w: "typed_requests Ts ctx (typed_start ctx classes) = Some (Inr (ss, w))"
        "typed_ok ctx (scheduler_type # Ts) w" "list_all2 (\<lambda>T s. map_find (sr_services (ty_registry w)) (service_key T) = Some s \<and>
           ty_class w s = st_name T) Ts ss" by auto
    have "service_context s w = ctx" if "map_find (sr_services (ty_registry w)) key = Some s" for key s
      using typed_okD(3) [OF w(2) that] by blast
    with w(3) have "list_all2 (\<lambda>T s. ty_class w s = st_name T \<and> service_context s w = ctx \<and>
        map_find (sr_services (ty_registry w)) (service_key T) = Some s) Ts ss"
      by (auto elim!: list_all2_mono)
    with True w(1) show ?thesis by auto
  qed (use run in simp)
qed

subsection \<open>The services of the repository\<close>

lemma repository_types:
  "keys_tell_types [scheduler_type, epoll_reactor_type, reactive_socket_service_type P,
     stream_socket_service_type P, epoll_reactor_type]"
  by (simp add: keys_tell_types_def scheduler_type_def epoll_reactor_type_def service_key_def
      reactive_socket_service_type_def stream_socket_service_type_def execution_base_key_def io_base_key_def)

text \<open>Two classes that derive from \<open>execution_context::service\<close> itself: the second request is undefined.\<close>

lemma direct_services_clash:
  assumes "st_derivation T = From_Service" "st_derivation T' = From_Service" "st_name T \<noteq> st_name T'"
  shows "typed_requests [T, T'] ctx (typed_start ctx classes) = Some (Inl Undefined_Behaviour)"
proof -
  have "\<not> keys_tell_types [scheduler_type, T, T']" using assms by (auto simp: keys_tell_types_def service_key_def)
  then show ?thesis
    using requests_get_their_type_aux [of "[T, T']" ctx classes] by (simp only: if_False)
qed

text \<open>A service of an \<open>io_context\<close> finds its context again.\<close>

lemma io_service_context:
  "service_context s w = ctx \<Longrightarrow> ctx \<in> ty_io_contexts w \<Longrightarrow> get_io_context s w = Inr ctx"
  by (simp add: get_io_context_def)

text \<open>C22. A sequence of requests for services of an \<open>io_context\<close>, which is built with its scheduler as the
  first service, gives every request an object of the type it asked for, the same one to all requests
  of a type (the scheduler itself, when that is asked for), exactly when no two of the types, the
  scheduler's included, share a key; otherwise the first request whose key belongs to another type
  casts that type's object to its own, which is undefined. The types the repository derives from its
  two bases each have their own key; two types that derive from \<open>execution_context::service\<close>, or two
  from \<open>io_context::service\<close>, share one.\<close>

theorem requests_get_their_type:
  "typed_io_context_ctor ctx classes = Inr (typed_start ctx classes) \<and>
   (if keys_tell_types (scheduler_type # Ts)
    then \<exists>ss w. typed_requests Ts ctx (typed_start ctx classes) = Some (Inr (ss, w)) \<and>
      list_all2 (\<lambda>T s. ty_class w s = st_name T \<and> service_context s w = ctx \<and>
        map_find (sr_services (ty_registry w)) (service_key T) = Some s) Ts ss
    else typed_requests Ts ctx (typed_start ctx classes) = Some (Inl Undefined_Behaviour))"
  using typed_start_ctor requests_get_their_type_aux by blast

end
