(* ===== verification/Socket_Base.thy ===== *)
theory Socket_Base
  imports Socket_Ops
begin

text \<open>
  \<^verbatim>\<open>socket_base.hpp\<close>: the constants of the socket classes. No function of the repository converts them
  before they reach \<open>socket_ops\<close>, so their values are what the system calls are given.
\<close>

datatype shutdown_type = Shutdown_Receive | Shutdown_Send | Shutdown_Both

primrec shutdown_value :: "shutdown_type \<Rightarrow> int" where
  "shutdown_value Shutdown_Receive = 0x01"
| "shutdown_value Shutdown_Send = 0x02"
| "shutdown_value Shutdown_Both = 0x03"

datatype wait_type = Wait_Read | Wait_Write | Wait_Error

primrec wait_value :: "wait_type \<Rightarrow> int" where
  "wait_value Wait_Read = 0x01"
| "wait_value Wait_Write = 0x02"
| "wait_value Wait_Error = 0x04"

definition message_peek :: int where
  "message_peek = 0x02"

definition message_out_of_band :: int where
  "message_out_of_band = 0x01"

definition message_do_not_route :: int where
  "message_do_not_route = 0x04"

definition message_end_of_record :: int where
  "message_end_of_record = 0"

text \<open>
  The values \<open>shutdown(2)\<close> documents for ending one direction or both: \<open>SHUT_RD\<close>, \<open>SHUT_WR\<close>,
  \<open>SHUT_RDWR\<close>. Those of the class are one more.
\<close>

definition documented_how :: "shutdown_type \<Rightarrow> int" where
  "documented_how what = (case what of Shutdown_Receive \<Rightarrow> 0 | Shutdown_Send \<Rightarrow> 1 | Shutdown_Both \<Rightarrow> 2)"

lemma shutdown_values_shifted: "shutdown_value what = documented_how what + 1"
  by (cases what) (simp_all add: documented_how_def)

end
