(* ===== verification/Spec2Isabelle.thy ===== *)
theory Spec2Isabelle
  imports Thread_Memory Scheduler_Properties Reactor_Properties Service_Properties Socket_Properties
    Addresses Buffers Executor_Properties Interrupter Socket_Sending
    Handler_Memory_Properties Quiet_Steps Whole_Run Context_Refinement Io_Objects
    Main_Program Progress Wakeups No_Spinning Reactor_System Descriptor_Order Service_Types Socket_Base
begin

text \<open>
  \<^bold>\<open>A verification library for the asynchronous I/O library in\<close> \<^verbatim>\<open>src/boost_asio\<close>.

  \<^bold>\<open>The program.\<close> A C++ rewrite of the core of an asynchronous I/O library. An \<open>execution_context\<close>
  owns a registry of services. Its subclass \<open>io_context\<close> adds one service, the \<open>scheduler\<close>: a queue
  of operations, a count of outstanding work and a wake-up event, on which any number of threads
  call \<open>run\<close>. The \<open>epoll_reactor\<close> is another service: it keeps the operations that wait on a
  descriptor, and one thread at a time waits in it for events, having taken the marker
  \<open>task_operation_\<close> from the scheduler's queue. Executors post function objects to the scheduler;
  work guards keep its count above 0. Below lie wrappers of the socket calls, addresses, endpoints
  and buffers.

  \<^bold>\<open>Theories\<close> (file names are those of \<^verbatim>\<open>src/boost_asio\<close>), in the order of the imports.

  \<^descr> Prelude: the collections \<open>op_defs\<close>, \<open>frame_simps\<close> and \<open>inv_defs\<close>, machine types
  (\<open>size_t\<close> is a 64-bit word), \<open>fault\<close> (what ends a call other than by returning: an exception, an
  assertion, undefined behaviour, \<open>std::terminate\<close>), and shared lemmas.
  \<^descr> Op_Queue: \<^verbatim>\<open>op_queue.hpp\<close>; a list, the locale \<open>fifo\<close> of a queue and its loops.
  \<^descr> Event: \<^verbatim>\<open>event.hpp\<close>; the state word (signal bit and twice the number of waiters).
  \<^descr> Call_Stack: \<^verbatim>\<open>call_stack.hpp\<close>, \<^verbatim>\<open>thread_context.hpp\<close>; which schedulers a thread runs.
  \<^descr> Thread_Memory: \<^verbatim>\<open>thread_info_base.hpp\<close>, \<^verbatim>\<open>recycling_allocator.hpp\<close>, the \<open>ptr\<close> of
  \<^verbatim>\<open>executor_op.hpp\<close>; the locale \<open>operation_allocator\<close>.
  \<^descr> Handler_Memory, Handler_Memory_Properties: \<^verbatim>\<open>handler_alloc_helpers.hpp\<close>,
  \<^verbatim>\<open>handler_alloc_hook.hpp\<close>, \<^verbatim>\<open>associated_allocator.hpp\<close>; the three structs that own the memory of an
  operation under construction, with the allocator each finds at compile time, as events of any
  threads. In \<open>do_complete\<close> the allocator is part of the operation that is destroyed before it is
  read: an allocator with state is undefined there.
  \<^descr> Scheduler: \<^verbatim>\<open>scheduler.hpp\<close>, \<^verbatim>\<open>scheduler.cc\<close>, \<^verbatim>\<open>scheduler_thread_info.hpp\<close>; each member
  function, split at the points where the lock is released, and \<open>run\<close> by one thread alone.
  \<^descr> Threads: the same code run by any number of threads, as a step relation whose atomic steps are
  the critical sections and the atomic accesses outside them. Spurious wake-ups are allowed.
  \<^descr> Scheduler_Properties: what holds in every reachable state, and \<open>run\<close> of one thread.
  \<^descr> Quiet_Steps: executions in which nobody stops the scheduler and a work guard is held, and the
  declarations of \<^verbatim>\<open>main.cc\<close>.
  \<^descr> Histories: executions of Threads with a log of what is posted and called; what the queues of the
  scheduler, of threads and of descriptors hold, what was lost with a destroyed queue, and the order of
  the calls.
  \<^descr> Progress: from a reachable state to the call of a queued operation by the moves of one thread,
  whichever it is, while the others stand still.
  \<^descr> Bounded_Wait: executions of Threads counted by the moves of their threads, and a potential that
  bounds how many an operation can be passed over; the locations of a thread in \<open>run\<close> are ranked by
  how far they are from taking the next operation.
  \<^descr> No_Spinning: in the same executions, what all moves cost in a scheduler without a reactor.
  \<^descr> Wakeups: executions of Threads that keep, for each thread, what the scheduler had asked of the
  outside (notifications, \<open>task_->interrupt()\<close>) when the thread last moved; a thread that waits in the
  reactor is interrupted when work arrives that nobody else is there for.
  \<^descr> Main_Program: \<^verbatim>\<open>main.cc\<close>, its posts and what its threads may do, as executions of Threads.
  \<^descr> Ordered_Map: \<open>std::map\<close>, as a sorted association list; the locale \<open>ordered_table\<close>.
  \<^descr> Reactor: \<^verbatim>\<open>epoll_reactor.hpp\<close>, \<^verbatim>\<open>epoll_reactor.cc\<close>, \<^verbatim>\<open>reactor_op.hpp\<close>; every operation on
  descriptors. A descriptor is a pointer into a store, so that a freed one can be used wrongly.
  \<^descr> Reactor_Properties: their behaviour, and that they refine the steps of Threads.
  \<^descr> Reactor_System: the threads of Threads with the descriptors in place, each call on a descriptor
  split where it gives up the descriptor's lock before it posts (in \<open>start_op\<close> that is after a
  speculative \<open>perform\<close> that settled the operation, \<open>start_speculation\<close>; its other ways keep the lock);
  it refines Histories, operations on their way between the two locks counting as pending. The operations of internal descriptors
  (\<open>register_internal_descriptor\<close>) take no part.
  \<^descr> Descriptor_Order: in the executions of Reactor_System, the order in which operations wait on a
  descriptor.
  \<^descr> Run_Steps, Run_Refinement, Whole_Run: a call of \<open>run\<close> from start to return, with the reactor,
  \<open>scheduler_operation::complete\<close> of every kind of operation, and handlers that call the library. The locale
  \<open>run_world\<close> states what handlers and the reactor may do to a thread; its lemmas simulate \<open>run\<close> by
  steps of Threads.
  \<^descr> Service_Registry, Service_Properties: \<^verbatim>\<open>service_registry.hpp\<close>, \<^verbatim>\<open>service_registry.cc\<close>,
  \<^verbatim>\<open>service_registry_helpers.hpp\<close>, \<^verbatim>\<open>execution_context.cc\<close>, \<^verbatim>\<open>io_context.cc\<close>; requests of
  threads interleaved where \<open>use_service\<close> releases its lock.
  \<^descr> Service_Types: \<^verbatim>\<open>execution_context.hpp\<close> and the service bases of \<^verbatim>\<open>io_context.hpp\<close>; the classes
  of services, their keys and the cast \<open>use_service\<close> relies on, from the constructor of an
  \<open>io_context\<close> on, which registers its scheduler.
  \<^descr> Executors, Executor_Properties: \<^verbatim>\<open>executor_work_guard.hpp\<close>, \<^verbatim>\<open>work_dispatcher.hpp\<close>, \<^verbatim>\<open>post.hpp\<close>,
  \<^verbatim>\<open>executor_op.hpp\<close>, \<^verbatim>\<open>io_context.hpp\<close>, \<^verbatim>\<open>system_executor.hpp\<close>, \<^verbatim>\<open>system_context.cpp\<close>,
  \<^verbatim>\<open>thread_group.hpp\<close>, \<^verbatim>\<open>global.hpp\<close>; the locale \<open>work_counter\<close>.
  \<^descr> Posting, Posting_Properties: \<open>post\<close> and \<open>make_work_guard\<close> over types as values: the executor and
  the allocator of a handler (\<^verbatim>\<open>associated_executor.hpp\<close>, \<^verbatim>\<open>is_executor.hpp\<close>, \<^verbatim>\<open>async_result.hpp\<close>,
  \<^verbatim>\<open>handler_invoke_helpers.hpp\<close>), several contexts, and the completion of what was posted.
  \<^descr> Context_Runs, Context_Refinement: the callers of \<open>run\<close> (\<^verbatim>\<open>io_context.cc\<close> and the threads of
  \<^verbatim>\<open>system_context.cpp\<close>), \<^verbatim>\<open>scheduler_operation.hpp\<close> and shutting down, over several contexts; they
  refine an abstract machine of queues of function names.
  \<^descr> Io_Objects: \<^verbatim>\<open>basic_io_object.hpp\<close>; objects, their service and their context.
  \<^descr> Byte_Order, Socket_Ops, Socket_Properties, Address_Text: \<^verbatim>\<open>socket_ops.hpp\<close>,
  \<^verbatim>\<open>socket_ops.cc\<close>, \<^verbatim>\<open>socket_types.hpp\<close>.
  \<^descr> Addresses: \<^verbatim>\<open>address.hpp\<close>, \<^verbatim>\<open>address_v4.hpp\<close>, \<^verbatim>\<open>address_v6.hpp\<close>, \<^verbatim>\<open>endpoint.hpp\<close>,
  \<^verbatim>\<open>throw_error.hpp\<close>.
  \<^descr> Buffers: \<^verbatim>\<open>buffer.hpp\<close>, \<^verbatim>\<open>buffer_sequence_adapter.hpp\<close>; the locale \<open>consumable\<close>.
  \<^descr> Socket_Service, Socket_Sending: \<^verbatim>\<open>reactive_socket_service_base.hpp\<close>,
  \<^verbatim>\<open>reactive_socket_send_op.hpp\<close>, \<^verbatim>\<open>tcp.hpp\<close>, \<^verbatim>\<open>basic_endpoint.hpp\<close>; the asynchronous send as an
  operation of the reactor, on a system that may leave anything in \<open>errno\<close>.
  \<^descr> Socket_Base: \<^verbatim>\<open>socket_base.hpp\<close>; the constants.
  \<^descr> Interrupter: \<^verbatim>\<open>select_interrupter.cc\<close> and the descriptors the reactor itself owns.
  \<^descr> This theory: from posting a function to its completion, across executors, memory and scheduler.

  \<^bold>\<open>Modelling.\<close> A class is a record with its members; a member function maps the state to the new
  state and its result. \<open>fault + 'a\<close> is the outcome of code that throws, asserts or is undefined;
  \<open>None\<close> in an \<open>option\<close> is a call that does not return. Operations are identities (\<open>op_ref\<close>); what
  a handler does is a parameter. System calls are functions on the state of the world with
  \<open>errno\<close>, and what a theorem needs of them is a named hypothesis that a witness instantiates. The
  functions are translated as they are written, slips included: where the code does not do what its
  names say, a theorem states what it does.

  \<^bold>\<open>What is shown.\<close> For the scheduler under every interleaving: the count of work is the number of
  operations and guards that exist, it reads 0 only when there are none (the \<open>stop()\<close> that follows may
  come too late to be right), at most one thread is in the
  reactor, none sleeps while there is work, and none returns while a guard is held. Every operation
  that was handed over is called, in a queue, or lost in the ways a scheduler for one thread has, and is
  never called twice; functions are called in the order of the posts; a queued one can
  be called by any thread that can go on, by itself, and is called within a number of moves its place in the queue fixes, while nobody
  stops the scheduler or throws; without a reactor the threads make a bounded number of moves for each
  operation; with work in the queue or after \<open>stop\<close> a thread can go on by itself, has
  been notified since it went to sleep, or waits in a reactor that has been interrupted since it went in; and once all threads rest only
  operations that wait for their descriptor are left, in the order they were started. The counts and the last of these hold with the
  descriptors in place as well, and the order gives what \<^verbatim>\<open>main.cc\<close> does. For one thread:
  \<open>run\<close> executes what is queued in order, a whole call of it is an execution of the system of threads,
  and when it returns nothing is left to do. For the reactor: operations are settled once, cancelled and closed as a whole, performed in
  order; its calls and turns are steps of the system of threads, so the invariants hold with the
  reactor in place. For services: one object per name, none leaked, ended in order, of the type that
  is asked for unless two types share a key. For guards and
  executors: the work and memory they take and give back, on whatever threads operations are made and
  completed (with allocators that have no state and serve every thread), that what is posted is called
  once, and that several contexts behave as queues. For sockets: error reporting, waiting, what queued
  sends deliver, what of an address with a scope comes back from its text, round trips of byte orders.
  Error theorems show the branches that are wrong or undefined.

  \<^bold>\<open>Bounds.\<close> Counters wrap at their width; hypotheses bound the number of operations below
  \<open>2 ^ 64\<close> where a count must be exact. No definition uses fuel: a loop that may not end is a
  \<open>partial_function (option)\<close>, and its return (or not) is proved. Executions of the system of
  threads are sequentially consistent. \<open>private_outstanding_work\<close> is an unbounded integer where the
  source has \<open>long\<close>; it counts operations a thread handed to itself since it last looked.

  \<^bold>\<open>Not modelled.\<close> In the system of threads: handlers that throw or call \<open>run\<close> again,
  \<open>post_deferred_completion\<close> of a single operation, \<open>compensating_work_started\<close>, \<open>abandon_operations\<close>
  and \<open>shutdown\<close>, which are modelled alone. Memory fences (\<^verbatim>\<open>fenced_block.hpp\<close>: an execution is sequentially consistent), the
  socket classes that are shells (\<^verbatim>\<open>basic_socket.hpp\<close>, \<^verbatim>\<open>basic_stream_socket.hpp\<close>,
  \<^verbatim>\<open>reactive_socket_service.hpp\<close>, \<^verbatim>\<open>stream_socket_service.hpp\<close>: only what they derive from), member
  functions that are declared only, and what \<^verbatim>\<open>main.cc\<close> prints. Where
  the templates of \<^verbatim>\<open>io_context.hpp\<close>, \<^verbatim>\<open>buffer_sequence_adapter.hpp\<close>, \<^verbatim>\<open>handler_alloc_helpers.hpp\<close>,
  \<^verbatim>\<open>basic_io_object.hpp\<close> and \<^verbatim>\<open>reactive_socket_send_op.hpp\<close> cannot be instantiated because of a slip of
  syntax or naming, the model is the evident reading: \<open>o->state_\<close> for \<open>o - state_\<close> in \<open>send_perform\<close>, one
  type per variable of the \<open>for\<close> in \<open>all_empty\<close>, a pointer used as a pointer in \<open>io_object_ctor\<close>.
  \<open>complete_posted\<close> below is \<open>executor_op::do_complete\<close> for a function that is only called;
  \<open>complete_executor_op\<close> is the whole of it.
\<close>

section \<open>From post to completion\<close>

text \<open>
  A thread posts functions through the executor of an \<open>io_context\<close>, one after the other; the values
  are the places of their operations in memory.
\<close>

fun post_each ::
    "nat option \<Rightarrow> nat \<Rightarrow> nat \<Rightarrow> nat list \<Rightarrow> memory exec_state \<Rightarrow> fault + memory exec_state \<times> pointer option list" where
  "post_each poster sz self [] st = Inr (st, [])"
| "post_each poster sz self (op # ops) st =
     (case exec_post (tib_allocate poster sz) (\<lambda>p. tib_deallocate poster p sz) self op st of
        Inl e \<Rightarrow> Inl e
      | Inr (st1, v) \<Rightarrow>
          (case post_each poster sz self ops st1 of
             Inl e \<Rightarrow> Inl e
           | Inr (st2, vs) \<Rightarrow> Inr (st2, v # vs)))"

text \<open>
  What completing one of them does, on the thread \<open>runner\<close>: its memory is given back, its function
  is called. The world is the list of the functions called and the memory, or the fault.
\<close>

definition complete_posted ::
    "nat option \<Rightarrow> nat \<Rightarrow> (op_ref \<Rightarrow> pointer option) \<Rightarrow> op_ref \<Rightarrow> fault + op_ref list \<times> memory \<Rightarrow> fault + op_ref list \<times> memory" where
  "complete_posted runner sz place op w =
     (case (w, place op) of
        (Inr (called, m), Some v) \<Rightarrow>
          (case op_free (\<lambda>p. tib_deallocate runner p sz) v m of
             Inl e \<Rightarrow> Inl e
           | Inr (_, _, m') \<Rightarrow> Inr (called @ [op], m'))
      | (Inr _, None) \<Rightarrow> Inl Undefined_Behaviour
      | (Inl e, _) \<Rightarrow> Inl e)"

lemma exec_post_outside:
  assumes "\<not> can_dispatch self stk" and "alloc m = (v, m1)"
  obtains s' where "exec_post alloc dealloc self op (s, stk, m) = Inr ((s', stk, m1), Some v)"
    and "sch_op_queue s' = sch_op_queue s @ [Executor_Op op]"
    and "sch_outstanding_work s' = sch_outstanding_work s + 1" and "sch_stopped s' = sch_stopped s"
  using assms
  by (auto simp: exec_post_def hand_over_eq can_dispatch_def post_immediate_completion_def push_op_def
      oq_push_def work_started_def frame_simps Let_def split: option.splits)

lemma post_each_ok:
  assumes "\<not> can_dispatch self stk" and "mem_inv m"
  shows "\<exists>s' m' vs. post_each poster sz self ops (s, stk, m) = Inr ((s', stk, m'), map Some vs) \<and>
    sch_op_queue s' = sch_op_queue s @ map Executor_Op ops \<and>
    sch_outstanding_work s' = sch_outstanding_work s + of_nat (length ops) \<and> sch_stopped s' = sch_stopped s \<and>
    mem_inv m' \<and> length vs = length ops \<and> distinct vs \<and>
    (\<forall>v \<in> set vs. \<not> handed_out m v \<and> belongs_to poster sz v) \<and>
    (\<forall>q. handed_out m' q \<longleftrightarrow> q \<in> set vs \<or> handed_out m q)"
  using assms(2)
proof (induction ops arbitrary: s m)
  case Nil
  then show ?case by simp
next
  case (Cons op ops)
  obtain v m1 where al: "tib_allocate poster sz m = (v, m1)" by force
  obtain s1 where post: "exec_post (tib_allocate poster sz) (\<lambda>p. tib_deallocate poster p sz) self op (s, stk, m) =
      Inr ((s1, stk, m1), Some v)"
    and s1: "sch_op_queue s1 = sch_op_queue s @ [Executor_Op op]"
      "sch_outstanding_work s1 = sch_outstanding_work s + 1" "sch_stopped s1 = sch_stopped s"
    using exec_post_outside [where alloc = "tib_allocate poster sz" and m = m and self = self and s = s and op = op
        and dealloc = "\<lambda>p. tib_deallocate poster p sz", OF assms(1)] al by metis
  note out = tib.alloc_out [OF Cons.prems al] and fresh = tib.alloc_fresh [OF Cons.prems al]
  obtain s' m' vs where rest: "post_each poster sz self ops (s1, stk, m1) = Inr ((s', stk, m'), map Some vs)"
    "sch_op_queue s' = sch_op_queue s1 @ map Executor_Op ops"
    "sch_outstanding_work s' = sch_outstanding_work s1 + of_nat (length ops)" "sch_stopped s' = sch_stopped s1"
    "mem_inv m'" "length vs = length ops" "distinct vs"
    "\<forall>v \<in> set vs. \<not> handed_out m1 v \<and> belongs_to poster sz v"
    "\<forall>q. handed_out m' q \<longleftrightarrow> q \<in> set vs \<or> handed_out m1 q"
    using Cons.IH [OF tib.alloc_inv [OF Cons.prems al], of s1] by blast
  have "post_each poster sz self (op # ops) (s, stk, m) = Inr ((s', stk, m'), map Some (v # vs))"
    by (simp add: post rest(1))
  then show ?case
    using rest(2-) s1 out fresh tib.alloc_own [OF al]
    by (intro exI [of _ s'] exI [of _ m'] exI [of _ "v # vs"]) auto
qed

lemma complete_posted_step:
  assumes "mem_inv m" "handed_out m v" "belongs_to runner sz v" "place op = Some v"
  obtains m' where "complete_posted runner sz place op (Inr (called, m)) = Inr (called @ [op], m')"
    "mem_inv m'" "\<forall>q. handed_out m' q \<longleftrightarrow> handed_out m q \<and> q \<noteq> v"
  using tib.dealloc_ok [OF assms(1-3)] assms(4)
  by (auto simp: complete_posted_def op_free_def ptr_reset_def)

lemma complete_all_posted:
  assumes "length vs = length ops" and "mem_inv m" and "distinct vs"
    and "\<forall>v \<in> set vs. handed_out m v \<and> belongs_to runner sz v"
    and "\<forall>(op, v) \<in> set (zip ops vs). place op = Some v"
  shows "\<exists>m'. fold (complete_posted runner sz place) ops (Inr (called, m)) = Inr (called @ ops, m') \<and>
    (\<forall>q. handed_out m' q \<longleftrightarrow> handed_out m q \<and> q \<notin> set vs)"
  using assms
proof (induction ops vs arbitrary: called m rule: list_induct2')
  case (4 op ops v vs)
  then have "mem_inv m" "handed_out m v" "belongs_to runner sz v" "place op = Some v" by auto
  then obtain m1 where m1: "complete_posted runner sz place op (Inr (called, m)) = Inr (called @ [op], m1)"
    "mem_inv m1" "\<forall>q. handed_out m1 q \<longleftrightarrow> handed_out m q \<and> q \<noteq> v"
    by (rule complete_posted_step)
  with 4 obtain m' where "fold (complete_posted runner sz place) ops (Inr (called @ [op], m1)) =
      Inr ((called @ [op]) @ ops, m')" "\<forall>q. handed_out m' q \<longleftrightarrow> handed_out m1 q \<and> q \<notin> set vs"
    using "4.IH" [of m1 "called @ [op]"] by auto
  with m1 show ?case by auto
qed auto

lemma belongs_to_runner:
  "belongs_to poster sz v \<Longrightarrow> poster = None \<or> runner = poster \<Longrightarrow> belongs_to runner sz v"
  by (auto simp: belongs_to_def split: pointer.splits)

text \<open>C19. Functions posted to an idle \<open>io_context\<close> from outside its \<open>run\<close>, by a thread that then runs
  it, or by one that is in no run at all: \<open>run\<close> calls each of them exactly once, in the order they
  were posted, returns their number and leaves the scheduler empty, without work and stopped; the
  memory of every operation, taken by the thread that posts, is given back, so exactly what was
  handed out before is handed out afterwards.\<close>

theorem posted_functions_run_once:
  assumes "sch_op_queue s = []" and "sch_outstanding_work s = 0" and "\<not> sch_stopped s"
    and "\<not> can_dispatch self stk" and "mem_inv m" and "poster = None \<or> runner = poster"
    and "ops \<noteq> []" and "distinct ops" and "length ops < 2 ^ 64"
  shows "\<exists>s1 m1 vs s2 m2. post_each poster sz self ops (s, stk, m) = Inr ((s1, stk, m1), vs) \<and>
    sched_run self
        (\<lambda>op (s, stk, w). (s, stk, complete_posted runner sz (the \<circ> map_of (zip (map Executor_Op ops) vs)) op w))
        task_run (s1, stk, Inr ([], m1)) =
      Some (Inr (of_nat (length ops), s2, stk, Inr (map Executor_Op ops, m2))) \<and>
    sch_op_queue s2 = [] \<and> sch_outstanding_work s2 = 0 \<and> sch_stopped s2 \<and>
    (\<forall>q. handed_out m2 q \<longleftrightarrow> handed_out m q)"
proof -
  obtain s1 m1 vs where post: "post_each poster sz self ops (s, stk, m) = Inr ((s1, stk, m1), map Some vs)"
    and s1: "sch_op_queue s1 = map Executor_Op ops" "sch_outstanding_work s1 = of_nat (length ops)" "\<not> sch_stopped s1"
    and m1: "mem_inv m1" "\<forall>q. handed_out m1 q \<longleftrightarrow> q \<in> set vs \<or> handed_out m q"
    and vs: "length vs = length ops" "distinct vs" "\<forall>v \<in> set vs. \<not> handed_out m v \<and> belongs_to poster sz v"
    using post_each_ok [OF assms(4,5), of poster sz ops s] assms(1-3) by auto
  let ?place = "the \<circ> map_of (zip (map Executor_Op ops) (map Some vs))"
  let ?f = "complete_posted runner sz ?place"
  have "distinct (map Executor_Op ops)" using assms(8) by (simp add: distinct_map inj_on_def)
  then have "?place (map Executor_Op ops ! i) = Some (vs ! i)" if "i < length ops" for i
    using map_of_zip_nth [of "map Executor_Op ops" "map Some vs" i] vs(1) that by (simp del: nth_map) simp
  then have "\<forall>(op, v) \<in> set (zip (map Executor_Op ops) vs). ?place op = Some v"
    using vs(1) by (auto simp: set_zip)
  then obtain m2 where m2: "fold ?f (map Executor_Op ops) (Inr ([], m1)) = Inr ([] @ map Executor_Op ops, m2)"
    "\<forall>q. handed_out m2 q \<longleftrightarrow> handed_out m1 q \<and> q \<notin> set vs"
    using complete_all_posted [of vs "map Executor_Op ops" m1 runner sz ?place "[]"] vs m1 belongs_to_runner assms(6)
    by (metis length_map)
  have "Task_Operation \<notin> set (sch_op_queue s1)" "sch_op_queue s1 \<noteq> []"
    using s1(1) assms(7) by auto
  then obtain s2 where "sched_run self (\<lambda>op (s, stk, w). (s, stk, ?f op w)) task_run (s1, stk, Inr ([], m1)) =
      Some (Inr (of_nat (length ops), s2, stk, Inr (map Executor_Op ops, m2)))"
    "sch_op_queue s2 = []" "sch_outstanding_work s2 = 0" "sch_stopped s2"
    using run_in_order [where complete = "\<lambda>op (s, stk, w). (s, stk, ?f op w)" and f = ?f and s = s1
        and stk = stk and w = "Inr ([], m1)" and self = self and task_run = task_run] s1 assms(9) m2(1) by auto
  with post show ?thesis using m1(2) m2(2) vs(3) by blast
qed

theorem posted_functions_run_once_witness:
  "\<exists>s1 m1 vs s2 m2. post_each None 64 0 [3, 5] (demo_idle_sched, [], \<lparr>in_use = (\<lambda>_. False), live = [1], fresh = 4\<rparr>) =
      Inr ((s1, [], m1), vs) \<and>
    sched_run 0
        (\<lambda>op (s, stk, w). (s, stk, complete_posted (Some 7) 64 (the \<circ> map_of (zip [Executor_Op 3, Executor_Op 5] vs)) op w))
        (\<lambda>_ st. st) (s1, [], Inr ([], m1)) =
      Some (Inr (2, s2, [], Inr ([Executor_Op 3, Executor_Op 5], m2))) \<and> sch_stopped s2 \<and>
    (\<forall>n. n \<in> set (live m2) \<longleftrightarrow> n = 1)"
proof -
  let ?m = "\<lparr>in_use = (\<lambda>_. False), live = [1], fresh = 4\<rparr>"
  obtain s1 m1 vs s2 m2 where run: "post_each None 64 0 [3, 5] (demo_idle_sched, [], ?m) = Inr ((s1, [], m1), vs)"
    "sched_run 0
        (\<lambda>op (s, stk, w). (s, stk, complete_posted (Some 7) 64 (the \<circ> map_of (zip (map Executor_Op [3, 5]) vs)) op w))
        (\<lambda>_ st. st) (s1, [], Inr ([], m1)) =
      Some (Inr (of_nat (length [3, 5::nat]), s2, [], Inr (map Executor_Op [3, 5], m2)))"
    "sch_stopped s2" "\<forall>q. handed_out m2 q \<longleftrightarrow> handed_out ?m q"
    using posted_functions_run_once [where s = demo_idle_sched and stk = "[]" and m = ?m and poster = None
        and runner = "Some 7" and ops = "[3, 5]" and sz = 64 and self = 0 and task_run = "\<lambda>_ st. st"]
    by (auto simp: demo_idle_sched_def can_dispatch_def mem_inv_def)
  then have "n \<in> set (live m2) \<longleftrightarrow> n = 1" for n
    by (metis handed_out.simps(2) list.set(1,2) memory.select_convs(2) singleton_iff)
  with run(1-3) show ?thesis by (intro exI) auto
qed

end
